(* ===== verification/Kad_Prelude.thy ===== *)
theory Kad_Prelude
  imports Main "HOL-Library.Word" "HOL-Library.AList" "HOL-Library.Multiset"
begin

text \<open>
  Shared vocabulary of the development: the machine types of the Rust sources, the error type
  of \<^verbatim>\<open>src/src/error.rs\<close>, the outcome of a call (normal return, error return or panic), and
  the parts of the standard library the sources use: \<^verbatim>\<open>Iterator::position\<close>,
  \<^verbatim>\<open>VecDeque::remove\<close>, \<^verbatim>\<open>HashMap\<close>, \<^verbatim>\<open>Duration\<close>, \<^verbatim>\<open>SystemTime\<close> and \<^verbatim>\<open>Instant\<close>.
  A \<^verbatim>\<open>HashMap\<close> is an association list with distinct keys whose order is the (unspecified)
  iteration order; the locale \<open>hash_map\<close> states the laws its clients rely on.
\<close>

section \<open>Machine types\<close>

type_synonym u8 = "8 word"
type_synonym u16 = "16 word"
type_synonym u32 = "32 word"
type_synonym u64 = "64 word"

section \<open>Errors and outcomes\<close>

datatype io_error = UnexpectedEof | OtherIo string

datatype error =
    Io io_error
  | Serialization string
  | Bincode string
  | NodeNotFound
  | ValueNotFound
  | Network string
  | Timeout
  | InvalidNodeId
  | Other string

text \<open>
  A call of the library returns \<open>Ok\<close>, returns \<open>Err\<close>, or panics. A method that takes
  \<^verbatim>\<open>&mut self\<close> returns the new state beside its outcome, since a state change made before an
  error return persists.
\<close>

datatype 'a outcome = Ok 'a | Err error | Panic string

fun is_ok :: "'a outcome \<Rightarrow> bool" where
  "is_ok (Ok _) = True"
| "is_ok _ = False"

fun panics :: "'a outcome \<Rightarrow> bool" where
  "panics (Panic _) = True"
| "panics _ = False"

text \<open>\<^verbatim>\<open>Result::ok\<close>: the value of a normal return, if there is one.\<close>

fun ok_opt :: "'a outcome \<Rightarrow> 'a option" where
  "ok_opt (Ok x) = Some x"
| "ok_opt _ = None"

lemma is_ok_iff: "is_ok r \<longleftrightarrow> (\<exists>x. r = Ok x)"
  by (cases r) auto

lemma panics_iff: "panics r \<longleftrightarrow> (\<exists>s. r = Panic s)"
  by (cases r) auto

section \<open>Time\<close>

text \<open>
  A \<^verbatim>\<open>Duration\<close> is a number of nanoseconds, an \<^verbatim>\<open>Instant\<close> a number of nanoseconds since
  an arbitrary origin, a \<^verbatim>\<open>SystemTime\<close> a signed number of nanoseconds since the UNIX epoch.
\<close>

type_synonym duration = nat
type_synonym instant = nat
type_synonym system_time = int

definition from_secs :: "nat \<Rightarrow> duration" where
  "from_secs s = s * 1000000000"

definition from_millis :: "nat \<Rightarrow> duration" where
  "from_millis ms = ms * 1000000"

definition as_millis :: "duration \<Rightarrow> nat" where
  "as_millis d = d div 1000000"

lemma as_millis_from_millis [simp]: "as_millis (from_millis ms) = ms"
  by (simp add: as_millis_def from_millis_def)

lemma as_millis_from_secs [simp]: "as_millis (from_secs s) = s * 1000"
  by (simp add: as_millis_def from_secs_def)

lemma from_secs_le [simp]: "from_secs a \<le> from_secs b \<longleftrightarrow> a \<le> b"
  by (simp add: from_secs_def)

text \<open>
  \<^verbatim>\<open>SystemTime::now().duration_since(UNIX_EPOCH).unwrap_or(0 s).as_secs()\<close>: a clock set
  before the epoch makes \<^verbatim>\<open>duration_since\<close> fail and reads as 0.
\<close>

definition unix_secs :: "system_time \<Rightarrow> u64" where
  "unix_secs t = (if t < 0 then 0 else of_int (t div 1000000000))"

text \<open>
  \<^verbatim>\<open>Instant + Duration\<close> panics when the sum does not fit the platform's clock type, on the
  supported Unix targets a signed 64-bit number of seconds.
\<close>

definition INSTANT_LIMIT :: nat where
  "INSTANT_LIMIT = 2 ^ 63 * 1000000000"

definition instant_add :: "instant \<Rightarrow> duration \<Rightarrow> instant outcome" where
  "instant_add i d =
     (if i + d < INSTANT_LIMIT then Ok (i + d)
      else Panic ''overflow when adding duration to instant'')"

text \<open>\<^verbatim>\<open>Instant::duration_since\<close> saturates at zero.\<close>

definition duration_since :: "instant \<Rightarrow> instant \<Rightarrow> duration" where
  "duration_since later earlier = later - earlier"

section \<open>Sequences\<close>

fun position :: "('a \<Rightarrow> bool) \<Rightarrow> 'a list \<Rightarrow> nat option" where
  "position P [] = None"
| "position P (x # xs) = (if P x then Some 0 else map_option Suc (position P xs))"

text \<open>\<^verbatim>\<open>VecDeque::remove\<close> and \<^verbatim>\<open>Vec::remove\<close> at an index in range.\<close>

definition remove_at :: "nat \<Rightarrow> 'a list \<Rightarrow> 'a list" where
  "remove_at i xs = take i xs @ drop (Suc i) xs"

lemma position_None_iff: "position P xs = None \<longleftrightarrow> (\<forall>x\<in>set xs. \<not> P x)"
  by (induction xs) auto

lemma position_SomeD:
  "position P xs = Some i \<Longrightarrow> i < length xs \<and> P (xs ! i) \<and> (\<forall>j<i. \<not> P (xs ! j))"
proof (induction xs arbitrary: i)
  case (Cons x xs)
  show ?case
  proof (cases "P x")
    case False
    with Cons.prems obtain j where j: "position P xs = Some j" "i = Suc j"
      by auto
    with Cons.IH [OF j(1)] False show ?thesis
      by (auto simp: less_Suc_eq_0_disj)
  qed (use Cons.prems in auto)
qed simp

lemma position_split:
  assumes "position P xs = Some i"
  obtains ys x zs where "xs = ys @ x # zs" "length ys = i" "P x" "\<forall>y\<in>set ys. \<not> P y"
    "xs ! i = x" "remove_at i xs = ys @ zs"
proof -
  from position_SomeD [OF assms] have i: "i < length xs" "P (xs ! i)" "\<forall>j<i. \<not> P (xs ! j)"
    by auto
  show ?thesis
  proof
    show "xs = take i xs @ xs ! i # drop (Suc i) xs" using i(1) by (rule id_take_nth_drop)
    show "\<forall>y\<in>set (take i xs). \<not> P y" using i by (auto simp: in_set_conv_nth)
  qed (use i in \<open>auto simp: remove_at_def\<close>)
qed

lemma length_remove_at [simp]: "i < length xs \<Longrightarrow> length (remove_at i xs) = length xs - 1"
  by (simp add: remove_at_def)

lemma set_remove_at_subset: "set (remove_at i xs) \<subseteq> set xs"
  by (auto simp: remove_at_def dest: in_set_takeD in_set_dropD)

lemma mset_remove_at:
  assumes "i < length xs"
  shows "add_mset (xs ! i) (mset (remove_at i xs)) = mset xs"
proof -
  have "mset xs = mset (take i xs @ xs ! i # drop (Suc i) xs)"
    using assms by (simp add: id_take_nth_drop [symmetric])
  then show ?thesis by (simp add: remove_at_def)
qed

lemma distinct_remove_at: "distinct xs \<Longrightarrow> distinct (remove_at i xs)"
proof -
  assume d: "distinct xs"
  have "set (take i xs) \<inter> set (drop (Suc i) xs) = {}"
    using d by (meson set_take_disj_set_drop_if_distinct le_Suc_eq le_refl)
  with d show ?thesis by (simp add: remove_at_def)
qed

lemma upt_ConsD: "x # xs = [m..<n] \<Longrightarrow> m < n \<and> x = m \<and> xs = [Suc m..<n]"
  by (cases "m < n") (auto simp: upt_conv_Cons)

lemma upt_NilD: "[] = [m..<n] \<Longrightarrow> m \<le> n \<Longrightarrow> m = n"
  by (metis le_antisym linorder_not_le upt_eq_Nil_conv le_zero_eq)

lemma map_remove_at: "map f (remove_at i xs) = remove_at i (map f xs)"
  by (simp add: remove_at_def take_map drop_map)

section \<open>Hash maps\<close>

locale hash_map =
  fixes get :: "'m \<Rightarrow> 'k \<Rightarrow> 'v option"
    and insert :: "'k \<Rightarrow> 'v \<Rightarrow> 'm \<Rightarrow> 'm"
    and remove :: "'k \<Rightarrow> 'm \<Rightarrow> 'm"
    and retain :: "('k \<Rightarrow> 'v \<Rightarrow> bool) \<Rightarrow> 'm \<Rightarrow> 'm"
    and keys :: "'m \<Rightarrow> 'k list"
    and invar :: "'m \<Rightarrow> bool"
  assumes get_insert: "get (insert k v m) = (get m)(k \<mapsto> v)"
    and get_remove: "get (remove k m) = (get m)(k := None)"
    and get_retain: "invar m \<Longrightarrow>
      get (retain P m) k = (case get m k of None \<Rightarrow> None | Some v \<Rightarrow> if P k v then Some v else None)"
    and set_keys: "invar m \<Longrightarrow> set (keys m) = dom (get m)"
    and distinct_keys: "invar m \<Longrightarrow> distinct (keys m)"
    and invar_insert: "invar m \<Longrightarrow> invar (insert k v m)"
    and invar_remove: "invar m \<Longrightarrow> invar (remove k m)"
    and invar_retain: "invar m \<Longrightarrow> invar (retain P m)"
begin

lemma get_insert_same [simp]: "get (insert k v m) k = Some v"
  by (simp add: get_insert)

lemma get_insert_other [simp]: "k' \<noteq> k \<Longrightarrow> get (insert k v m) k' = get m k'"
  by (simp add: get_insert)

lemma get_remove_same [simp]: "get (remove k m) k = None"
  by (simp add: get_remove)

lemma get_remove_other [simp]: "k' \<noteq> k \<Longrightarrow> get (remove k m) k' = get m k'"
  by (simp add: get_remove)

lemma key_iff: "invar m \<Longrightarrow> k \<in> set (keys m) \<longleftrightarrow> get m k \<noteq> None"
  by (auto simp: set_keys)

lemma length_keys: "invar m \<Longrightarrow> length (keys m) = card (dom (get m))"
  using distinct_card [OF distinct_keys] by (simp add: set_keys)

end

definition hm_get :: "('k \<times> 'v) list \<Rightarrow> 'k \<Rightarrow> 'v option" where
  "hm_get m = map_of m"

definition hm_insert :: "'k \<Rightarrow> 'v \<Rightarrow> ('k \<times> 'v) list \<Rightarrow> ('k \<times> 'v) list" where
  "hm_insert k v m = AList.update k v m"

definition hm_remove :: "'k \<Rightarrow> ('k \<times> 'v) list \<Rightarrow> ('k \<times> 'v) list" where
  "hm_remove k m = AList.delete k m"

definition hm_retain :: "('k \<Rightarrow> 'v \<Rightarrow> bool) \<Rightarrow> ('k \<times> 'v) list \<Rightarrow> ('k \<times> 'v) list" where
  "hm_retain P m = filter (\<lambda>(k, v). P k v) m"

definition hm_keys :: "('k \<times> 'v) list \<Rightarrow> 'k list" where
  "hm_keys m = map fst m"

definition hm_values :: "('k \<times> 'v) list \<Rightarrow> 'v list" where
  "hm_values m = map snd m"

definition hm_wf :: "('k \<times> 'v) list \<Rightarrow> bool" where
  "hm_wf m \<longleftrightarrow> distinct (map fst m)"

lemma map_of_filter_distinct:
  assumes "distinct (map fst m)"
  shows "map_of (filter (\<lambda>(k, v). P k v) m) k =
    (case map_of m k of None \<Rightarrow> None | Some v \<Rightarrow> if P k v then Some v else None)"
  using assms
proof (induction m)
  case (Cons e m)
  obtain k' v' where e: "e = (k', v')" by force
  have "map_of m k' = None" using Cons.prems e by (simp add: map_of_eq_None_iff)
  then show ?case using Cons e by (auto split: option.splits)
qed simp

interpretation hm: hash_map hm_get hm_insert hm_remove hm_retain hm_keys hm_wf
proof (unfold_locales, goal_cases)
  case (1 k v m) show ?case by (auto simp: hm_get_def hm_insert_def update_conv)
next
  case (2 k m) show ?case by (auto simp: hm_get_def hm_remove_def delete_conv)
next
  case (3 m P k) then show ?case
    by (simp add: hm_wf_def hm_get_def hm_retain_def map_of_filter_distinct)
next
  case (4 m) show ?case by (auto simp: hm_keys_def hm_get_def dom_map_of_conv_image_fst)
next
  case (5 m) then show ?case by (simp add: hm_keys_def hm_wf_def)
next
  case (6 m k v) then show ?case by (simp add: hm_wf_def hm_insert_def distinct_update)
next
  case (7 m k) then show ?case by (simp add: hm_wf_def hm_remove_def distinct_delete)
next
  case (8 m P) then show ?case
    by (simp add: hm_wf_def hm_retain_def distinct_map_filter)
qed

lemma hm_wf_Nil [simp]: "hm_wf []"
  by (simp add: hm_wf_def)

lemma hm_get_Nil [simp]: "hm_get [] k = None"
  by (simp add: hm_get_def)

lemma hm_values_iff:
  "hm_wf m \<Longrightarrow> v \<in> set (hm_values m) \<longleftrightarrow> (\<exists>k. hm_get m k = Some v)"
  by (force simp: hm_values_def hm_get_def hm_wf_def)

lemma hm_get_Some_iff: "hm_wf m \<Longrightarrow> hm_get m k = Some v \<longleftrightarrow> (k, v) \<in> set m"
  by (simp add: hm_wf_def hm_get_def)

lemma hm_retain_all: "(\<And>k v. (k, v) \<in> set m \<Longrightarrow> P k v) \<Longrightarrow> hm_retain P m = m"
  by (auto simp: hm_retain_def intro!: filter_True)

lemma hm_insert_twice [simp]: "hm_insert k v (hm_insert k w m) = hm_insert k v m"
  by (induction m) (auto simp: hm_insert_def)

lemma set_hm_values_insert: "set (hm_values (hm_insert k v m)) \<subseteq> insert v (set (hm_values m))"
  by (induction m) (auto simp: hm_insert_def hm_values_def)

section \<open>Operations that keep an invariant\<close>

text \<open>
  A component is a state, a type of operations and a step function. What every operation keeps
  holds after every sequence of operations.
\<close>

fun run :: "('op \<Rightarrow> 's \<Rightarrow> 's) \<Rightarrow> 'op list \<Rightarrow> 's \<Rightarrow> 's" where
  "run step [] s = s"
| "run step (x # xs) s = run step xs (step x s)"

lemma run_append [simp]: "run step (xs @ ys) s = run step ys (run step xs s)"
  by (induction xs arbitrary: s) auto

locale stable =
  fixes step :: "'op \<Rightarrow> 's \<Rightarrow> 's"
    and inv :: "'s \<Rightarrow> bool"
  assumes step_inv: "inv s \<Longrightarrow> inv (step x s)"
begin

lemma run_inv: "inv s \<Longrightarrow> inv (run step xs s)"
  by (induction xs arbitrary: s) (auto simp: step_inv)

end

text \<open>
  Operations on a concrete state that an abstraction function maps to operations on an abstract
  one, for operations that satisfy a precondition.
\<close>

locale refines =
  fixes cstep :: "'op \<Rightarrow> 'c \<Rightarrow> 'c"
    and astep :: "'op \<Rightarrow> 'a \<Rightarrow> 'a"
    and abs :: "'c \<Rightarrow> 'a"
    and inv :: "'c \<Rightarrow> bool"
    and pre :: "'op \<Rightarrow> bool"
  assumes keeps_inv: "inv c \<Longrightarrow> pre x \<Longrightarrow> inv (cstep x c)"
    and commutes: "inv c \<Longrightarrow> pre x \<Longrightarrow> abs (cstep x c) = astep x (abs c)"
begin

lemma run_refines:
  "inv c \<Longrightarrow> list_all pre xs \<Longrightarrow> inv (run cstep xs c) \<and> abs (run cstep xs c) = run astep xs (abs c)"
  by (induction xs arbitrary: c) (auto simp: keeps_inv commutes)

end

end
