(* ===== verification/Node_Id.thy ===== *)
theory Node_Id
  imports Kad_Prelude
begin

text \<open>
  \<^verbatim>\<open>src/src/node_id.rs\<close>: the 160-bit identifier, its byte and bit accessors, the XOR distance,
  the total order, the bucket index and the random identifiers. The type is the fixed-length byte
  array of the source. Its abstract reading is the big-endian number \<open>id_val\<close>: the operations
  on byte arrays are shown to be XOR, comparison and bit tests on that number.
\<close>

unbundle bit_operations_syntax

section \<open>The identifier\<close>

definition KEY_LENGTH_BYTES :: nat where
  "KEY_LENGTH_BYTES = 20"

definition KEY_LENGTH_BITS :: nat where
  "KEY_LENGTH_BITS = KEY_LENGTH_BYTES * 8"

lemma KEY_LENGTH_BITS_eq [simp]: "KEY_LENGTH_BITS = 160"
  by (simp add: KEY_LENGTH_BITS_def KEY_LENGTH_BYTES_def)

typedef node_id = "{bs :: u8 list. length bs = KEY_LENGTH_BYTES}"
  morphisms as_bytes NodeId
  by (rule exI [of _ "replicate KEY_LENGTH_BYTES 0"]) simp

definition from_bytes :: "u8 list \<Rightarrow> node_id" where
  "from_bytes data =
     NodeId (if KEY_LENGTH_BYTES \<le> length data then take KEY_LENGTH_BYTES data
             else data @ replicate (KEY_LENGTH_BYTES - length data) 0)"

text \<open>\<^verbatim>\<open>rng.fill(&mut bytes)\<close>: the generator supplies one byte per position.\<close>

definition random :: "(nat \<Rightarrow> u8) \<Rightarrow> node_id" where
  "random rng = NodeId (map rng [0..<KEY_LENGTH_BYTES])"

text \<open>
  The \<^verbatim>\<open>hex\<close> crate is a parameter: \<open>encode\<close> and \<open>decode\<close> stand for \<^verbatim>\<open>hex::encode\<close>
  and \<^verbatim>\<open>hex::decode\<close>.
\<close>

definition from_hex :: "(string \<Rightarrow> 'e + u8 list) \<Rightarrow> string \<Rightarrow> 'e + node_id" where
  "from_hex decode hex_str =
     (case decode hex_str of Inl e \<Rightarrow> Inl e | Inr bytes \<Rightarrow> Inr (from_bytes bytes))"

definition to_hex :: "(u8 list \<Rightarrow> string) \<Rightarrow> node_id \<Rightarrow> string" where
  "to_hex encode a = encode (as_bytes a)"

definition distance :: "node_id \<Rightarrow> node_id \<Rightarrow> node_id" where
  "distance a b = NodeId (map (\<lambda>i. as_bytes a ! i XOR as_bytes b ! i) [0..<KEY_LENGTH_BYTES])"

definition bit_at :: "node_id \<Rightarrow> nat \<Rightarrow> bool" where
  "bit_at a pos =
     (if KEY_LENGTH_BITS \<le> pos then False
      else let byte_pos = pos div 8;
               bit_pos = 7 - pos mod 8
           in (as_bytes a ! byte_pos) AND push_bit bit_pos 1 \<noteq> 0)"

text \<open>
  The nested loop of \<^verbatim>\<open>leading_zeros\<close>: the inner loop over the bits of one byte returns the
  count and whether it left the outer loop.
\<close>

fun lz_bits :: "u8 \<Rightarrow> nat list \<Rightarrow> nat \<Rightarrow> nat \<times> bool" where
  "lz_bits byte [] cnt = (cnt, False)"
| "lz_bits byte (n # ns) cnt =
     (if byte AND push_bit n 1 \<noteq> 0 then (cnt, True) else lz_bits byte ns (cnt + 1))"

fun lz_bytes :: "u8 list \<Rightarrow> nat \<Rightarrow> nat" where
  "lz_bytes [] cnt = cnt"
| "lz_bytes (byte # bytes) cnt =
     (case lz_bits byte (rev [0..<8]) cnt of
        (cnt', True) \<Rightarrow> cnt'
      | (cnt', False) \<Rightarrow> lz_bytes bytes cnt')"

definition leading_zeros :: "node_id \<Rightarrow> nat" where
  "leading_zeros a = lz_bytes (as_bytes a) 0"

definition common_prefix_length :: "node_id \<Rightarrow> node_id \<Rightarrow> nat" where
  "common_prefix_length a b = leading_zeros (distance a b)"

text \<open>The two loops of \<^verbatim>\<open>bucket_index\<close>, over the bytes and over the bits of a non-zero byte.\<close>

fun bi_bits :: "u8 \<Rightarrow> nat \<Rightarrow> nat list \<Rightarrow> nat option" where
  "bi_bits byte i [] = None"
| "bi_bits byte i (j # js) =
     (let b = 7 - j
      in if byte AND push_bit b 1 \<noteq> 0 then Some (i * 8 + j) else bi_bits byte i js)"

fun bi_bytes :: "u8 list \<Rightarrow> nat list \<Rightarrow> nat option" where
  "bi_bytes bytes [] = None"
| "bi_bytes bytes (i # is) =
     (if bytes ! i = 0 then bi_bytes bytes is
      else case bi_bits (bytes ! i) i [0..<8] of
             Some r \<Rightarrow> Some r
           | None \<Rightarrow> bi_bytes bytes is)"

definition bucket_index :: "node_id \<Rightarrow> node_id \<Rightarrow> nat option" where
  "bucket_index a b =
     (let d = distance a b
      in if list_all (\<lambda>x. x = 0) (as_bytes d) then None
         else bi_bytes (as_bytes d) [0..<KEY_LENGTH_BYTES])"

text \<open>
  \<^verbatim>\<open>random_in_bucket\<close>: the loop sets or clears every bit after the bucket's, one coin per
  position (\<^verbatim>\<open>rng.gen()\<close>).
\<close>

function rib_loop :: "(nat \<Rightarrow> bool) \<Rightarrow> nat \<Rightarrow> u8 list \<Rightarrow> u8 list" where
  "rib_loop coin n bytes =
     (if n < KEY_LENGTH_BITS then
        let b_pos = n div 8;
            offset = 7 - n mod 8;
            byte = (if coin n then bytes ! b_pos OR push_bit offset 1
                    else bytes ! b_pos AND NOT (push_bit offset 1))
        in rib_loop coin (n + 1) (bytes[b_pos := byte])
      else bytes)"
  by pat_completeness auto
termination
  by (relation "measure (\<lambda>(coin, n, bytes). KEY_LENGTH_BITS - n)") auto

declare rib_loop.simps [simp del]

definition random_in_bucket :: "(nat \<Rightarrow> bool) \<Rightarrow> node_id \<Rightarrow> nat \<Rightarrow> node_id option" where
  "random_in_bucket coin base index =
     (if KEY_LENGTH_BITS \<le> index then None
      else let byte_pos = index div 8;
               bit_pos = 7 - index mod 8;
               bytes = (as_bytes base)[byte_pos := as_bytes base ! byte_pos XOR push_bit bit_pos 1]
           in Some (NodeId (rib_loop coin (index + 1) bytes)))"

section \<open>Equality and order\<close>

text \<open>\<^verbatim>\<open>self.bytes.cmp(&other.bytes)\<close>: the lexicographic comparison of byte slices.\<close>

datatype ordering = Less | Equal | Greater

fun slice_cmp :: "u8 list \<Rightarrow> u8 list \<Rightarrow> ordering" where
  "slice_cmp [] [] = Equal"
| "slice_cmp [] (_ # _) = Less"
| "slice_cmp (_ # _) [] = Greater"
| "slice_cmp (x # xs) (y # ys) =
     (if x < y then Less else if y < x then Greater else slice_cmp xs ys)"

definition cmp :: "node_id \<Rightarrow> node_id \<Rightarrow> ordering" where
  "cmp a b = slice_cmp (as_bytes a) (as_bytes b)"

section \<open>Byte access\<close>

lemma length_as_bytes [simp]: "length (as_bytes a) = 20"
  using as_bytes [of a] by (simp add: KEY_LENGTH_BYTES_def)

lemma as_bytes_NodeId: "length bs = 20 \<Longrightarrow> as_bytes (NodeId bs) = bs"
  by (simp add: NodeId_inverse KEY_LENGTH_BYTES_def)

lemma as_bytes_from_bytes [simp]:
  "as_bytes (from_bytes data) = take 20 (data @ replicate 20 0)"
  by (auto simp: from_bytes_def KEY_LENGTH_BYTES_def as_bytes_NodeId)

lemma as_bytes_random [simp]: "as_bytes (random rng) = map rng [0..<20]"
  by (simp add: random_def KEY_LENGTH_BYTES_def as_bytes_NodeId)

lemma node_id_eq_iff: "a = b \<longleftrightarrow> as_bytes a = as_bytes b"
  by (simp add: as_bytes_inject)

lemma from_bytes_eq_iff [simp]:
  "from_bytes a = from_bytes b \<longleftrightarrow> take 20 (a @ replicate 20 0) = take 20 (b @ replicate 20 0)"
  by (simp only: node_id_eq_iff as_bytes_from_bytes)

lemma from_bytes_as_bytes [simp]: "from_bytes (as_bytes a) = a"
  by (simp add: node_id_eq_iff)

lemma as_bytes_distance: "as_bytes (distance a b) = map2 (XOR) (as_bytes a) (as_bytes b)"
proof -
  have "map (\<lambda>i. as_bytes a ! i XOR as_bytes b ! i) [0..<20] = map2 (XOR) (as_bytes a) (as_bytes b)"
    by (rule nth_equalityI) auto
  then show ?thesis
    by (simp add: distance_def KEY_LENGTH_BYTES_def as_bytes_NodeId)
qed

lemma nth_distance [simp]:
  "i < 20 \<Longrightarrow> as_bytes (distance a b) ! i = as_bytes a ! i XOR as_bytes b ! i"
  by (simp add: as_bytes_distance)

section \<open>Bits\<close>

lemma and_push_bit_1: "(w :: u8) AND push_bit n 1 \<noteq> 0 \<longleftrightarrow> bit w n"
  by (simp add: push_bit_of_1 and_exp_eq_0_iff_not_bit)

lemma and_exp_bit [simp]: "(w :: u8) AND 2 ^ n = 0 \<longleftrightarrow> \<not> bit w n"
  by (rule and_exp_eq_0_iff_not_bit)

lemma bit_at_iff: "i < 160 \<Longrightarrow> bit_at a i \<longleftrightarrow> bit (as_bytes a ! (i div 8)) (7 - i mod 8)"
  by (simp add: bit_at_def)

lemma bit_at_beyond [simp]: "160 \<le> i \<Longrightarrow> \<not> bit_at a i"
  by (simp add: bit_at_def)

lemma bit_at_distance [simp]: "bit_at (distance a b) i \<longleftrightarrow> bit_at a i \<noteq> bit_at b i"
proof (cases "i < 160")
  case True
  then have "i div 8 < 20" by simp
  with True show ?thesis by (simp add: bit_at_iff bit_xor_iff)
qed simp

text \<open>The bits of an identifier, most significant first.\<close>

definition byte_bits :: "u8 \<Rightarrow> bool list" where
  "byte_bits b = map (bit b) (rev [0..<8])"

definition id_bits :: "node_id \<Rightarrow> bool list" where
  "id_bits a = concat (map byte_bits (as_bytes a))"

lemma length_byte_bits [simp]: "length (byte_bits b) = 8"
  by (simp add: byte_bits_def)

lemma nth_byte_bits [simp]: "i < 8 \<Longrightarrow> byte_bits b ! i = bit b (7 - i)"
  by (simp add: byte_bits_def rev_nth)

lemma length_concat_byte_bits [simp]: "length (concat (map byte_bits bs)) = 8 * length bs"
  by (induction bs) auto

lemma nth_concat_byte_bits:
  "i < 8 * length bs \<Longrightarrow> concat (map byte_bits bs) ! i = bit (bs ! (i div 8)) (7 - i mod 8)"
proof (induction bs arbitrary: i)
  case (Cons b bs)
  show ?case
  proof (cases "i < 8")
    case False
    then have "i div 8 = Suc ((i - 8) div 8)" "(i - 8) mod 8 = i mod 8"
      by (simp_all add: le_div_geq le_mod_geq)
    with False Cons show ?thesis by (simp add: nth_append)
  qed (simp add: nth_append)
qed simp

lemma length_id_bits [simp]: "length (id_bits a) = 160"
  by (simp add: id_bits_def)

lemma nth_id_bits [simp]: "i < 160 \<Longrightarrow> id_bits a ! i = bit_at a i"
  by (simp add: id_bits_def nth_concat_byte_bits bit_at_iff)

lemma byte_eq_iff_bits: "(x :: u8) = y \<longleftrightarrow> (\<forall>n<8. bit x n = bit y n)"
  by (auto simp: bit_eq_iff)

lemma id_eq_iff_bits: "a = b \<longleftrightarrow> (\<forall>i<160. bit_at a i = bit_at b i)"
proof
  assume eq: "\<forall>i<160. bit_at a i = bit_at b i"
  have "as_bytes a ! k = as_bytes b ! k" if k: "k < 20" for k
  proof -
    have "bit (as_bytes a ! k) n = bit (as_bytes b ! k) n" if n: "n < 8" for n
    proof -
      have "8 * k + (7 - n) < 160" "(8 * k + (7 - n)) div 8 = k" "7 - (8 * k + (7 - n)) mod 8 = n"
        using k n by (simp_all only: mod_mult_self4 div_mult_self4) simp_all
      with eq show ?thesis by (metis bit_at_iff)
    qed
    then show ?thesis by (simp add: byte_eq_iff_bits)
  qed
  then have "as_bytes a = as_bytes b" by (intro nth_equalityI) auto
  then show "a = b" by (simp add: node_id_eq_iff)
qed simp

section \<open>Leading zeros and the bucket index\<close>

text \<open>
  Both loops look for the first set bit. \<open>first_set\<close> is their common specification: the length
  of the longest prefix of zero bits.
\<close>

definition first_set :: "bool list \<Rightarrow> nat" where
  "first_set bs = length (takeWhile Not bs)"

lemma first_set_Cons [simp]: "first_set (b # bs) = (if b then 0 else Suc (first_set bs))"
  by (simp add: first_set_def)

lemma first_set_Nil [simp]: "first_set [] = 0"
  by (simp add: first_set_def)

lemma first_set_append:
  "first_set (xs @ ys) = (if True \<in> set xs then first_set xs else length xs + first_set ys)"
  by (induction xs) auto

lemma first_set_none: "True \<notin> set bs \<Longrightarrow> first_set bs = length bs"
  by (induction bs) auto

lemma first_set_le: "first_set bs \<le> length bs"
  by (simp add: first_set_def length_takeWhile_le)

lemma first_set_less: "j < first_set bs \<Longrightarrow> \<not> bs ! j"
  using nth_mem [of j "takeWhile Not bs"]
  by (auto simp: first_set_def takeWhile_nth dest: set_takeWhileD)

lemma first_set_nth: "first_set bs < length bs \<Longrightarrow> bs ! first_set bs"
  using nth_length_takeWhile [of Not bs] by (simp add: first_set_def)

lemma first_set_eq_iff:
  "n < length bs \<Longrightarrow> first_set bs = n \<longleftrightarrow> bs ! n \<and> (\<forall>j<n. \<not> bs ! j)"
  by (metis first_set_less first_set_nth first_set_le linorder_neqE_nat order_le_imp_less_or_eq
      le_neq_implies_less)

lemma lz_bits_spec:
  "lz_bits b ns c = (c + first_set (map (bit b) ns), True \<in> set (map (bit b) ns))"
  by (induction ns arbitrary: c) auto

lemma lz_bytes_spec: "lz_bytes bs c = c + first_set (concat (map byte_bits bs))"
proof (induction bs arbitrary: c)
  case (Cons b bs)
  have "lz_bits b (rev [0..<8]) c = (c + first_set (byte_bits b), True \<in> set (byte_bits b))"
    by (simp only: lz_bits_spec byte_bits_def)
  then show ?case
    by (simp only: lz_bytes.simps Cons.IH) (auto simp: first_set_append first_set_none split: bool.splits)
qed simp

lemma leading_zeros_spec: "leading_zeros a = first_set (id_bits a)"
  by (simp add: leading_zeros_def lz_bytes_spec id_bits_def)

lemma bi_bits_spec:
  assumes "js = [m..<8]" "m \<le> 8"
  shows "bi_bits b i js =
    (if True \<in> set (drop m (byte_bits b)) then Some (i * 8 + m + first_set (drop m (byte_bits b)))
     else None)"
  using assms
proof (induction js arbitrary: m)
  case Nil
  then have "m = 8" by (rule upt_NilD)
  then show ?case by simp
next
  case (Cons j js)
  then have m: "m < 8" "j = m" "js = [Suc m..<8]"
    using upt_ConsD [OF Cons.prems(1)] by auto
  have d: "drop m (byte_bits b) = bit b (7 - m) # drop (Suc m) (byte_bits b)"
    using m by (simp add: Cons_nth_drop_Suc [symmetric])
  show ?case using Cons.IH [OF m(3)] m by (simp add: d)
qed

lemma byte_nonzero_iff: "(b :: u8) \<noteq> 0 \<longleftrightarrow> True \<in> set (byte_bits b)"
  by (auto simp: byte_eq_iff_bits byte_bits_def)

lemma bi_bits_byte: "b \<noteq> 0 \<Longrightarrow> bi_bits b i [0..<8] = Some (i * 8 + first_set (byte_bits b))"
  using bi_bits_spec [of "[0..<8]" 0 b i] byte_nonzero_iff [of b] by simp

lemma bi_bytes_spec:
  assumes "is = [m..<length bs]" "m \<le> length bs"
  shows "bi_bytes bs is =
    (if \<forall>x\<in>set (drop m bs). x = 0 then None
     else Some (8 * m + first_set (concat (map byte_bits (drop m bs)))))"
  using assms
proof (induction "is" arbitrary: m)
  case Nil
  then have "m = length bs" by (rule upt_NilD)
  then show ?case by simp
next
  case (Cons i "is")
  then have m: "m < length bs" "i = m" "is = [Suc m..<length bs]"
    using upt_ConsD [OF Cons.prems(1)] by auto
  have d: "drop m bs = bs ! m # drop (Suc m) bs"
    using m(1) by (simp add: Cons_nth_drop_Suc)
  show ?case
  proof (cases "bs ! m = 0")
    case True
    then have "True \<notin> set (byte_bits (bs ! m))"
      by (auto simp: byte_bits_def)
    with True Cons.IH [OF m(3)] m show ?thesis by (simp add: d first_set_append)
  next
    case False
    with m byte_nonzero_iff [of "bs ! m"] show ?thesis
      by (simp add: d first_set_append bi_bits_byte)
  qed
qed

lemma distance_zero_iff: "list_all (\<lambda>x. x = 0) (as_bytes (distance a b)) \<longleftrightarrow> a = b"
proof -
  have "list_all (\<lambda>x. x = 0) (as_bytes (distance a b)) \<longleftrightarrow>
      (\<forall>i<20. as_bytes a ! i XOR as_bytes b ! i = 0)"
    by (simp add: list_all_length)
  also have "\<dots> \<longleftrightarrow> (\<forall>i<20. as_bytes a ! i = as_bytes b ! i)"
    by (auto simp: bit_eq_iff bit_xor_iff)
  also have "\<dots> \<longleftrightarrow> a = b"
    by (auto simp: node_id_eq_iff intro: nth_equalityI)
  finally show ?thesis .
qed

lemma bucket_index_spec:
  "bucket_index a b = (if a = b then None else Some (common_prefix_length a b))"
proof (cases "a = b")
  case True
  then show ?thesis using distance_zero_iff [of a b] by (simp add: bucket_index_def)
next
  case False
  then have "\<not> list_all (\<lambda>x. x = 0) (as_bytes (distance a b))"
    by (simp add: distance_zero_iff)
  with False bi_bytes_spec [of "[0..<20]" 0 "as_bytes (distance a b)"] show ?thesis
    by (simp add: bucket_index_def common_prefix_length_def leading_zeros_spec id_bits_def
        list_all_iff KEY_LENGTH_BYTES_def Let_def)
qed

lemma bucket_index_None_iff: "bucket_index a b = None \<longleftrightarrow> a = b"
  by (simp add: bucket_index_spec)

lemma bucket_index_self [simp]: "bucket_index a a = None"
  by (simp add: bucket_index_None_iff)

lemma bucket_index_Some_iff:
  "bucket_index a b = Some i \<longleftrightarrow>
   i < 160 \<and> bit_at a i \<noteq> bit_at b i \<and> (\<forall>j<i. bit_at a j = bit_at b j)"
proof -
  have less: "first_set (id_bits (distance a b)) < 160" if "a \<noteq> b"
    using that first_set_less [of _ "id_bits (distance a b)"]
    by (metis id_eq_iff_bits bit_at_distance nth_id_bits linorder_not_less order_less_le_trans)
  show ?thesis
  proof (cases "i < 160 \<and> a \<noteq> b")
    case True
    then show ?thesis
      using first_set_eq_iff [of i "id_bits (distance a b)"]
      by (auto simp: bucket_index_spec common_prefix_length_def leading_zeros_spec)
  next
    case False
    then show ?thesis
      using less by (auto simp: bucket_index_spec common_prefix_length_def leading_zeros_spec)
  qed
qed

lemma bucket_index_less: "bucket_index a b = Some i \<Longrightarrow> i < 160"
  by (simp add: bucket_index_Some_iff)

lemma bucket_index_commute: "bucket_index a b = bucket_index b a"
proof (cases "bucket_index a b")
  case None
  then show ?thesis by (simp add: bucket_index_None_iff)
next
  case (Some i)
  then have "bucket_index b a = Some i" by (auto simp: bucket_index_Some_iff)
  with Some show ?thesis by simp
qed

section \<open>Random identifiers of a bucket\<close>

definition raw_bit :: "u8 list \<Rightarrow> nat \<Rightarrow> bool" where
  "raw_bit bs i = bit (bs ! (i div 8)) (7 - i mod 8)"

lemma bit_at_raw: "i < 160 \<Longrightarrow> bit_at a i = raw_bit (as_bytes a) i"
  by (simp add: bit_at_iff raw_bit_def)

lemma bit_pos_eq_iff: "i div 8 = n div 8 \<Longrightarrow> 7 - i mod 8 = 7 - n mod (8::nat) \<longleftrightarrow> i = n"
proof -
  assume d: "i div 8 = n div 8"
  have "7 - i mod 8 = 7 - n mod 8 \<longleftrightarrow> i mod 8 = n mod 8"
    using mod_less_divisor [of 8 i] mod_less_divisor [of 8 n] by arith
  also have "\<dots> \<longleftrightarrow> i = n" using d by (metis mult_div_mod_eq)
  finally show ?thesis .
qed

lemma raw_bit_update:
  assumes "n < 8 * length bs" "i < 8 * length bs"
    and "\<And>k. k < 8 \<Longrightarrow> bit w k = (if k = 7 - n mod 8 then c else bit (bs ! (n div 8)) k)"
  shows "raw_bit (bs[n div 8 := w]) i = (if i = n then c else raw_bit bs i)"
proof (cases "i div 8 = n div 8")
  case True
  moreover have "n div 8 < length bs" using assms(1) by (simp add: div_less_iff_less_mult mult.commute)
  moreover have "7 - i mod 8 < 8" by simp
  ultimately show ?thesis
    using assms(3) [of "7 - i mod 8"] bit_pos_eq_iff [OF True] by (simp add: raw_bit_def)
qed (auto simp: raw_bit_def)

lemma rib_loop_spec:
  assumes "length bs = 20"
  shows "length (rib_loop coin n bs) = 20"
    and "i < 160 \<Longrightarrow> raw_bit (rib_loop coin n bs) i = (if n \<le> i then coin i else raw_bit bs i)"
proof -
  have "length (rib_loop coin n bs) = 20 \<and>
    (\<forall>i<160. raw_bit (rib_loop coin n bs) i = (if n \<le> i then coin i else raw_bit bs i))"
    using assms
  proof (induction coin n bs rule: rib_loop.induct)
    case (1 coin n bs)
    let ?w = "if coin n then bs ! (n div 8) OR push_bit (7 - n mod 8) 1
              else bs ! (n div 8) AND NOT (push_bit (7 - n mod 8) 1)"
    show ?case
    proof (cases "n < 160")
      case True
      have w: "bit ?w k = (if k = 7 - n mod 8 then coin n else bit (bs ! (n div 8)) k)"
        if "k < 8" for k
        using that by (auto simp: bit_simps)
      define bs' where "bs' = bs[n div 8 := ?w]"
      have b: "raw_bit bs' i = (if i = n then coin n else raw_bit bs i)" if "i < 160" for i
        unfolding bs'_def using raw_bit_update [OF _ _ w, of i] True that "1.prems" by simp
      have eq: "rib_loop coin n bs = rib_loop coin (n + 1) bs'"
        using True by (simp add: rib_loop.simps [of coin n bs] Let_def bs'_def)
      have IH: "length (rib_loop coin (n + 1) bs') = 20 \<and>
        (\<forall>i<160. raw_bit (rib_loop coin (n + 1) bs') i = (if n + 1 \<le> i then coin i else raw_bit bs' i))"
        using "1.IH" [OF _ refl refl refl] True "1.prems" by (simp add: bs'_def)
      have "raw_bit (rib_loop coin (n + 1) bs') i = (if n \<le> i then coin i else raw_bit bs i)"
        if "i < 160" for i
        using IH b [OF that] that by (cases "i = n") auto
      with IH show ?thesis by (simp add: eq)
    qed (use "1.prems" in \<open>auto simp: rib_loop.simps [of coin n bs]\<close>)
  qed
  then show "length (rib_loop coin n bs) = 20"
    and "i < 160 \<Longrightarrow> raw_bit (rib_loop coin n bs) i = (if n \<le> i then coin i else raw_bit bs i)"
    by auto
qed

lemma random_in_bucket_bits:
  assumes "random_in_bucket coin base n = Some x" "i < 160"
  shows "bit_at x i = (if i < n then bit_at base i else if i = n then \<not> bit_at base i else coin i)"
proof -
  from assms(1) have n: "n < 160" by (simp add: random_in_bucket_def split: if_splits)
  let ?w = "as_bytes base ! (n div 8) XOR push_bit (7 - n mod 8) 1"
  let ?bs = "(as_bytes base)[n div 8 := ?w]"
  have x: "x = NodeId (rib_loop coin (n + 1) ?bs)"
    using assms(1) n by (simp add: random_in_bucket_def Let_def)
  have len: "length (rib_loop coin (n + 1) ?bs) = 20"
    by (rule rib_loop_spec) simp
  have w: "bit ?w k = (if k = 7 - n mod 8 then \<not> raw_bit (as_bytes base) n else bit (as_bytes base ! (n div 8)) k)"
    if "k < 8" for k
    using that by (auto simp: bit_simps raw_bit_def)
  have "raw_bit ?bs i = (if i = n then \<not> raw_bit (as_bytes base) n else raw_bit (as_bytes base) i)"
    using raw_bit_update [OF _ _ w, of i] n assms(2) by simp
  moreover have "bit_at x i = (if n + 1 \<le> i then coin i else raw_bit ?bs i)"
    using rib_loop_spec(2) [of ?bs i coin "n + 1"] assms(2) len
    by (simp add: bit_at_raw x as_bytes_NodeId)
  ultimately show ?thesis using assms(2) by (auto simp: bit_at_raw)
qed

lemma random_in_bucket_None_iff: "random_in_bucket coin base n = None \<longleftrightarrow> 160 \<le> n"
  by (simp add: random_in_bucket_def Let_def)

lemma random_in_bucket_index:
  assumes "random_in_bucket coin base n = Some x"
  shows "bucket_index base x = Some n"
proof -
  have "n < 160" using assms random_in_bucket_None_iff [of coin base n] by (auto simp: not_le [symmetric])
  then show ?thesis
    using random_in_bucket_bits [OF assms] by (auto simp: bucket_index_Some_iff)
qed

lemma random_in_bucket_complete:
  assumes "bucket_index base x = Some n"
  shows "random_in_bucket (bit_at x) base n = Some x"
proof -
  from assms have n: "n < 160" "bit_at base n \<noteq> bit_at x n" "\<And>j. j < n \<Longrightarrow> bit_at base j = bit_at x j"
    by (auto simp: bucket_index_Some_iff)
  obtain y where y: "random_in_bucket (bit_at x) base n = Some y"
    using n(1) random_in_bucket_None_iff [of "bit_at x" base n] by fastforce
  have "bit_at y i = bit_at x i" if "i < 160" for i
    using random_in_bucket_bits [OF y that] n(2,3) by auto
  then have "y = x" by (simp add: id_eq_iff_bits)
  with y show ?thesis by simp
qed

section \<open>Properties\<close>

text \<open>
  C17: the bucket index of two identifiers is the length of their common prefix, and is undefined
  exactly for equal identifiers: it is the position, counted from the most significant bit, of
  the first bit in which they differ.
\<close>

theorem bucket_index_characterised:
  "bucket_index a b = (if a = b then None else Some (common_prefix_length a b)) \<and>
   (bucket_index a b = Some i \<longleftrightarrow>
      i < KEY_LENGTH_BITS \<and> bit_at a i \<noteq> bit_at b i \<and>
      list_all (\<lambda>j. bit_at a j = bit_at b j) [0..<i])"
  using bucket_index_spec [of a b] bucket_index_Some_iff [of a b i] by (auto simp: list_all_iff)

text \<open>
  C20: the identifiers \<^verbatim>\<open>random_in_bucket\<close> can produce for a base and an index are exactly the
  identifiers whose bucket index relative to the base is that index: whatever the random bits,
  the result is in the bucket, and every member of the bucket is the result for some random bits.
\<close>

theorem random_in_bucket_exact:
  "(\<exists>coin. random_in_bucket coin base n = Some x) \<longleftrightarrow> bucket_index base x = Some n"
  using random_in_bucket_index random_in_bucket_complete by blast

text \<open>
  \<^verbatim>\<open>from_bytes\<close> truncates and pads and does not hash: everything after the first 20 bytes of
  its input is ignored, and trailing zero bytes do not matter, so distinct keys share identifiers.
\<close>

theorem from_bytes_collisions:
  "from_bytes (as_bytes a @ suffix) = a \<and> from_bytes (bs @ replicate n 0) = from_bytes bs"
proof
  show "from_bytes (as_bytes a @ suffix) = a"
    by (simp add: from_bytes_def KEY_LENGTH_BYTES_def as_bytes_inverse)
  show "from_bytes (bs @ replicate n 0) = from_bytes bs"
    unfolding from_bytes_def KEY_LENGTH_BYTES_def
    by (rule arg_cong [where f = NodeId])
      (auto simp: min_def simp flip: replicate_add intro!: arg_cong2 [where f = replicate])
qed

end
