(* ===== verification/Xor_Metric.thy ===== *)
theory Xor_Metric
  imports Node_Id
begin

text \<open>
  The abstract reading of \<^verbatim>\<open>src/src/node_id.rs\<close>: an identifier is a 160-bit number. The
  distance is XOR of the numbers, the derived order is the order of the numbers, the bucket index
  is the binary logarithm of the distance. \<open>node_id\<close> becomes a finite linear order, so the
  library's sorting applies to it.
\<close>

section \<open>Identifiers as numbers\<close>

fun be_val :: "u8 list \<Rightarrow> nat" where
  "be_val [] = 0"
| "be_val (b # bs) = unat b * 2 ^ (8 * length bs) + be_val bs"

definition id_val :: "node_id \<Rightarrow> nat" where
  "id_val a = be_val (as_bytes a)"

lemma be_val_less: "be_val bs < 2 ^ (8 * length bs)"
proof (induction bs)
  case (Cons b bs)
  have "unat b < 256" using unsigned_less [of b] by simp
  then have "unat b * 2 ^ (8 * length bs) + be_val bs < Suc (unat b) * 2 ^ (8 * length bs)"
    using Cons.IH by simp
  also have "\<dots> \<le> 256 * 2 ^ (8 * length bs)"
    using \<open>unat b < 256\<close> by (intro mult_right_mono) auto
  finally show ?case by (simp add: power_add)
qed simp

lemma bit_mult_add:
  assumes "(r :: nat) < 2 ^ m"
  shows "bit (q * 2 ^ m + r) n = (if n < m then bit r n else bit q (n - m))"
proof (cases "n < m")
  case True
  then have "bit (q * 2 ^ m + r) n = bit (take_bit m (q * 2 ^ m + r)) n"
    by (simp add: bit_take_bit_iff)
  also have "take_bit m (q * 2 ^ m + r) = r"
    using assms by (simp add: take_bit_eq_mod)
  finally show ?thesis using True by simp
next
  case False
  then have "bit (q * 2 ^ m + r) n = bit (drop_bit m (q * 2 ^ m + r)) (n - m)"
    by (simp add: bit_drop_bit_eq)
  also have "drop_bit m (q * 2 ^ m + r) = q"
    using assms by (simp add: drop_bit_eq_div)
  finally show ?thesis using False by simp
qed

lemma bit_be_val_Cons:
  "bit (be_val (b # bs)) n = (if n < 8 * length bs then bit (be_val bs) n else bit b (n - 8 * length bs))"
  by (simp add: bit_mult_add be_val_less bit_unsigned_iff)

declare be_val.simps(2) [simp del]

lemma be_val_xor:
  "length xs = length ys \<Longrightarrow> be_val (map2 (XOR) xs ys) = be_val xs XOR be_val ys"
proof (induction xs ys rule: list_induct2)
  case (Cons x xs y ys)
  show ?case
    by (rule bit_eqI) (simp add: bit_be_val_Cons Cons bit_xor_iff)
qed simp

lemma bit_be_val:
  "n < 8 * length bs \<Longrightarrow>
   bit (be_val bs) (8 * length bs - Suc n) = bit (bs ! (n div 8)) (7 - n mod 8)"
proof (induction bs arbitrary: n)
  case (Cons b bs)
  show ?case
  proof (cases "n < 8")
    case True
    then have "8 * length (b # bs) - Suc n = 8 * length bs + (7 - n)" by simp
    moreover have "bit (be_val (b # bs)) (8 * length bs + (7 - n)) = bit b (7 - n)"
      unfolding bit_be_val_Cons by (metis add_diff_cancel_left' not_add_less1)
    ultimately show ?thesis using True by simp
  next
    case False
    then obtain k where k: "n = 8 + k" by (metis le_Suc_ex linorder_not_less)
    have "n div 8 = Suc (k div 8)" "n mod 8 = k mod 8" by (simp_all add: k)
    moreover have "8 * length (b # bs) - Suc n = 8 * length bs - Suc k" by (simp add: k)
    moreover have "k < 8 * length bs" using Cons.prems by (simp add: k)
    moreover from this have "8 * length bs - Suc k < 8 * length bs" by arith
    ultimately show ?thesis
      using Cons.IH [of k] by (simp add: bit_be_val_Cons)
  qed
qed simp

lemma id_val_less: "id_val a < 2 ^ 160"
  using be_val_less [of "as_bytes a"] by (simp add: id_val_def)

lemma id_val_distance: "id_val (distance a b) = id_val a XOR id_val b"
  by (simp add: id_val_def as_bytes_distance be_val_xor)

lemma bit_id_val: "i < 160 \<Longrightarrow> bit (id_val a) (159 - i) = bit_at a i"
  using bit_be_val [of i "as_bytes a"] by (simp add: id_val_def bit_at_iff)

lemma slice_cmp_be_val:
  "length xs = length ys \<Longrightarrow>
   slice_cmp xs ys = (if be_val xs < be_val ys then Less
                      else if be_val ys < be_val xs then Greater else Equal)"
proof (induction xs ys rule: list_induct2)
  case (Cons x xs y ys)
  have lt: "be_val (b # bs) < be_val (c # cs)" if "length bs = length cs" "b < c" for b c :: u8 and bs cs
  proof -
    have "be_val (b # bs) < Suc (unat b) * 2 ^ (8 * length bs)"
      using be_val_less [of bs] by (simp add: be_val.simps)
    also have "\<dots> \<le> unat c * 2 ^ (8 * length bs)"
      using that(2) by (intro mult_right_mono) (auto simp: word_less_nat_alt)
    also have "\<dots> \<le> be_val (c # cs)" using that(1) by (simp add: be_val.simps)
    finally show ?thesis .
  qed
  show ?case
  proof (cases x y rule: linorder_cases)
    case equal
    then show ?thesis using Cons by (simp add: be_val.simps)
  next
    case less
    then show ?thesis using lt [of xs ys x y] Cons.hyps by simp
  next
    case greater
    then show ?thesis using lt [of ys xs y x] Cons.hyps by auto
  qed
qed simp

lemma id_val_eq_iff [simp]: "id_val a = id_val b \<longleftrightarrow> a = b"
proof
  assume "id_val a = id_val b"
  then have "bit_at a i = bit_at b i" if "i < 160" for i
    using that by (metis bit_id_val)
  then show "a = b" by (simp add: id_eq_iff_bits)
qed simp

lemma cmp_spec:
  "cmp a b = (if id_val a < id_val b then Less else if id_val b < id_val a then Greater else Equal)"
  by (simp add: cmp_def id_val_def slice_cmp_be_val)

section \<open>The derived order\<close>

text \<open>\<^verbatim>\<open>impl Ord for NodeId\<close>, as the order of the type.\<close>

instantiation node_id :: linorder
begin

definition less_eq_node_id :: "node_id \<Rightarrow> node_id \<Rightarrow> bool" where
  "a \<le> b \<longleftrightarrow> cmp a b \<noteq> Greater"

definition less_node_id :: "node_id \<Rightarrow> node_id \<Rightarrow> bool" where
  "a < b \<longleftrightarrow> cmp a b = Less"

instance
  by standard (auto simp: less_eq_node_id_def less_node_id_def cmp_spec split: if_splits)

end

lemma le_id_val: "a \<le> b \<longleftrightarrow> id_val a \<le> id_val b"
  by (auto simp: less_eq_node_id_def cmp_spec)

lemma less_id_val: "a < b \<longleftrightarrow> id_val a < id_val b"
  by (auto simp: less_node_id_def cmp_spec)

instance node_id :: finite
proof
  have "inj id_val" by (simp add: inj_def)
  moreover have "range id_val \<subseteq> {..<2 ^ 160}" using id_val_less by blast
  ultimately show "finite (UNIV :: node_id set)"
    by (metis finite_imageD finite_subset finite_lessThan)
qed

section \<open>The metric\<close>

locale xor_metric =
  fixes dist :: "'a \<Rightarrow> 'a \<Rightarrow> 'a"
    and size_of :: "'a \<Rightarrow> nat"
  assumes dist_zero: "size_of (dist x y) = 0 \<longleftrightarrow> x = y"
    and dist_commute: "dist x y = dist y x"
    and dist_triangle: "size_of (dist x z) \<le> size_of (dist x y) + size_of (dist y z)"
    and dist_cancel: "dist x (dist x y) = y"
    and size_of_inj: "size_of x = size_of y \<Longrightarrow> x = y"
begin

lemma dist_left_inj: "dist x y = dist x z \<longleftrightarrow> y = z"
  by (metis dist_cancel)

lemma dist_right_inj: "dist y x = dist z x \<longleftrightarrow> y = z"
  using dist_left_inj by (simp add: dist_commute [of _ x])

text \<open>For every point and every distance there is exactly one other point at that distance.\<close>

lemma unidirectional: "\<exists>!y. dist x y = d"
  by (metis dist_cancel)

lemma closest_unique:
  "size_of (dist x t) \<le> size_of (dist y t) \<Longrightarrow> size_of (dist y t) \<le> size_of (dist x t) \<Longrightarrow> x = y"
  using size_of_inj dist_right_inj by (metis le_antisym)

end

lemma xor_le_add: "(m :: nat) XOR n \<le> m + n"
proof (induction m arbitrary: n rule: less_induct)
  case (less m)
  show ?case
  proof (cases "m = 0")
    case False
    then have "m div 2 XOR n div 2 \<le> m div 2 + n div 2" by (intro less) simp
    then have "m XOR n \<le> of_bool (odd m \<noteq> odd n) + 2 * (m div 2 + n div 2)"
      using xor_rec [of m n] by simp
    also have "\<dots> \<le> m + n" by (cases "odd m"; cases "odd n") auto
    finally show ?thesis .
  qed simp
qed

lemma xor_eq_0_iff: "(m :: nat) XOR n = 0 \<longleftrightarrow> m = n"
  by (auto simp: bit_eq_iff bit_xor_iff)

interpretation idm: xor_metric distance id_val
proof (unfold_locales, goal_cases)
  case (1 x y)
  show ?case by (simp add: id_val_distance xor_eq_0_iff)
next
  case (2 x y)
  show ?case by (rule id_val_eq_iff [THEN iffD1]) (simp add: id_val_distance xor.commute)
next
  case (3 x z y)
  have "id_val x XOR id_val z = (id_val x XOR id_val y) XOR (id_val y XOR id_val z)"
    by (simp add: xor.assoc [symmetric]) (simp add: xor.assoc)
  then show ?case by (simp add: id_val_distance xor_le_add)
next
  case (4 x y)
  show ?case by (simp add: id_val_distance xor.assoc [symmetric] flip: id_val_eq_iff)
next
  case (5 x y)
  then show ?case by simp
qed

section \<open>Bucket ranges\<close>

lemma nat_no_bit_if_less: "(m :: nat) < 2 ^ n \<Longrightarrow> n \<le> k \<Longrightarrow> \<not> bit m k"
  using bit_take_bit_iff [of n m k] by (simp add: take_bit_nat_eq_self)

lemma nat_ge_exp_if_bit: "bit (m :: nat) n \<Longrightarrow> 2 ^ n \<le> m"
  using nat_no_bit_if_less [of m n n] by (meson linorder_not_less order_refl)

lemma nat_less_exp_if_no_bit:
  assumes "\<And>k. n \<le> k \<Longrightarrow> \<not> bit (m :: nat) k"
  shows "m < 2 ^ n"
proof -
  have "bit (take_bit n m) k = bit m k" for k
    using assms [of k] by (cases "n \<le> k") (auto simp: bit_take_bit_iff)
  then have "take_bit n m = m" by (simp add: bit_eq_iff)
  then show ?thesis by (metis take_bit_nat_less_exp)
qed

lemma bit_id_val_beyond: "160 \<le> k \<Longrightarrow> \<not> bit (id_val a) k"
  using id_val_less by (rule nat_no_bit_if_less)

lemma bucket_range:
  assumes "bucket_index a b = Some i"
  shows "2 ^ (159 - i) \<le> id_val (distance a b)" and "id_val (distance a b) < 2 ^ (160 - i)"
proof -
  from assms have i: "i < 160" and d: "bit_at (distance a b) i"
    and eq: "\<And>j. j < i \<Longrightarrow> \<not> bit_at (distance a b) j"
    by (auto simp: bucket_index_Some_iff)
  from i d show "2 ^ (159 - i) \<le> id_val (distance a b)"
    by (intro nat_ge_exp_if_bit) (simp add: bit_id_val)
  have "\<not> bit (id_val (distance a b)) k" if "160 - i \<le> k" for k
  proof (cases "k < 160")
    case True
    then have "159 - (159 - k) = k" "159 - k < i" using that by auto
    then show ?thesis using eq [of "159 - k"] bit_id_val [of "159 - k" "distance a b"] True
      by (metis less_trans i)
  qed (simp add: bit_id_val_beyond)
  then show "id_val (distance a b) < 2 ^ (160 - i)" by (rule nat_less_exp_if_no_bit)
qed

lemma bucket_index_range_iff:
  "bucket_index a b = Some i \<longleftrightarrow>
   i < 160 \<and> 2 ^ (159 - i) \<le> id_val (distance a b) \<and> id_val (distance a b) < 2 ^ (160 - i)"
proof
  assume "bucket_index a b = Some i"
  then show "i < 160 \<and> 2 ^ (159 - i) \<le> id_val (distance a b) \<and> id_val (distance a b) < 2 ^ (160 - i)"
    using bucket_range bucket_index_less by blast
next
  assume r: "i < 160 \<and> 2 ^ (159 - i) \<le> id_val (distance a b) \<and> id_val (distance a b) < 2 ^ (160 - i)"
  then have "a \<noteq> b" using idm.dist_zero [of a b] by (metis not_one_le_zero one_le_power one_le_numeral order_trans)
  then obtain j where j: "bucket_index a b = Some j" by (meson bucket_index_None_iff not_None_eq)
  have "(2::nat) ^ (159 - i) < 2 ^ (160 - j)" "(2::nat) ^ (159 - j) < 2 ^ (160 - i)"
    using r bucket_range [OF j] by (meson order_le_less_trans)+
  then have "i = j" using r bucket_index_less [OF j] by simp
  with j show "bucket_index a b = Some i" by simp
qed

section \<open>Properties\<close>

text \<open>
  C18: the distance of two identifiers, read as a 160-bit big-endian number, is the bitwise
  exclusive or of their numbers. It is symmetric, zero exactly for equal identifiers, satisfies
  the triangle inequality, and is unidirectional: for every identifier and every distance there
  is exactly one identifier at that distance.
\<close>

theorem distance_is_xor_metric:
  "id_val (distance a b) = id_val a XOR id_val b \<and> distance a b = distance b a \<and>
   (id_val (distance a b) = 0 \<longleftrightarrow> a = b) \<and>
   id_val (distance a c) \<le> id_val (distance a b) + id_val (distance b c) \<and>
   (\<exists>!x. distance a x = d)"
  by (intro conjI id_val_distance idm.dist_commute idm.dist_zero idm.dist_triangle idm.unidirectional)

text \<open>
  C19: comparing two identifiers byte by byte is comparing the numbers they stand for, and the
  bucket index of two identifiers is the binary order of magnitude of their distance.
\<close>

theorem order_is_numeric:
  "cmp a b = (if id_val a < id_val b then Less else if id_val b < id_val a then Greater else Equal) \<and>
   (bucket_index a b = Some i \<longleftrightarrow>
      i < 160 \<and> 2 ^ (159 - i) \<le> id_val (distance a b) \<and> id_val (distance a b) < 2 ^ (160 - i))"
  using cmp_spec bucket_index_range_iff by blast

end
