(* ===== verification/Net_Addr.thy ===== *)
theory Net_Addr
  imports Xor_Metric
begin

text \<open>
  Socket addresses of the standard library, their textual form, and the identifier a node derives
  from its address (\<^verbatim>\<open>NodeId::from_socket_addr\<close>). The SHA-256 digest comes from the \<^verbatim>\<open>sha2\<close>
  crate and is a parameter; all that is used of it is that a digest has 32 bytes.
\<close>

datatype ip_addr = IpV4 "32 word" | IpV6 "128 word"

datatype socket_addr =
    SocketAddrV4 "32 word" u16
  | SocketAddrV6 "128 word" u16 u32 u32  \<comment> \<open>address, port, flow information, scope\<close>

fun ip_of :: "socket_addr \<Rightarrow> ip_addr" where
  "ip_of (SocketAddrV4 a _) = IpV4 a"
| "ip_of (SocketAddrV6 a _ _ _) = IpV6 a"

fun port_of :: "socket_addr \<Rightarrow> u16" where
  "port_of (SocketAddrV4 _ p) = p"
| "port_of (SocketAddrV6 _ p _ _) = p"

section \<open>Display\<close>

definition digit_char :: "nat \<Rightarrow> char" where
  "digit_char d = char_of (if d < 10 then 48 + d else 87 + d)"

function show_base :: "nat \<Rightarrow> nat \<Rightarrow> string" where
  "show_base b n =
     (if b < 2 \<or> n < b then [digit_char n] else show_base b (n div b) @ [digit_char (n mod b)])"
  by pat_completeness auto
termination
  by (relation "measure snd") auto

declare show_base.simps [simp del]

fun join_with :: "string \<Rightarrow> string list \<Rightarrow> string" where
  "join_with sep [] = []"
| "join_with sep [x] = x"
| "join_with sep (x # y # ys) = x @ sep @ join_with sep (y # ys)"

definition ipv4_str :: "32 word \<Rightarrow> string" where
  "ipv4_str a = join_with ''.''
     (map (\<lambda>i. show_base 10 (unat (take_bit 8 (drop_bit (8 * i) a)))) [3, 2, 1, 0])"

definition ipv6_segments :: "128 word \<Rightarrow> nat list" where
  "ipv6_segments a = map (\<lambda>i. unat (take_bit 16 (drop_bit (16 * i) a))) [7, 6, 5, 4, 3, 2, 1, 0]"

text \<open>The first longest run of zero segments, as its start and its length.\<close>

fun longest_zeros :: "nat \<Rightarrow> nat \<times> nat \<Rightarrow> nat \<times> nat \<Rightarrow> nat list \<Rightarrow> nat \<times> nat" where
  "longest_zeros i cur best [] = best"
| "longest_zeros i cur best (s # ss) =
     (if s = 0 then
        let cur' = (if snd cur = 0 then i else fst cur, snd cur + 1)
        in longest_zeros (i + 1) cur' (if snd best < snd cur' then cur' else best) ss
      else longest_zeros (i + 1) (0, 0) best ss)"

definition ipv6_str :: "128 word \<Rightarrow> string" where
  "ipv6_str a =
     (let segs = ipv6_segments a;
          fmt = (\<lambda>ss. join_with '':'' (map (show_base 16) ss));
          (start, len) = longest_zeros 0 (0, 0) (0, 0) segs
      in if take 6 segs = [0, 0, 0, 0, 0, 65535] then ''::ffff:'' @ ipv4_str (ucast a)
         else if 1 < len then fmt (take start segs) @ ''::'' @ fmt (drop (start + len) segs)
         else fmt segs)"

fun addr_to_string :: "socket_addr \<Rightarrow> string" where
  "addr_to_string (SocketAddrV4 a p) = ipv4_str a @ '':'' @ show_base 10 (unat p)"
| "addr_to_string (SocketAddrV6 a p flow scope) =
     (if scope = 0 then ''['' @ ipv6_str a @ '']:'' @ show_base 10 (unat p)
      else ''['' @ ipv6_str a @ ''%'' @ show_base 10 (unat scope) @ '']:'' @ show_base 10 (unat p))"

section \<open>Identifiers from addresses\<close>

definition str_bytes :: "string \<Rightarrow> u8 list" where
  "str_bytes s = map (\<lambda>c. of_nat (of_char c)) s"

definition from_socket_addr :: "(u8 list \<Rightarrow> u8 list) \<Rightarrow> socket_addr \<Rightarrow> node_id" where
  "from_socket_addr sha256 addr =
     from_bytes (take KEY_LENGTH_BYTES (sha256 (str_bytes (addr_to_string addr))))"

lemma as_bytes_from_socket_addr:
  assumes "\<And>m. length (sha256 m) = 32"
  shows "as_bytes (from_socket_addr sha256 addr) = take 20 (sha256 (str_bytes (addr_to_string addr)))"
  by (simp add: from_socket_addr_def KEY_LENGTH_BYTES_def assms)

end
