(* ===== verification/F64.thy ===== *)
theory F64
  imports Complex_Main "HOL-Library.Log_Nat" Kad_Prelude
begin

text \<open>
  The double-precision arithmetic of the language, as far as \<^verbatim>\<open>src/src/node.rs\<close> uses it: every
  operation rounds its exact result to 53 significant bits, ties to even. The values that occur
  are zero or lie between \<open>2 ^ - 33\<close> and \<open>2 ^ 66\<close>, far inside the normal range, so
  infinities, subnormals and not-a-number do not arise. Integers convert by rounding, and a
  conversion back to \<^verbatim>\<open>u64\<close> truncates and saturates.
\<close>

type_synonym f64 = rat

definition f64_exp :: "rat \<Rightarrow> int" where
  "f64_exp x =
     (if 1 \<le> x then int (floorlog 2 (nat \<lfloor>x\<rfloor>)) - 1
      else - int (floorlog 2 (nat (\<lceil>1 / x\<rceil> - 1))))"

definition round_half_even :: "rat \<Rightarrow> int" where
  "round_half_even x =
     (let f = \<lfloor>x\<rfloor>; d = x - of_int f
      in if d < 1 / 2 then f else if 1 / 2 < d then f + 1 else if even f then f else f + 1)"

definition f64_round :: "rat \<Rightarrow> f64" where
  "f64_round x =
     (if x = 0 then 0
      else let u = 2 powi (f64_exp x - 52) in of_int (round_half_even (x / u)) * u)"

definition f64_add :: "f64 \<Rightarrow> f64 \<Rightarrow> f64" where
  "f64_add x y = f64_round (x + y)"

definition f64_sub :: "f64 \<Rightarrow> f64 \<Rightarrow> f64" where
  "f64_sub x y = f64_round (x - y)"

definition f64_mul :: "f64 \<Rightarrow> f64 \<Rightarrow> f64" where
  "f64_mul x y = f64_round (x * y)"

definition f64_div :: "f64 \<Rightarrow> f64 \<Rightarrow> f64" where
  "f64_div x y = f64_round (x / y)"

definition u32_as_f64 :: "u32 \<Rightarrow> f64" where
  "u32_as_f64 w = f64_round (of_nat (unat w))"

definition u64_as_f64 :: "u64 \<Rightarrow> f64" where
  "u64_as_f64 w = f64_round (of_nat (unat w))"

definition f64_as_u64 :: "f64 \<Rightarrow> u64" where
  "f64_as_u64 x = (if x < 0 then 0 else if 2 ^ 64 \<le> x then - 1 else of_int \<lfloor>x\<rfloor>)"

section \<open>Rounding error\<close>

lemma round_half_even_cases:
  "round_half_even x = \<lfloor>x\<rfloor> \<and> x - of_int \<lfloor>x\<rfloor> \<le> 1 / 2 \<or>
   round_half_even x = \<lfloor>x\<rfloor> + 1 \<and> 1 / 2 \<le> x - of_int \<lfloor>x\<rfloor>"
  unfolding round_half_even_def Let_def by (simp only: not_less split: if_split) auto

lemma round_half_even_error: "\<bar>of_int (round_half_even x) - x\<bar> \<le> 1 / 2"
proof -
  have *: "of_int \<lfloor>x\<rfloor> \<le> x" "x < of_int \<lfloor>x\<rfloor> + 1" by linarith+
  from round_half_even_cases [of x] show ?thesis
  proof
    assume "round_half_even x = \<lfloor>x\<rfloor> \<and> x - of_int \<lfloor>x\<rfloor> \<le> 1 / 2"
    with * show ?thesis by linarith
  next
    assume "round_half_even x = \<lfloor>x\<rfloor> + 1 \<and> 1 / 2 \<le> x - of_int \<lfloor>x\<rfloor>"
    then have "(of_int (round_half_even x) :: rat) = of_int \<lfloor>x\<rfloor> + 1" "1 / 2 \<le> x - of_int \<lfloor>x\<rfloor>"
      by simp_all
    with * show ?thesis by linarith
  qed
qed

lemma round_half_even_of_int [simp]: "round_half_even (of_int i) = i"
  by (simp add: round_half_even_def)

lemma round_half_even_ge: "of_int i \<le> x \<Longrightarrow> i \<le> round_half_even x"
proof -
  assume "of_int i \<le> x"
  then have "i \<le> \<lfloor>x\<rfloor>" by (simp add: le_floor_iff)
  then show ?thesis by (simp add: round_half_even_def Let_def)
qed

lemma f64_exp_le: "0 < x \<Longrightarrow> 2 powi f64_exp x \<le> x"
proof -
  assume x: "0 < x"
  show ?thesis
  proof (cases "1 \<le> x")
    case True
    let ?n = "nat \<lfloor>x\<rfloor>"
    have n: "0 < ?n" using True by simp
    then have "0 < floorlog 2 ?n" by (simp add: floorlog_def)
    then have "2 powi f64_exp x = (of_nat (2 ^ (floorlog 2 ?n - 1)) :: rat)"
      using True by (simp add: f64_exp_def power_int_def nat_diff_distrib)
    also have "\<dots> \<le> of_nat ?n"
    proof -
      have "2 ^ (floorlog 2 ?n - 1) \<le> ?n" using floorlog_bounds [OF n, of 2] by simp
      then show ?thesis by (simp only: of_nat_le_iff)
    qed
    also have "\<dots> \<le> x" using True by linarith
    finally show ?thesis .
  next
    case False
    define z where "z = \<lceil>1 / x\<rceil>"
    let ?m = "nat (z - 1)"
    have "1 < 1 / x" using False x by (simp add: field_simps)
    then have c: "1 < z" by (simp add: z_def less_ceiling_iff)
    then have m: "0 < ?m" by simp
    have "1 / x \<le> of_int z" unfolding z_def by (rule le_of_int_ceiling)
    also have "\<dots> = of_nat ?m + 1" using c by simp
    also have "of_nat ?m + 1 \<le> (of_nat (2 ^ floorlog 2 ?m) :: rat)"
    proof -
      have "?m < 2 ^ floorlog 2 ?m" using floorlog_bounds [OF m, of 2] by (simp only: one_less_numeral_iff semiring_norm)
      then have "Suc ?m \<le> 2 ^ floorlog 2 ?m" by (rule Suc_leI)
      then have "(of_nat (Suc ?m) :: rat) \<le> of_nat (2 ^ floorlog 2 ?m)" by (simp only: of_nat_le_iff)
      then show ?thesis by simp
    qed
    finally have "1 / x \<le> 2 ^ floorlog 2 ?m" by simp
    then show ?thesis
      using False x by (simp add: f64_exp_def power_int_minus divide_simps mult.commute flip: z_def)
  qed
qed

lemma f64_round_unit_pos [simp]: "0 < (2 :: rat) powi n"
  by simp

lemma f64_round_error:
  assumes "0 \<le> x"
  shows "\<bar>f64_round x - x\<bar> \<le> x / 2 ^ 53"
proof (cases "x = 0")
  case False
  let ?u = "(2 :: rat) powi (f64_exp x - 52)"
  have u: "?u / 2 = 2 powi f64_exp x / 2 ^ 53"
    by (simp add: power_int_diff)
  have "f64_round x - x = (of_int (round_half_even (x / ?u)) - x / ?u) * ?u"
    using False by (simp add: f64_round_def Let_def algebra_simps)
  then have "\<bar>f64_round x - x\<bar> = \<bar>of_int (round_half_even (x / ?u)) - x / ?u\<bar> * ?u"
    by (simp add: abs_mult)
  also have "\<dots> \<le> 1 / 2 * ?u"
    by (intro mult_right_mono round_half_even_error) simp
  also have "\<dots> \<le> x / 2 ^ 53"
    using f64_exp_le [of x] assms False u by (simp add: divide_right_mono)
  finally show ?thesis .
qed (simp add: f64_round_def)

lemma f64_round_upper: "0 \<le> x \<Longrightarrow> f64_round x \<le> x * (1 + 1 / 2 ^ 53)"
proof -
  assume "0 \<le> x"
  then have "f64_round x - x \<le> x / 2 ^ 53" by (rule order_trans [OF abs_ge_self f64_round_error])
  then show ?thesis by (simp add: field_simps)
qed

lemma f64_round_lower: "0 \<le> x \<Longrightarrow> x * (1 - 1 / 2 ^ 53) \<le> f64_round x"
proof -
  assume "0 \<le> x"
  then have "- (f64_round x - x) \<le> x / 2 ^ 53"
    by (rule order_trans [OF abs_ge_minus_self f64_round_error])
  then show ?thesis by (simp add: field_simps)
qed

lemma f64_round_nonneg: "0 \<le> x \<Longrightarrow> 0 \<le> f64_round x"
proof -
  assume x: "0 \<le> x"
  then have "0 \<le> x * (1 - 1 / 2 ^ 53)" by simp
  also have "\<dots> \<le> f64_round x" using x by (rule f64_round_lower)
  finally show ?thesis .
qed

lemma f64_round_ge_exp: "0 < x \<Longrightarrow> 2 powi f64_exp x \<le> f64_round x"
proof -
  assume x: "0 < x"
  let ?u = "(2 :: rat) powi (f64_exp x - 52)"
  have u: "2 powi f64_exp x = of_int (2 ^ 52) * ?u"
    by (simp add: power_int_diff)
  have "of_int (2 ^ 52) \<le> x / ?u"
    using f64_exp_le [OF x] unfolding u by (simp add: pos_le_divide_eq)
  then have "2 ^ 52 \<le> round_half_even (x / ?u)" by (rule round_half_even_ge)
  then have "(of_int (2 ^ 52) :: rat) \<le> of_int (round_half_even (x / ?u))"
    by (simp only: of_int_le_iff)
  then have "of_int (2 ^ 52) * ?u \<le> of_int (round_half_even (x / ?u)) * ?u"
    by (rule mult_right_mono) simp
  then show ?thesis using x u by (simp add: f64_round_def Let_def)
qed

text \<open>Integers below \<open>2 ^ 53\<close> are exact.\<close>

lemma f64_round_of_nat:
  assumes "n < 2 ^ 53"
  shows "f64_round (of_nat n) = of_nat n"
proof (cases "n = 0")
  case False
  have e: "f64_exp (of_nat n) = int (floorlog 2 n) - 1"
    using False by (simp add: f64_exp_def)
  have "2 ^ (floorlog 2 n - 1) \<le> n" using floorlog_bounds [of n 2] False by simp
  then have "(2::nat) ^ (floorlog 2 n - 1) < 2 ^ 53" using assms by (rule order_le_less_trans)
  then have "floorlog 2 n - 1 < 53" by (simp only: power_strict_increasing_iff one_less_numeral_iff semiring_norm)
  then have "floorlog 2 n \<le> 53" by simp
  then have "f64_exp (of_nat n) - 52 = - int (53 - floorlog 2 n)" unfolding e by simp
  then obtain k where k: "f64_exp (of_nat n) - 52 = - int k" by blast
  have "of_nat n / (2 :: rat) powi (- int k) = of_int (int n * 2 ^ k)"
    by (simp add: power_int_minus divide_inverse)
  then have "round_half_even (of_nat n / 2 powi (- int k)) = int n * 2 ^ k"
    by (simp only: round_half_even_of_int)
  then show ?thesis
    using False by (simp add: f64_round_def k power_int_minus)
qed (simp add: f64_round_def)

lemma u32_as_f64_exact: "u32_as_f64 w = of_nat (unat w)"
proof -
  have "unat w < 2 ^ 53" using unsigned_less [of w, where ?'a = nat] by simp
  then show ?thesis unfolding u32_as_f64_def by (rule f64_round_of_nat)
qed

text \<open>A quotient of 32-bit numbers stays on its side of one half when it is rounded.\<close>

lemma half_le_f64_div:
  assumes "0 < t" "t < 2 ^ 32"
  shows "1 / 2 \<le> f64_div (of_nat s) (of_nat t) \<longleftrightarrow> t \<le> 2 * s"
proof
  assume "t \<le> 2 * s"
  define x :: rat where "x = of_nat s / of_nat t"
  have "(of_nat t :: rat) \<le> of_nat (2 * s)" using \<open>t \<le> 2 * s\<close> by (simp only: of_nat_le_iff)
  then have x: "1 / 2 \<le> x" using assms(1) by (simp add: x_def field_simps)
  have "(-1 :: int) \<le> f64_exp x"
  proof (cases "1 \<le> x")
    case False
    have "1 / x \<le> 2" using x by (simp add: field_simps)
    then have "\<lceil>1 / x\<rceil> \<le> 2" by (simp add: ceiling_le_iff)
    then have "nat (\<lceil>1 / x\<rceil> - 1) \<le> 1" by linarith
    then have "floorlog 2 (nat (\<lceil>1 / x\<rceil> - 1)) \<le> floorlog 2 1" by (rule floorlog_mono)
    also have "floorlog 2 1 = 1" by (simp add: floorlog_def)
    finally show ?thesis using False by (simp add: f64_exp_def)
  qed (simp add: f64_exp_def)
  then have "(2 :: rat) powi (-1) \<le> 2 powi f64_exp x" by (intro power_int_increasing) simp_all
  also have "\<dots> \<le> f64_round x" using x by (intro f64_round_ge_exp) simp
  finally show "1 / 2 \<le> f64_div (of_nat s) (of_nat t)"
    by (simp add: f64_div_def x_def power_int_minus inverse_eq_divide)
next
  assume h: "1 / 2 \<le> f64_div (of_nat s) (of_nat t)"
  show "t \<le> 2 * s"
  proof (rule ccontr)
    assume "\<not> t \<le> 2 * s"
    then have "2 * s + 1 \<le> t" by simp
    then have "(of_nat (2 * s + 1) :: rat) \<le> of_nat t" by (simp only: of_nat_le_iff)
    then have s: "(of_nat s :: rat) \<le> (of_nat t - 1) / 2" by simp
    have t: "(of_nat t :: rat) < 2 ^ 32" "0 < (of_nat t :: rat)"
      using assms by (metis of_nat_less_iff of_nat_numeral of_nat_power, simp)
    have "f64_div (of_nat s) (of_nat t) \<le> of_nat s / of_nat t * (1 + 1 / 2 ^ 53)"
      unfolding f64_div_def by (rule f64_round_upper) simp
    also have "\<dots> \<le> ((of_nat t - 1) / 2) / of_nat t * (1 + 1 / 2 ^ 53)"
      using s t by (intro mult_right_mono divide_right_mono) simp_all
    also have "\<dots> < 1 / 2" using t by (simp add: field_simps)
    finally show False using h by simp
  qed
qed

end
