(* ===== verification/Contact.thy ===== *)
theory Contact
  imports Net_Addr F64
begin

text \<open>
  \<^verbatim>\<open>src/src/node.rs\<close>: a contact of the network, the time it was last seen and its response
  statistics. Clock readings are arguments; unsigned arithmetic wraps, as it does in an optimised
  build (a debug build panics where \<open>success_rate\<close> or \<open>adaptive_timeout\<close> would wrap).
\<close>

section \<open>Data\<close>

datatype last_seen = Never | At u64

record response_stats =
  successes :: u32
  failures :: u32
  avg_response_time_ms :: "u64 option"

definition default_stats :: response_stats where
  "default_stats = \<lparr>successes = 0, failures = 0, avg_response_time_ms = None\<rparr>"

record node =
  nid :: node_id
  addr :: socket_addr
  seen :: last_seen
  stats :: response_stats

section \<open>Response statistics\<close>

definition success_rate :: "response_stats \<Rightarrow> f64" where
  "success_rate st =
     (let total = successes st + failures st
      in if total = 0 then 1 else f64_div (u32_as_f64 (successes st)) (u32_as_f64 total))"

definition is_reliable :: "response_stats \<Rightarrow> f64 \<Rightarrow> bool" where
  "is_reliable st threshold \<longleftrightarrow> threshold \<le> success_rate st"

definition saturating_add_u32 :: "u32 \<Rightarrow> u32 \<Rightarrow> u32" where
  "saturating_add_u32 a b = (if unat a + unat b < 2 ^ 32 then a + b else - 1)"

definition record_success :: "response_stats \<Rightarrow> response_stats" where
  "record_success st = st\<lparr>successes := saturating_add_u32 (successes st) 1\<rparr>"

definition record_failure :: "response_stats \<Rightarrow> response_stats" where
  "record_failure st = st\<lparr>failures := saturating_add_u32 (failures st) 1\<rparr>"

definition EMA_ALPHA :: f64 where
  "EMA_ALPHA = f64_round (1 / 5)"

definition record_response_time :: "u64 \<Rightarrow> response_stats \<Rightarrow> response_stats" where
  "record_response_time response_time_ms st =
     (case avg_response_time_ms st of
        None \<Rightarrow> st\<lparr>avg_response_time_ms := Some response_time_ms\<rparr>
      | Some avg \<Rightarrow>
          let new_avg = f64_add (f64_mul EMA_ALPHA (u64_as_f64 response_time_ms))
                                (f64_mul (f64_sub 1 EMA_ALPHA) (u64_as_f64 avg))
          in st\<lparr>avg_response_time_ms := Some (f64_as_u64 new_avg)\<rparr>)"

definition adaptive_timeout :: "response_stats \<Rightarrow> f64 \<Rightarrow> duration \<Rightarrow> duration" where
  "adaptive_timeout st multiplier base_timeout =
     (case avg_response_time_ms st of
        None \<Rightarrow> base_timeout
      | Some avg_ms \<Rightarrow>
          let adaptive_ms = f64_as_u64 (f64_mul (u64_as_f64 avg_ms) multiplier);
              total_ms = adaptive_ms + of_nat (as_millis base_timeout)
          in from_millis (unat (min total_ms 30000)))"

section \<open>Nodes\<close>

definition new_node :: "node_id \<Rightarrow> socket_addr \<Rightarrow> node" where
  "new_node i a = \<lparr>nid = i, addr = a, seen = Never, stats = default_stats\<rparr>"

definition with_addr :: "(u8 list \<Rightarrow> u8 list) \<Rightarrow> socket_addr \<Rightarrow> node" where
  "with_addr sha256 a = new_node (from_socket_addr sha256 a) a"

definition update_last_seen :: "system_time \<Rightarrow> node \<Rightarrow> node" where
  "update_last_seen now n = n\<lparr>seen := At (unix_secs now)\<rparr>"

definition is_active :: "system_time \<Rightarrow> node \<Rightarrow> duration \<Rightarrow> bool" where
  "is_active now n timeout =
     (case seen n of
        Never \<Rightarrow> False
      | At last_seen_time \<Rightarrow>
          if unix_secs now < last_seen_time then True
          else from_secs (unat (unix_secs now - last_seen_time)) \<le> timeout)"

text \<open>\<^verbatim>\<open>impl PartialEq for Node\<close>: nodes are compared by identifier only.\<close>

definition node_eq :: "node \<Rightarrow> node \<Rightarrow> bool" where
  "node_eq a b \<longleftrightarrow> nid a = nid b"

section \<open>Basic facts\<close>

lemma update_last_seen_simps [simp]:
  "nid (update_last_seen now n) = nid n"
  "addr (update_last_seen now n) = addr n"
  "stats (update_last_seen now n) = stats n"
  "seen (update_last_seen now n) = At (unix_secs now)"
  by (simp_all add: update_last_seen_def)

lemma new_node_simps [simp]:
  "nid (new_node i a) = i" "addr (new_node i a) = a" "seen (new_node i a) = Never"
  "stats (new_node i a) = default_stats"
  by (simp_all add: new_node_def)

lemma active_after_update: "is_active now (update_last_seen now n) timeout"
  by (simp add: is_active_def from_secs_def)

lemma new_node_inactive: "\<not> is_active now (new_node i a) timeout"
  by (simp add: is_active_def)

lemma is_active_At:
  assumes "seen n = At s"
  shows "is_active now n timeout \<longleftrightarrow> unix_secs now < s \<or> from_secs (unat (unix_secs now) - unat s) \<le> timeout"
  using assms by (auto simp: is_active_def unat_sub word_le_nat_alt word_less_nat_alt not_less)

section \<open>Sample contacts\<close>

text \<open>Three identifiers and two contacts for concrete instances: the identifiers of \<open>node_a\<close>
  and \<open>node_b\<close> differ from \<open>id_zero\<close> in their first bit.\<close>

definition id_zero :: node_id where
  "id_zero = from_bytes []"

definition node_a :: node where
  "node_a = new_node (from_bytes [0x80]) (SocketAddrV4 0x7F000001 4000)"

definition node_b :: node where
  "node_b = new_node (from_bytes [0xC0]) (SocketAddrV4 0x7F000001 4001)"

lemmas sample_defs = id_zero_def node_a_def node_b_def

lemma sample_bits:
  "bit_at (from_bytes (b # bs)) 0 \<longleftrightarrow> bit b 7" "\<not> bit_at (from_bytes []) 0"
  by (simp_all add: bit_at_def)

lemma sample_index [simp]:
  "bucket_index id_zero (nid node_a) = Some 0" "bucket_index id_zero (nid node_b) = Some 0"
  by (simp_all add: bucket_index_Some_iff sample_defs sample_bits bit_simps)

lemma sample_ids [simp]:
  "nid node_a \<noteq> id_zero" "nid node_b \<noteq> id_zero" "nid node_a \<noteq> nid node_b"
  "id_zero \<noteq> nid node_a" "id_zero \<noteq> nid node_b" "nid node_b \<noteq> nid node_a"
  using sample_index bucket_index_self [of id_zero]
  by (metis option.distinct(1), metis option.distinct(1), simp add: sample_defs,
      metis option.distinct(1), metis option.distinct(1), simp add: sample_defs)

lemma sample_stats [simp]:
  "stats node_a = default_stats" "stats node_b = default_stats"
  "seen node_a = Never" "seen node_b = Never"
  by (simp_all add: sample_defs)

lemma default_stats_reliable [simp]: "is_reliable default_stats threshold \<longleftrightarrow> threshold \<le> 1"
  by (simp add: is_reliable_def success_rate_def default_stats_def)

section \<open>Properties\<close>

lemma reliable_half_iff:
  assumes "unat (successes st) + unat (failures st) < 2 ^ 32"
  shows "is_reliable st (1 / 2) \<longleftrightarrow> failures st \<le> successes st"
proof -
  let ?s = "unat (successes st)" and ?f = "unat (failures st)"
  have t: "unat (successes st + failures st) = ?s + ?f"
    using assms by (simp add: unat_word_ariths take_bit_nat_eq_self)
  show ?thesis
  proof (cases "?s + ?f = 0")
    case True
    then have "successes st = 0" "failures st = 0" by (simp_all add: unat_eq_0)
    then show ?thesis by (simp add: is_reliable_def success_rate_def)
  next
    case False
    then have "successes st + failures st \<noteq> 0" using t by (metis unsigned_0)
    then show ?thesis
      using half_le_f64_div [of "?s + ?f" ?s] False assms t
      by (simp add: is_reliable_def success_rate_def Let_def u32_as_f64_exact word_le_nat_alt)
  qed
qed

text \<open>
  C31: as long as the two counters together fit into 32 bits, a contact is reliable at the
  threshold the buckets use exactly when it has not failed more often than it succeeded; the
  rounding of the floating-point quotient never changes the verdict.
\<close>

theorem reliability_threshold:
  assumes "unat (successes st) + unat (failures st) < 2 ^ 32"
  shows "is_reliable st (1 / 2) \<longleftrightarrow> failures st \<le> successes st"
  using assms by (rule reliable_half_iff)

theorem reliability_threshold_witness:
  "\<not> is_reliable (default_stats\<lparr>successes := 3, failures := 4\<rparr>) (1 / 2)"
  using reliability_threshold [of "default_stats\<lparr>successes := 3, failures := 4\<rparr>"] by simp

text \<open>
  The counters saturate, but their sum does not: a contact with one success and
  \<open>2 ^ 32 - 1\<close> failures has a total of 0 and counts as perfectly reliable.
\<close>

theorem success_rate_overflow:
  "let st = default_stats\<lparr>successes := 1, failures := - 1\<rparr>
   in record_failure st = st \<and> success_rate st = 1 \<and> is_reliable st 1"
  by (simp add: Let_def record_failure_def saturating_add_u32_def default_stats_def success_rate_def
      is_reliable_def unsigned_minus_1_eq_mask mask_eq_exp_minus_1)

lemma f64_as_u64_unat:
  assumes "0 \<le> x" "x < 2 ^ 64"
  shows "unat (f64_as_u64 x) = nat \<lfloor>x\<rfloor>"
proof -
  have "0 \<le> \<lfloor>x\<rfloor>" "\<lfloor>x\<rfloor> < 2 ^ 64" using assms by (simp_all add: floor_less_iff)
  then have "nat \<lfloor>x\<rfloor> < 2 ^ 64" by (simp add: nat_less_iff floor_less_iff)
  then have "unat (of_nat (nat \<lfloor>x\<rfloor>) :: u64) = nat \<lfloor>x\<rfloor>"
    by (simp add: unat_of_nat take_bit_nat_eq_self)
  then show ?thesis using assms \<open>0 \<le> \<lfloor>x\<rfloor>\<close>
    by (simp add: f64_as_u64_def)
qed

lemma f64_mul3_small:
  assumes "unat avg < 2 ^ 51"
  shows "f64_mul (u64_as_f64 avg) 3 = of_nat (3 * unat avg)"
proof -
  have "u64_as_f64 avg = of_nat (unat avg)"
    unfolding u64_as_f64_def using assms by (intro f64_round_of_nat) simp
  moreover have "f64_round (of_nat (3 * unat avg)) = of_nat (3 * unat avg)"
    using assms by (intro f64_round_of_nat) simp
  ultimately show ?thesis by (simp add: f64_mul_def mult.commute)
qed

lemma f64_mul3_large:
  assumes "2 ^ 51 \<le> unat avg" "unat avg < 2 ^ 60"
  shows "30000 \<le> f64_mul (u64_as_f64 avg) 3" "f64_mul (u64_as_f64 avg) 3 < 2 ^ 63"
proof -
  define a :: rat where "a = of_nat (unat avg)"
  have "(of_nat (2 ^ 51) :: rat) \<le> a" unfolding a_def using assms(1) by (simp only: of_nat_le_iff)
  moreover have "a < of_nat (2 ^ 60)" unfolding a_def using assms(2) by (simp only: of_nat_less_iff)
  ultimately have a: "2 ^ 51 \<le> a" "a < 2 ^ 60" by simp_all
  define b where "b = f64_round a"
  have b: "a * (1 - 1 / 2 ^ 53) \<le> b" "b \<le> a * (1 + 1 / 2 ^ 53)"
    unfolding b_def using a by (intro f64_round_lower f64_round_upper; simp)+
  then have b': "2 ^ 50 \<le> b" "b \<le> 2 ^ 61" using a by simp_all
  have eq: "f64_mul (u64_as_f64 avg) 3 = f64_round (b * 3)"
    by (simp add: f64_mul_def u64_as_f64_def b_def a_def)
  have "b * 3 * (1 - 1 / 2 ^ 53) \<le> f64_round (b * 3)" "f64_round (b * 3) \<le> b * 3 * (1 + 1 / 2 ^ 53)"
    using b' by (intro f64_round_lower f64_round_upper; simp)+
  then show "30000 \<le> f64_mul (u64_as_f64 avg) 3" "f64_mul (u64_as_f64 avg) 3 < 2 ^ 63"
    unfolding eq using b' by simp_all
qed

text \<open>
  With the multiplier 3 and the base of 5 seconds that the requests use, the timeout for a contact
  with an average response time below \<open>2 ^ 60\<close> ms is exactly three times the average plus
  5 seconds, capped at 30 seconds.
\<close>

lemma adaptive_timeout_exact:
  assumes "avg_response_time_ms st = Some avg" "unat avg < 2 ^ 60"
  shows "adaptive_timeout st 3 (from_secs 5) = from_millis (min (3 * unat avg + 5000) 30000)"
proof -
  let ?m = "f64_as_u64 (f64_mul (u64_as_f64 avg) 3)"
  have m: "unat ?m = 3 * unat avg \<or> 30000 \<le> unat ?m \<and> unat ?m < 2 ^ 63 \<and> 30000 \<le> 3 * unat avg"
  proof (cases "unat avg < 2 ^ 51")
    case True
    then have "unat ?m = nat \<lfloor>of_nat (3 * unat avg) :: rat\<rfloor>"
      unfolding f64_mul3_small [OF True]
    proof (intro f64_as_u64_unat)
      have "3 * unat avg < 2 ^ 64" using True by simp
      then show "(of_nat (3 * unat avg) :: rat) < 2 ^ 64" by (metis of_nat_less_iff of_nat_numeral of_nat_power)
    qed (rule of_nat_0_le_iff)
    then show ?thesis by (simp only: floor_of_nat nat_int simp_thms)
  next
    case False
    with assms(2) f64_mul3_large [of avg] have r: "30000 \<le> f64_mul (u64_as_f64 avg) 3"
      "f64_mul (u64_as_f64 avg) 3 < 2 ^ 63" by simp_all
    define F where "F = \<lfloor>f64_mul (u64_as_f64 avg) 3\<rfloor>"
    have "unat ?m = nat F" unfolding F_def using r by (intro f64_as_u64_unat) simp_all
    moreover have "30000 \<le> F" "F < 2 ^ 63"
      unfolding F_def using r by (simp_all add: le_floor_iff floor_less_iff)
    ultimately have "30000 \<le> unat ?m" "unat ?m < 2 ^ 63" by (simp_all add: nat_less_iff)
    moreover have "30000 \<le> 3 * unat avg" using False by simp
    ultimately show ?thesis by blast
  qed
  then have "unat ?m + 5000 < 2 ^ 64" using assms(2) by auto
  then have "unat (?m + 5000) = unat ?m + 5000"
    by (simp add: unat_word_ariths take_bit_nat_eq_self)
  then have "unat (min (?m + 5000) 30000) = min (unat ?m + 5000) 30000"
    by (simp add: min_def word_le_nat_alt)
  moreover have "min (unat ?m + 5000) 30000 = min (3 * unat avg + 5000) 30000" using m by linarith
  ultimately show ?thesis using assms(1) by (simp add: adaptive_timeout_def Let_def)
qed

lemma EMA_ALPHA_eq: "EMA_ALPHA = 3602879701896397 / 2 ^ 54"
proof -
  have e: "f64_exp (1 / 5) = - 3"
    by (simp add: f64_exp_def compute_floorlog)
  have "1 / 5 / (2 :: rat) powi (- 55) = 36028797018963968 / 5"
    by (simp add: power_int_minus)
  moreover have "\<lfloor>36028797018963968 / 5 :: rat\<rfloor> = 7205759403792793"
    by (simp add: floor_eq_iff)
  ultimately show ?thesis
    by (simp add: EMA_ALPHA_def f64_round_def e Let_def round_half_even_def power_int_minus)
qed

lemma one_minus_EMA_ALPHA: "f64_sub 1 EMA_ALPHA = 3602879701896397 / 2 ^ 52"
proof -
  let ?x = "14411518807585587 / 18014398509481984 :: rat"
  have x: "1 - EMA_ALPHA = ?x" by (simp add: EMA_ALPHA_eq)
  have "\<lceil>18014398509481984 / 14411518807585587 :: rat\<rceil> = 2"
    by (simp add: ceiling_eq_iff)
  then have e: "f64_exp ?x = - 1"
    by (simp add: f64_exp_def compute_floorlog)
  have "?x / (2 :: rat) powi (- 53) = 14411518807585587 / 2"
    by (simp add: power_int_minus)
  moreover have "\<lfloor>14411518807585587 / 2 :: rat\<rfloor> = 7205759403792793"
    by (simp add: floor_eq_iff)
  ultimately show ?thesis
    by (simp add: f64_sub_def x f64_round_def e Let_def round_half_even_def power_int_minus)
qed

lemma f64_weighted_bounds:
  fixes x y m M :: rat
  assumes "0 \<le> m" "m \<le> x" "m \<le> y" "x \<le> M" "y \<le> M" "M < 2 ^ 50"
  defines "v \<equiv> f64_add (f64_mul EMA_ALPHA x) (f64_mul (f64_sub 1 EMA_ALPHA) y)"
  shows "0 \<le> v" "m - 1 \<le> v" "v < M + 1"
proof -
  let ?a = "3602879701896397 / 2 ^ 54 :: rat" and ?b = "3602879701896397 / 2 ^ 52 :: rat"
  define p where "p = f64_round (?a * x)"
  define q where "q = f64_round (?b * y)"
  have v: "v = f64_round (p + q)"
    unfolding v_def one_minus_EMA_ALPHA
    unfolding f64_add_def f64_mul_def EMA_ALPHA_eq p_def q_def ..
  have xy: "0 \<le> x" "0 \<le> y" using assms by linarith+
  have p: "?a * x * (1 - 1 / 2 ^ 53) \<le> p" "p \<le> ?a * x * (1 + 1 / 2 ^ 53)"
    unfolding p_def using xy by (intro f64_round_lower f64_round_upper; simp)+
  have q: "?b * y * (1 - 1 / 2 ^ 53) \<le> q" "q \<le> ?b * y * (1 + 1 / 2 ^ 53)"
    unfolding q_def using xy by (intro f64_round_lower f64_round_upper; simp)+
  have pq: "m * (1 - 1 / 2 ^ 52) \<le> p + q" "p + q \<le> M * (1 + 1 / 2 ^ 52)" "0 \<le> p + q"
    using p q xy assms(1-6) by simp_all
  have r: "(p + q) * (1 - 1 / 2 ^ 53) \<le> v" "v \<le> (p + q) * (1 + 1 / 2 ^ 53)"
    unfolding v using pq(3) by (intro f64_round_lower f64_round_upper; simp)+
  show "0 \<le> v" unfolding v using pq(3) by (rule f64_round_nonneg)
  have "m < 2 ^ 50" "p + q < 2 ^ 51" using assms(2,4,6) pq by simp_all
  then show "m - 1 \<le> v" "v < M + 1" using r pq assms(1,6) by simp_all
qed

text \<open>
  The moving average of the response times stays between the old average and the new
  observation, up to one millisecond of truncation below, for all times below \<open>2 ^ 50\<close> ms.
\<close>

theorem moving_average_bounds:
  assumes "avg_response_time_ms st = Some avg" "unat avg < 2 ^ 50" "unat rt < 2 ^ 50"
  shows "\<exists>avg'. avg_response_time_ms (record_response_time rt st) = Some avg' \<and>
    min (unat avg) (unat rt) \<le> unat avg' + 1 \<and> unat avg' \<le> max (unat avg) (unat rt)"
proof -
  let ?m = "min (unat avg) (unat rt)" and ?M = "max (unat avg) (unat rt)"
  let ?v = "f64_add (f64_mul EMA_ALPHA (of_nat (unat rt))) (f64_mul (f64_sub 1 EMA_ALPHA) (of_nat (unat avg)))"
  have M: "(of_nat ?M :: rat) < 2 ^ 50"
    using assms(2,3) by (metis max_less_iff_conj of_nat_less_iff of_nat_numeral of_nat_power)
  have v: "0 \<le> ?v" "of_nat ?m - 1 \<le> ?v" "?v < of_nat ?M + 1"
    by (rule f64_weighted_bounds [where m = "of_nat ?m" and M = "of_nat ?M"];
        use M in \<open>simp only: of_nat_0_le_iff of_nat_le_iff min.cobounded1 min.cobounded2 max.cobounded1 max.cobounded2\<close>)+
  define F where "F = \<lfloor>?v\<rfloor>"
  have "of_int (int ?m - 1) \<le> ?v" "?v < of_int (int ?M + 1)"
    using v(2,3) by (simp_all only: of_int_diff of_int_add of_int_of_nat_eq of_int_1)
  then have "int ?m - 1 \<le> F" "F < int ?M + 1"
    unfolding F_def by (simp_all only: le_floor_iff floor_less_iff)
  moreover have "0 \<le> F" unfolding F_def using v(1) by (simp only: zero_le_floor)
  moreover have "?v < 2 ^ 64"
    by (rule less_trans [OF v(3)]) (rule less_trans [OF add_strict_right_mono [OF M]], simp)
  then have "unat (f64_as_u64 ?v) = nat F" unfolding F_def by (rule f64_as_u64_unat [OF v(1)])
  ultimately have b: "?m \<le> unat (f64_as_u64 ?v) + 1" "unat (f64_as_u64 ?v) \<le> ?M" by linarith+
  have "u64_as_f64 rt = of_nat (unat rt)" "u64_as_f64 avg = of_nat (unat avg)"
    unfolding u64_as_f64_def using assms(2,3) by (intro f64_round_of_nat; simp)+
  then have "avg_response_time_ms (record_response_time rt st) = Some (f64_as_u64 ?v)"
    by (simp only: record_response_time_def assms(1) option.case Let_def) simp
  with b show ?thesis by blast
qed

theorem moving_average_bounds_witness:
  "\<exists>avg'. avg_response_time_ms (record_response_time 50
       (default_stats\<lparr>avg_response_time_ms := Some 100\<rparr>)) = Some avg' \<and>
     50 \<le> unat avg' + 1 \<and> unat avg' \<le> 100"
  using moving_average_bounds [of "default_stats\<lparr>avg_response_time_ms := Some 100\<rparr>" 100 50] by simp

end
