(* ===== verification/K_Bucket.thy ===== *)
theory K_Bucket
  imports Contact
begin

text \<open>
  \<^verbatim>\<open>src/src/routing/k_bucket.rs\<close>: a bucket of at most \<^verbatim>\<open>k\<close> contacts in the order they were last
  seen, with a replacement cache. Every path of \<^verbatim>\<open>update\<close> and \<^verbatim>\<open>remove\<close> is modelled, the two
  panics on an empty bucket of capacity 0 included. One call reads the clock once.
\<close>

section \<open>Data\<close>

definition K :: nat where
  "K = 20"

definition NODE_TIMEOUT :: duration where
  "NODE_TIMEOUT = from_secs (60 * 15)"

definition MIN_SUCCESS_RATE :: f64 where
  "MIN_SUCCESS_RATE = 1 / 2"

datatype kbucket_update = KUnchanged | KUpdated | KPendingPing node

record kbucket =
  kb_k :: nat
  kb_local :: node_id
  kb_prefix_len :: nat
  kb_nodes :: "node list"
  kb_cache :: "node list"

section \<open>Operations\<close>

definition kb_new :: "node_id \<Rightarrow> nat \<Rightarrow> nat \<Rightarrow> kbucket" where
  "kb_new local_node_id prefix_len k =
     \<lparr>kb_k = k, kb_local = local_node_id, kb_prefix_len = prefix_len, kb_nodes = [], kb_cache = []\<rparr>"

definition kb_len :: "kbucket \<Rightarrow> nat" where
  "kb_len b = length (kb_nodes b)"

definition kb_is_empty :: "kbucket \<Rightarrow> bool" where
  "kb_is_empty b \<longleftrightarrow> kb_nodes b = []"

definition kb_is_full :: "kbucket \<Rightarrow> bool" where
  "kb_is_full b \<longleftrightarrow> kb_k b \<le> length (kb_nodes b)"

definition kb_contains :: "kbucket \<Rightarrow> node_id \<Rightarrow> bool" where
  "kb_contains b node_id \<longleftrightarrow> list_ex (\<lambda>n. nid n = node_id) (kb_nodes b)"

definition kb_get :: "kbucket \<Rightarrow> node_id \<Rightarrow> node option" where
  "kb_get b node_id = find (\<lambda>n. nid n = node_id) (kb_nodes b)"

definition kb_update :: "system_time \<Rightarrow> node \<Rightarrow> kbucket \<Rightarrow> kbucket \<times> kbucket_update outcome" where
  "kb_update now node b =
     (if nid node = kb_local b then (b, Err (Other ''Cannot add local node to k-bucket''))
      else case position (\<lambda>n. nid n = nid node) (kb_nodes b) of
        Some pos \<Rightarrow>
          let existing = update_last_seen now (kb_nodes b ! pos)
          in (b\<lparr>kb_nodes := remove_at pos (kb_nodes b) @ [existing]\<rparr>, Ok KUpdated)
      | None \<Rightarrow>
          if length (kb_nodes b) < kb_k b then
            (b\<lparr>kb_nodes := kb_nodes b @ [update_last_seen now node]\<rparr>, Ok KUpdated)
          else case position (\<lambda>n. \<not> is_reliable (stats n) MIN_SUCCESS_RATE) (kb_nodes b) of
            Some pos \<Rightarrow>
              (b\<lparr>kb_nodes := remove_at pos (kb_nodes b) @ [update_last_seen now node]\<rparr>, Ok KUpdated)
          | None \<Rightarrow>
              (case kb_nodes b of
                 [] \<Rightarrow> (b, Panic ''bucket not empty'')
               | front_node # rest \<Rightarrow>
                   if \<not> is_active now front_node NODE_TIMEOUT then
                     (b\<lparr>kb_nodes := rest @ [update_last_seen now node]\<rparr>, Ok KUpdated)
                   else
                     let cache = (case position (\<lambda>n. nid n = nid node) (kb_cache b) of
                                    Some pos \<Rightarrow> remove_at pos (kb_cache b)
                                  | None \<Rightarrow> kb_cache b)
                     in (b\<lparr>kb_cache := cache @ [update_last_seen now node]\<rparr>,
                         Ok (KPendingPing front_node))))"

definition kb_remove :: "system_time \<Rightarrow> node_id \<Rightarrow> kbucket \<Rightarrow> kbucket \<times> node option" where
  "kb_remove now node_id b =
     (case position (\<lambda>n. nid n = node_id) (kb_nodes b) of
        None \<Rightarrow> (b, None)
      | Some pos \<Rightarrow>
          let removed_node = kb_nodes b ! pos;
              ns = remove_at pos (kb_nodes b)
          in case kb_cache b of
               [] \<Rightarrow> (b\<lparr>kb_nodes := ns\<rparr>, Some removed_node)
             | replacement # cache \<Rightarrow>
                 (b\<lparr>kb_nodes := ns @ [update_last_seen now replacement], kb_cache := cache\<rparr>,
                  Some removed_node))"

text \<open>\<^verbatim>\<open>sort_by\<close> on the distance is a stable sort, so it is the library's \<open>sort_key\<close>.\<close>

definition sort_by_distance :: "node_id \<Rightarrow> node list \<Rightarrow> node list" where
  "sort_by_distance target ns = sort_key (\<lambda>n. distance (nid n) target) ns"

definition kb_get_closest :: "kbucket \<Rightarrow> node_id \<Rightarrow> nat \<Rightarrow> node list" where
  "kb_get_closest b target cnt = take cnt (sort_by_distance target (kb_nodes b))"

definition kb_should_split :: "kbucket \<Rightarrow> bool outcome" where
  "kb_should_split b =
     (if \<not> kb_is_full b then Ok False
      else case kb_nodes b of
        [] \<Rightarrow> Panic ''Out of bounds access''
      | first # _ \<Rightarrow>
          let bit_at_pos = bit_at (nid first) (kb_prefix_len b)
          in Ok (\<not> list_all (\<lambda>n. bit_at (nid n) (kb_prefix_len b) = bit_at_pos) (kb_nodes b)))"

text \<open>
  The loop of \<^verbatim>\<open>split\<close>: the result of each inner \<^verbatim>\<open>update\<close> is discarded (\<^verbatim>\<open>.ok()\<close>), a panic is
  not.
\<close>

fun kb_split_loop ::
  "system_time \<Rightarrow> nat \<Rightarrow> node list \<Rightarrow> kbucket \<Rightarrow> kbucket \<Rightarrow> (kbucket \<times> kbucket) outcome" where
  "kb_split_loop now p [] bucket0 bucket1 = Ok (bucket0, bucket1)"
| "kb_split_loop now p (n # ns) bucket0 bucket1 =
     (if bit_at (nid n) p then
        (case kb_update now n bucket1 of
           (_, Panic s) \<Rightarrow> Panic s
         | (bucket1', _) \<Rightarrow> kb_split_loop now p ns bucket0 bucket1')
      else
        (case kb_update now n bucket0 of
           (_, Panic s) \<Rightarrow> Panic s
         | (bucket0', _) \<Rightarrow> kb_split_loop now p ns bucket0' bucket1))"

definition kb_split :: "system_time \<Rightarrow> kbucket \<Rightarrow> (kbucket \<times> kbucket) outcome" where
  "kb_split now b =
     (let new_prefix_len = kb_prefix_len b + 1
      in kb_split_loop now (kb_prefix_len b) (kb_nodes b)
           (kb_new (kb_local b) new_prefix_len (kb_k b))
           (kb_new (kb_local b) new_prefix_len (kb_k b)))"

section \<open>Case analysis of the operations\<close>

abbreviation ids :: "node list \<Rightarrow> node_id set" where
  "ids ns \<equiv> nid ` set ns"

abbreviation uncached :: "node_id \<Rightarrow> node list \<Rightarrow> node list" where
  "uncached i ns \<equiv>
     (case position (\<lambda>n. nid n = i) ns of Some pos \<Rightarrow> remove_at pos ns | None \<Rightarrow> ns)"

lemma set_uncached: "set (uncached i ns) \<subseteq> set ns"
  by (simp add: set_remove_at_subset split: option.splits)

text \<open>The seven paths of \<^verbatim>\<open>KBucket::update\<close>.\<close>

lemma kb_update_cases [case_names local existing room unreliable panic inactive pending]:
  obtains (local) "nid node = kb_local b"
      "kb_update now node b = (b, Err (Other ''Cannot add local node to k-bucket''))"
    | (existing) ys x zs where "nid node \<noteq> kb_local b" "kb_nodes b = ys @ x # zs"
      "nid x = nid node" "nid node \<notin> ids ys"
      "kb_update now node b = (b\<lparr>kb_nodes := ys @ zs @ [update_last_seen now x]\<rparr>, Ok KUpdated)"
    | (room) "nid node \<noteq> kb_local b" "nid node \<notin> ids (kb_nodes b)" "length (kb_nodes b) < kb_k b"
      "kb_update now node b = (b\<lparr>kb_nodes := kb_nodes b @ [update_last_seen now node]\<rparr>, Ok KUpdated)"
    | (unreliable) ys x zs where "nid node \<noteq> kb_local b" "nid node \<notin> ids (kb_nodes b)"
      "kb_k b \<le> length (kb_nodes b)" "kb_nodes b = ys @ x # zs"
      "\<not> is_reliable (stats x) MIN_SUCCESS_RATE"
      "\<forall>y\<in>set ys. is_reliable (stats y) MIN_SUCCESS_RATE"
      "kb_update now node b = (b\<lparr>kb_nodes := ys @ zs @ [update_last_seen now node]\<rparr>, Ok KUpdated)"
    | (panic) "nid node \<noteq> kb_local b" "kb_k b = 0" "kb_nodes b = []"
      "kb_update now node b = (b, Panic ''bucket not empty'')"
    | (inactive) x xs where "nid node \<noteq> kb_local b" "nid node \<notin> ids (kb_nodes b)"
      "kb_k b \<le> length (kb_nodes b)" "kb_nodes b = x # xs"
      "\<forall>y\<in>set (kb_nodes b). is_reliable (stats y) MIN_SUCCESS_RATE"
      "\<not> is_active now x NODE_TIMEOUT"
      "kb_update now node b = (b\<lparr>kb_nodes := xs @ [update_last_seen now node]\<rparr>, Ok KUpdated)"
    | (pending) x xs where "nid node \<noteq> kb_local b" "nid node \<notin> ids (kb_nodes b)"
      "kb_k b \<le> length (kb_nodes b)" "kb_nodes b = x # xs"
      "\<forall>y\<in>set (kb_nodes b). is_reliable (stats y) MIN_SUCCESS_RATE"
      "is_active now x NODE_TIMEOUT"
      "kb_update now node b =
         (b\<lparr>kb_cache := uncached (nid node) (kb_cache b) @ [update_last_seen now node]\<rparr>,
          Ok (KPendingPing x))"
proof (cases "nid node = kb_local b")
  case True
  then show thesis by (intro local) (simp_all add: kb_update_def)
next
  case loc: False
  show thesis
  proof (cases "position (\<lambda>n. nid n = nid node) (kb_nodes b)")
    case (Some pos)
    from position_split [OF this] obtain ys x zs where
      *: "kb_nodes b = ys @ x # zs" "nid x = nid node" "\<forall>y\<in>set ys. nid y \<noteq> nid node"
      "kb_nodes b ! pos = x" "remove_at pos (kb_nodes b) = ys @ zs"
      by (metis (lifting))
    from *(3) have "nid node \<notin> ids ys" by auto
    moreover have "kb_update now node b = (b\<lparr>kb_nodes := ys @ zs @ [update_last_seen now x]\<rparr>, Ok KUpdated)"
      using loc Some *(4,5) by (simp add: kb_update_def)
    ultimately show thesis using loc *(1,2) by (intro existing)
  next
    case none: None
    then have fresh: "nid node \<notin> ids (kb_nodes b)" by (auto simp: position_None_iff)
    show thesis
    proof (cases "length (kb_nodes b) < kb_k b")
      case True
      then show thesis using loc none fresh by (intro room) (simp_all add: kb_update_def)
    next
      case False
      show thesis
      proof (cases "position (\<lambda>n. \<not> is_reliable (stats n) MIN_SUCCESS_RATE) (kb_nodes b)")
        case (Some pos)
        from position_split [OF this] obtain ys x zs where
          *: "kb_nodes b = ys @ x # zs" "\<not> is_reliable (stats x) MIN_SUCCESS_RATE"
          "\<forall>y\<in>set ys. \<not> \<not> is_reliable (stats y) MIN_SUCCESS_RATE" "remove_at pos (kb_nodes b) = ys @ zs"
          by (metis (lifting))
        have "kb_update now node b = (b\<lparr>kb_nodes := ys @ zs @ [update_last_seen now node]\<rparr>, Ok KUpdated)"
          using loc none False Some *(4) by (simp add: kb_update_def)
        moreover have "kb_k b \<le> length (kb_nodes b)" using False by simp
        ultimately show thesis using loc fresh * by (intro unreliable) simp_all
      next
        case rel: None
        then have rel': "\<forall>y\<in>set (kb_nodes b). is_reliable (stats y) MIN_SUCCESS_RATE"
          by (simp add: position_None_iff)
        show thesis
        proof (cases "kb_nodes b")
          case Nil
          then show thesis using loc False by (intro panic) (simp_all add: kb_update_def)
        next
          case (Cons x xs)
          show thesis
          proof (cases "is_active now x NODE_TIMEOUT")
            case True
            show thesis by (rule pending [OF loc fresh _ Cons rel' True])
                (use loc none False rel True Cons in \<open>simp_all add: kb_update_def\<close>)
          next
            case inact: False
            show thesis by (rule inactive [OF loc fresh _ Cons rel' inact])
                (use loc none False rel inact Cons in \<open>simp_all add: kb_update_def\<close>)
          qed
        qed
      qed
    qed
  qed
qed

lemma kb_remove_cases [case_names absent removed promoted]:
  obtains (absent) "i \<notin> ids (kb_nodes b)" "kb_remove now i b = (b, None)"
    | (removed) ys x zs where "kb_nodes b = ys @ x # zs" "nid x = i" "i \<notin> ids ys" "kb_cache b = []"
      "kb_remove now i b = (b\<lparr>kb_nodes := ys @ zs\<rparr>, Some x)"
    | (promoted) ys x zs r rs where "kb_nodes b = ys @ x # zs" "nid x = i" "i \<notin> ids ys"
      "kb_cache b = r # rs"
      "kb_remove now i b =
         (b\<lparr>kb_nodes := ys @ zs @ [update_last_seen now r], kb_cache := rs\<rparr>, Some x)"
proof (cases "position (\<lambda>n. nid n = i) (kb_nodes b)")
  case None
  then have "kb_remove now i b = (b, None)" by (simp add: kb_remove_def)
  moreover have "i \<notin> ids (kb_nodes b)" using None by (auto simp: position_None_iff)
  ultimately show thesis by (intro absent)
next
  case (Some pos)
  from position_split [OF this] obtain ys x zs where
    *: "kb_nodes b = ys @ x # zs" "nid x = i" "\<forall>y\<in>set ys. nid y \<noteq> i"
    "kb_nodes b ! pos = x" "remove_at pos (kb_nodes b) = ys @ zs"
    by (metis (lifting))
  show thesis
  proof (cases "kb_cache b")
    case Nil
    with * Some show thesis by (intro removed [of ys x zs]) (auto simp: kb_remove_def)
  next
    case (Cons r rs)
    with * Some show thesis by (intro promoted [of ys x zs r rs]) (auto simp: kb_remove_def)
  qed
qed

section \<open>Frame and shape\<close>

lemma kb_update_frame [simp]:
  "kb_k (fst (kb_update now n b)) = kb_k b"
  "kb_local (fst (kb_update now n b)) = kb_local b"
  "kb_prefix_len (fst (kb_update now n b)) = kb_prefix_len b"
  by (rule kb_update_cases [where node = n and b = b and now = now]; simp)+

lemma kb_remove_frame [simp]:
  "kb_k (fst (kb_remove now i b)) = kb_k b"
  "kb_local (fst (kb_remove now i b)) = kb_local b"
  "kb_prefix_len (fst (kb_remove now i b)) = kb_prefix_len b"
  by (rule kb_remove_cases [where i = i and b = b and now = now]; simp)+

lemma kb_new_simps [simp]:
  "kb_k (kb_new l p k) = k" "kb_local (kb_new l p k) = l" "kb_prefix_len (kb_new l p k) = p"
  "kb_nodes (kb_new l p k) = []" "kb_cache (kb_new l p k) = []"
  by (simp_all add: kb_new_def)

lemma kb_contains_iff: "kb_contains b i \<longleftrightarrow> i \<in> ids (kb_nodes b)"
  by (auto simp: kb_contains_def list_ex_iff)

lemma kb_get_first:
  assumes "kb_nodes b = ys @ x # zs" "nid x = i" "i \<notin> ids ys"
  shows "kb_get b i = Some x"
proof -
  have "find (\<lambda>n. nid n = i) (ys @ x # zs) = Some x" using assms(2,3) by (induction ys) auto
  with assms(1) show ?thesis by (simp add: kb_get_def)
qed

text \<open>
  A removal returns the contact a lookup finds, and leaves its identifier in the bucket exactly when
  the promoted front of the cache has the same one.
\<close>

lemma kb_remove_exact:
  assumes "distinct (map nid (kb_nodes b))"
  shows "snd (kb_remove now j b) = kb_get b j \<and>
    (kb_contains (fst (kb_remove now j b)) j \<longleftrightarrow>
       kb_contains b j \<and> kb_cache b \<noteq> [] \<and> nid (hd (kb_cache b)) = j)"
proof (rule kb_remove_cases [where i = j and b = b and now = now], goal_cases)
  case 1
  then have "kb_get b j = None" by (auto simp: kb_get_def find_None_iff)
  with 1 show ?case by (simp add: kb_contains_iff)
next
  case (2 ys x zs)
  then have "kb_get b j = Some x" by (simp add: kb_get_first)
  with 2 assms show ?case by (auto simp: kb_contains_iff)
next
  case (3 ys x zs r rs)
  then have "kb_get b j = Some x" by (simp add: kb_get_first)
  with 3 assms show ?case by (auto simp: kb_contains_iff)
qed

lemma kb_get_None_iff: "kb_get b i = None \<longleftrightarrow> i \<notin> ids (kb_nodes b)"
  by (auto simp: kb_get_def find_None_iff)

lemma kb_get_SomeD: "kb_get b i = Some n \<Longrightarrow> n \<in> set (kb_nodes b) \<and> nid n = i"
  by (auto simp: kb_get_def find_Some_iff)

lemma kb_get_distinct:
  "distinct (map nid (kb_nodes b)) \<Longrightarrow> kb_get b i = Some n \<longleftrightarrow> n \<in> set (kb_nodes b) \<and> nid n = i"
  using kb_get_SomeD [of b i n] kb_get_None_iff [of b i]
  by (cases "kb_get b i") (auto dest!: kb_get_SomeD simp: distinct_map inj_on_def)

section \<open>The bucket invariant\<close>

text \<open>
  A bucket of the table of \<open>L\<close> at index \<open>i\<close> holds at most \<open>k\<close> contacts, and every contact in
  it or in its cache belongs to index \<open>i\<close>.
\<close>

definition kb_inv :: "node_id \<Rightarrow> nat \<Rightarrow> nat \<Rightarrow> kbucket \<Rightarrow> bool" where
  "kb_inv L i k b \<longleftrightarrow>
     kb_local b = L \<and> kb_prefix_len b = i \<and> kb_k b = k \<and> length (kb_nodes b) \<le> k \<and>
     (\<forall>n\<in>set (kb_nodes b) \<union> set (kb_cache b). bucket_index L (nid n) = Some i)"

lemma kb_inv_new [simp]: "kb_inv L i k (kb_new L i k)"
  by (simp add: kb_inv_def)

lemma kb_update_inv:
  assumes "kb_inv L i k b" "bucket_index L (nid n) = Some i"
  shows "kb_inv L i k (fst (kb_update now n b))"
proof (rule kb_update_cases [where node = n and b = b and now = now], goal_cases)
  case (7 x xs)
  then show ?case using assms set_uncached [of "kb_cache b" "nid n"] by (auto simp: kb_inv_def)
qed (use assms in \<open>auto simp: kb_inv_def\<close>)

lemma kb_remove_inv:
  assumes "kb_inv L i k b"
  shows "kb_inv L i k (fst (kb_remove now j b))"
  by (rule kb_remove_cases [where i = j and b = b and now = now]) (use assms in \<open>auto simp: kb_inv_def\<close>)

lemma kb_update_ok:
  assumes "nid n \<noteq> kb_local b" "0 < kb_k b"
  shows "\<exists>u. snd (kb_update now n b) = Ok u"
  by (rule kb_update_cases [where node = n and b = b and now = now]) (use assms in auto)

lemma kb_update_panic_iff:
  "panics (snd (kb_update now n b)) \<longleftrightarrow> nid n \<noteq> kb_local b \<and> kb_k b = 0 \<and> kb_nodes b = []"
  by (rule kb_update_cases [where node = n and b = b and now = now]) auto

lemma kb_update_distinct:
  assumes "distinct (map nid (kb_nodes b))"
  shows "distinct (map nid (kb_nodes (fst (kb_update now n b))))"
  by (rule kb_update_cases [where node = n and b = b and now = now]) (use assms in auto)

lemma kb_remove_distinct:
  assumes "distinct (map nid (kb_nodes b))" "ids (kb_cache b) \<inter> ids (kb_nodes b) = {}"
  shows "distinct (map nid (kb_nodes (fst (kb_remove now i b))))"
  by (rule kb_remove_cases [where i = i and b = b and now = now]) (use assms in auto)

text \<open>All contacts of bucket \<open>i\<close> disagree with the local identifier at bit \<open>i\<close>: they agree there.\<close>

lemma kb_should_split_False:
  assumes "kb_inv L i k b" "0 < k"
  shows "kb_should_split b = Ok False"
proof -
  have "bit_at (nid n) i = (\<not> bit_at L i)" if "n \<in> set (kb_nodes b)" for n
    using assms that by (auto simp: kb_inv_def bucket_index_Some_iff)
  then show ?thesis
    using assms by (auto simp: kb_should_split_def kb_is_full_def kb_inv_def list_all_iff split: list.splits)
qed

lemma kb_should_split_TrueD: "kb_should_split b = Ok True \<Longrightarrow> kb_prefix_len b < 160"
  by (auto simp: kb_should_split_def list_all_iff not_le split: if_splits list.splits intro: ccontr)

lemma kb_split_loop_prefix:
  "kb_split_loop now p ns b0 b1 = Ok (c0, c1) \<Longrightarrow>
   kb_prefix_len c0 = kb_prefix_len b0 \<and> kb_prefix_len c1 = kb_prefix_len b1"
proof (induction ns arbitrary: b0 b1)
  case (Cons n ns)
  have "kb_prefix_len b' = kb_prefix_len b" if "kb_update now n b = (b', r)" for b b' r
    using kb_update_frame(3) [of now n b] that by simp
  with Cons show ?case by (fastforce split: if_splits prod.splits outcome.splits)
qed simp

lemma kb_split_prefix:
  "kb_split now b = Ok (c0, c1) \<Longrightarrow> kb_prefix_len c0 = Suc (kb_prefix_len b)"
  by (auto simp: kb_split_def dest!: kb_split_loop_prefix)

section \<open>What an update does\<close>

lemma kb_update_Updated:
  assumes "snd (kb_update now n b) = Ok KUpdated"
  shows "nid n \<in> ids (kb_nodes (fst (kb_update now n b)))"
    and "nid (last (kb_nodes (fst (kb_update now n b)))) = nid n"
    and "seen (last (kb_nodes (fst (kb_update now n b)))) = At (unix_secs now)"
    and "kb_cache (fst (kb_update now n b)) = kb_cache b"
  by (rule kb_update_cases [where node = n and b = b and now = now]; use assms in auto)+

lemma kb_update_Pending:
  assumes "snd (kb_update now n b) = Ok (KPendingPing f)"
  shows "kb_nodes (fst (kb_update now n b)) = kb_nodes b"
    and "kb_nodes b \<noteq> [] \<and> f = hd (kb_nodes b)"
    and "nid n \<notin> ids (kb_nodes b)"
    and "kb_k b \<le> length (kb_nodes b)"
    and "is_active now f NODE_TIMEOUT"
    and "nid n \<in> ids (kb_cache (fst (kb_update now n b)))"
  by (rule kb_update_cases [where node = n and b = b and now = now]; use assms in auto)+

lemma kb_update_Pending_reliable:
  assumes "snd (kb_update now n b) = Ok (KPendingPing f)" "x \<in> set (kb_nodes b)"
  shows "is_reliable (stats x) MIN_SUCCESS_RATE"
  by (rule kb_update_cases [where node = n and b = b and now = now]; use assms in auto)

lemma kb_update_not_KUnchanged: "snd (kb_update now n b) \<noteq> Ok KUnchanged"
  by (rule kb_update_cases [where node = n and b = b and now = now]) auto

text \<open>An update drops at most one contact, and only from a full bucket.\<close>

lemma kb_update_drops:
  "\<exists>v. ids (kb_nodes b) - {v} \<subseteq> ids (kb_nodes (fst (kb_update now n b))) \<and>
       (length (kb_nodes b) < kb_k b \<longrightarrow> ids (kb_nodes b) \<subseteq> ids (kb_nodes (fst (kb_update now n b))))"
  by (rule kb_update_cases [where node = n and b = b and now = now]) auto

lemma kb_update_ids_subset:
  "ids (kb_nodes (fst (kb_update now n b))) \<subseteq> insert (nid n) (ids (kb_nodes b))"
  by (rule kb_update_cases [where node = n and b = b and now = now]) auto

text \<open>
  A contact that is already in the bucket keeps the entry it has: the argument's statistics and
  address are not looked at.
\<close>

lemma kb_update_known:
  assumes "distinct (map nid (kb_nodes b))" "nid n \<noteq> kb_local b"
    and "x \<in> set (kb_nodes b)" "nid x = nid n"
  shows "snd (kb_update now n b) = Ok KUpdated"
    and "last (kb_nodes (fst (kb_update now n b))) = update_last_seen now x"
    and "kb_get (fst (kb_update now n b)) (nid n) = Some (update_last_seen now x)"
proof -
  have mem: "nid n \<in> ids (kb_nodes b)" using assms(3,4) by (metis image_eqI)
  have "snd (kb_update now n b) = Ok KUpdated \<and>
    (\<exists>ys zs. kb_nodes b = ys @ x # zs \<and>
       kb_nodes (fst (kb_update now n b)) = ys @ zs @ [update_last_seen now x])"
  proof (rule kb_update_cases [where node = n and b = b and now = now], goal_cases)
    case (2 ys y zs)
    have "inj_on nid (set (kb_nodes b))" using assms(1) by (simp add: distinct_map)
    moreover have "y \<in> set (kb_nodes b)" using 2(2) by simp
    moreover have "nid y = nid x" using 2(3) assms(4) by simp
    ultimately have "y = x" using assms(3) by (blast dest: inj_onD)
    with 2(2,5) show ?case by (intro conjI exI [of _ ys] exI [of _ zs]) simp_all
  qed (use assms(2) mem in simp_all)
  then obtain ys zs where *: "snd (kb_update now n b) = Ok KUpdated" "kb_nodes b = ys @ x # zs"
    "kb_nodes (fst (kb_update now n b)) = ys @ zs @ [update_last_seen now x]"
    by blast
  then show "snd (kb_update now n b) = Ok KUpdated"
    and "last (kb_nodes (fst (kb_update now n b))) = update_last_seen now x" by auto
  have "update_last_seen now x \<in> set (kb_nodes (fst (kb_update now n b)))" using *(3) by simp
  with kb_update_distinct [OF assms(1)] assms(4)
  show "kb_get (fst (kb_update now n b)) (nid n) = Some (update_last_seen now x)"
    by (simp add: kb_get_distinct)
qed

section \<open>The order of last contact\<close>

text \<open>
  While the clock does not run backwards, the contacts of a bucket are sorted by the time they
  were last seen, so the front of the queue is the least recently seen contact.
\<close>

definition seen_secs :: "node \<Rightarrow> u64" where
  "seen_secs n = (case seen n of Never \<Rightarrow> 0 | At s \<Rightarrow> s)"

definition kb_lru :: "system_time \<Rightarrow> kbucket \<Rightarrow> bool" where
  "kb_lru now b \<longleftrightarrow>
     (\<forall>n\<in>set (kb_nodes b). seen n \<noteq> Never \<and> seen_secs n \<le> unix_secs now) \<and>
     sorted (map seen_secs (kb_nodes b))"

lemma seen_secs_update [simp]: "seen_secs (update_last_seen now n) = unix_secs now"
  by (simp add: seen_secs_def)

lemma kb_lru_new [simp]: "kb_lru now (kb_new l p k)"
  by (simp add: kb_lru_def)

lemma kb_lru_later: "kb_lru now b \<Longrightarrow> unix_secs now \<le> unix_secs now' \<Longrightarrow> kb_lru now' b"
  by (auto simp: kb_lru_def intro: order_trans)

lemma kb_lru_update: "kb_lru now b \<Longrightarrow> kb_lru now (fst (kb_update now n b))"
  by (rule kb_update_cases [where node = n and b = b and now = now])
    (auto simp: kb_lru_def sorted_append)

lemma kb_lru_remove: "kb_lru now b \<Longrightarrow> kb_lru now (fst (kb_remove now i b))"
  by (rule kb_remove_cases [where i = i and b = b and now = now])
    (auto simp: kb_lru_def sorted_append)

lemma is_active_mono:
  assumes "seen x \<noteq> Never" "seen y \<noteq> Never" "seen_secs x \<le> seen_secs y" "is_active now x d"
  shows "is_active now y d"
proof -
  obtain s t where s: "seen x = At s" "seen y = At t"
    using assms(1,2) by (cases "seen x"; cases "seen y") auto
  with assms(3) have "unat s \<le> unat t" by (simp add: seen_secs_def word_le_nat_alt)
  with assms(4) s show ?thesis
    by (auto simp: is_active_At from_secs_def word_less_nat_alt)
qed

lemma kb_lru_front_active:
  assumes "kb_lru now b" "kb_nodes b = x # xs" "is_active now x d" "y \<in> set (kb_nodes b)"
  shows "is_active now y d"
  by (rule is_active_mono [OF _ _ _ assms(3)]) (use assms(1,2,4) in \<open>auto simp: kb_lru_def\<close>)

section \<open>The closest contacts\<close>

lemma mset_sort_by_distance [simp]: "mset (sort_by_distance t ns) = mset ns"
  by (simp add: sort_by_distance_def)

lemma set_sort_by_distance [simp]: "set (sort_by_distance t ns) = set ns"
  by (simp add: sort_by_distance_def)

lemma length_sort_by_distance [simp]: "length (sort_by_distance t ns) = length ns"
  by (simp add: sort_by_distance_def)

lemma distinct_sort_by_distance [simp]:
  "distinct (map nid (sort_by_distance t ns)) = distinct (map nid ns)"
  by (metis mset_map mset_sort_by_distance mset_eq_imp_distinct_iff)

lemma sorted_sort_by_distance [simp]:
  "sorted (map (\<lambda>n. distance (nid n) t) (sort_by_distance t ns))"
  by (simp add: sort_by_distance_def)

lemma sorted_take_drop:
  assumes "sorted (map f xs)" "x \<in> set (take c xs)" "y \<in> set (drop c xs)"
  shows "f x \<le> f y"
proof -
  have "sorted (map f (take c xs) @ map f (drop c xs))"
    using assms(1) by (simp flip: map_append)
  with assms(2,3) show ?thesis by (auto simp: sorted_append)
qed

text \<open>With distinct identifiers the distances are distinct, so the sorted list is unique.\<close>

lemma sort_by_distance_unique:
  assumes "mset ns = mset ms" "distinct (map nid ns)"
  shows "sort_by_distance t ns = sort_by_distance t ms"
proof (rule map_sorted_distinct_set_unique [where f = "\<lambda>n. distance (nid n) t"])
  have d: "distinct (map nid ms)" using assms by (metis mset_map mset_eq_imp_distinct_iff)
  have set: "set ns = set ms" using assms(1) by (rule mset_eq_setD)
  have inj: "inj_on (\<lambda>n. distance (nid n) t) (set ns)"
    using assms(2) by (auto simp: inj_on_def distinct_map idm.dist_right_inj)
  then show "inj_on (\<lambda>n. distance (nid n) t) (set (sort_by_distance t ns) \<union> set (sort_by_distance t ms))"
    using set by simp
  have "distinct (map (\<lambda>n. distance (nid n) t) (sort_by_distance t xs))"
    if "distinct (map nid xs)" "set xs = set ns" for xs
  proof -
    have "distinct (sort_by_distance t xs)"
      using that(1) by (metis distinct_map distinct_sort_by_distance)
    with inj that(2) show ?thesis by (simp add: distinct_map)
  qed
  then show "distinct (map (\<lambda>n. distance (nid n) t) (sort_by_distance t ns))"
    "distinct (map (\<lambda>n. distance (nid n) t) (sort_by_distance t ms))"
    using assms(2) d set by simp_all
qed (use assms in \<open>auto dest: mset_eq_setD\<close>)

section \<open>Splitting\<close>

text \<open>A split never overflows a half, so every inner update takes the branch with room.\<close>

lemma kb_update_room:
  assumes "nid n \<noteq> kb_local b" "nid n \<notin> ids (kb_nodes b)" "length (kb_nodes b) < kb_k b"
  shows "kb_update now n b = (b\<lparr>kb_nodes := kb_nodes b @ [update_last_seen now n]\<rparr>, Ok KUpdated)"
  by (rule kb_update_cases [where node = n and b = b and now = now]) (use assms in auto)

lemma kb_split_loop_spec:
  assumes "distinct (map nid ns)" "kb_local b0 \<notin> ids ns" "kb_local b1 = kb_local b0"
    and "ids ns \<inter> (ids (kb_nodes b0) \<union> ids (kb_nodes b1)) = {}"
    and "length (kb_nodes b0) + length (kb_nodes b1) + length ns \<le> kb_k b0" "kb_k b1 = kb_k b0"
  shows "kb_split_loop now p ns b0 b1 =
    Ok (b0\<lparr>kb_nodes := kb_nodes b0 @ map (update_last_seen now) (filter (\<lambda>n. \<not> bit_at (nid n) p) ns)\<rparr>,
        b1\<lparr>kb_nodes := kb_nodes b1 @ map (update_last_seen now) (filter (\<lambda>n. bit_at (nid n) p) ns)\<rparr>)"
  using assms
proof (induction ns arbitrary: b0 b1)
  case (Cons n ns)
  let ?add = "\<lambda>b. b\<lparr>kb_nodes := kb_nodes b @ [update_last_seen now n]\<rparr>"
  have u: "kb_update now n b0 = (?add b0, Ok KUpdated)" "kb_update now n b1 = (?add b1, Ok KUpdated)"
    using Cons.prems by (auto intro!: kb_update_room)
  show ?case
  proof (cases "bit_at (nid n) p")
    case True
    have "kb_split_loop now p ns b0 (?add b1) =
      Ok (b0\<lparr>kb_nodes := kb_nodes b0 @ map (update_last_seen now) (filter (\<lambda>n. \<not> bit_at (nid n) p) ns)\<rparr>,
        (?add b1)\<lparr>kb_nodes := kb_nodes (?add b1) @ map (update_last_seen now) (filter (\<lambda>n. bit_at (nid n) p) ns)\<rparr>)"
      by (rule Cons.IH) (use Cons.prems in auto)
    then show ?thesis using True u by simp
  next
    case False
    have "kb_split_loop now p ns (?add b0) b1 =
      Ok ((?add b0)\<lparr>kb_nodes := kb_nodes (?add b0) @ map (update_last_seen now) (filter (\<lambda>n. \<not> bit_at (nid n) p) ns)\<rparr>,
        b1\<lparr>kb_nodes := kb_nodes b1 @ map (update_last_seen now) (filter (\<lambda>n. bit_at (nid n) p) ns)\<rparr>)"
      by (rule Cons.IH) (use Cons.prems in auto)
    then show ?thesis using False u by simp
  qed
qed simp

section \<open>Properties\<close>

text \<open>
  C21: splitting a bucket that lists every identifier once and holds no more than its capacity
  gives two buckets of the next prefix length: the contacts whose bit at the old prefix length is
  0 and those whose bit is 1, each in their old order and all marked as just seen; none is lost.
  The replacement cache is dropped.
\<close>

theorem split_partitions:
  assumes "distinct (map nid (kb_nodes b))" "kb_local b \<notin> ids (kb_nodes b)"
    and "length (kb_nodes b) \<le> kb_k b"
  shows "kb_split now b = Ok
    (\<lparr>kb_k = kb_k b, kb_local = kb_local b, kb_prefix_len = kb_prefix_len b + 1,
      kb_nodes = map (update_last_seen now) (filter (\<lambda>n. \<not> bit_at (nid n) (kb_prefix_len b)) (kb_nodes b)),
      kb_cache = []\<rparr>,
     \<lparr>kb_k = kb_k b, kb_local = kb_local b, kb_prefix_len = kb_prefix_len b + 1,
      kb_nodes = map (update_last_seen now) (filter (\<lambda>n. bit_at (nid n) (kb_prefix_len b)) (kb_nodes b)),
      kb_cache = []\<rparr>)"
  unfolding kb_split_def Let_def
  by (subst kb_split_loop_spec) (use assms in \<open>auto simp: kb_new_def\<close>)

definition sample_bucket :: kbucket where
  "sample_bucket = \<lparr>kb_k = 2, kb_local = id_zero, kb_prefix_len = 1, kb_nodes = [node_a, node_b], kb_cache = []\<rparr>"

theorem split_partitions_witness:
  "\<exists>b0 b1. kb_split 0 sample_bucket = Ok (b0, b1) \<and>
     map nid (kb_nodes b0) = [nid node_a] \<and> map nid (kb_nodes b1) = [nid node_b]"
proof -
  have "\<not> bit_at (nid node_a) 1" "bit_at (nid node_b) 1"
    by (simp_all add: sample_defs bit_at_def bit_simps)
  then show ?thesis
    using split_partitions [of sample_bucket 0] by (simp add: sample_bucket_def)
qed

end
