(* ===== verification/Routing_Table.thy ===== *)
theory Routing_Table
  imports K_Bucket
begin

text \<open>
  \<^verbatim>\<open>src/src/routing/routing_table.rs\<close>: the table of buckets, indexed by the position of the first
  bit in which a contact differs from the local node. The hash map of buckets is an association
  list in iteration order. The invariant \<open>rt_inv\<close> is kept by every operation; under it no
  bucket ever splits.
\<close>

section \<open>Data\<close>

record routing_table =
  rt_local :: node_id
  rt_buckets :: "(nat \<times> kbucket) list"
  rt_k :: nat

datatype update_status = Unchanged | Updated | PendingPing node

section \<open>Operations\<close>

definition rt_new :: "node_id \<Rightarrow> routing_table" where
  "rt_new local_node_id = \<lparr>rt_local = local_node_id, rt_buckets = [], rt_k = K\<rparr>"

definition rt_with_k :: "node_id \<Rightarrow> nat \<Rightarrow> routing_table" where
  "rt_with_k local_node_id k = \<lparr>rt_local = local_node_id, rt_buckets = [], rt_k = k\<rparr>"

definition rt_bucket_indices :: "routing_table \<Rightarrow> nat list" where
  "rt_bucket_indices t = sort (hm_keys (rt_buckets t))"

definition rt_node_count :: "routing_table \<Rightarrow> nat" where
  "rt_node_count t = sum_list (map kb_len (hm_values (rt_buckets t)))"

definition rt_bucket_index :: "routing_table \<Rightarrow> node_id \<Rightarrow> nat option" where
  "rt_bucket_index t node_id = bucket_index (rt_local t) node_id"

definition rt_put :: "nat \<Rightarrow> kbucket \<Rightarrow> routing_table \<Rightarrow> routing_table" where
  "rt_put index b t = t\<lparr>rt_buckets := hm_insert index b (rt_buckets t)\<rparr>"

text \<open>
  \<^verbatim>\<open>get_or_create_bucket\<close> returns the table and the bucket; a caller that changes the bucket puts
  it back with \<open>rt_put\<close>.
\<close>

definition rt_get_or_create_bucket :: "nat \<Rightarrow> routing_table \<Rightarrow> routing_table \<times> kbucket" where
  "rt_get_or_create_bucket index t =
     (case hm_get (rt_buckets t) index of
        Some b \<Rightarrow> (t, b)
      | None \<Rightarrow> let b = kb_new (rt_local t) index (rt_k t) in (rt_put index b t, b))"

fun status_of :: "kbucket_update \<Rightarrow> update_status" where
  "status_of KUnchanged = Unchanged"
| "status_of KUpdated = Updated"
| "status_of (KPendingPing n) = PendingPing n"

text \<open>
  The body of \<^verbatim>\<open>update\<close> up to its recursive call: \<open>Inl\<close> is a return, \<open>Inr\<close> the table on which
  \<^verbatim>\<open>update\<close> is called again after a split.
\<close>

definition rt_update_once ::
  "system_time \<Rightarrow> node \<Rightarrow> routing_table \<Rightarrow> (routing_table \<times> update_status outcome) + routing_table" where
  "rt_update_once now node t =
     (if nid node = rt_local t then Inl (t, Ok Unchanged)
      else case rt_bucket_index t (nid node) of
        None \<Rightarrow> Inl (t, Ok Unchanged)
      | Some index \<Rightarrow>
          let (t1, bucket) = rt_get_or_create_bucket index t;
              (bucket', r) = kb_update now node bucket;
              t2 = rt_put index bucket' t1
          in case r of
               Err e \<Rightarrow> Inl (t2, Err e)
             | Panic s \<Rightarrow> Inl (t2, Panic s)
             | Ok upd \<Rightarrow>
                 (case kb_should_split bucket' of
                    Err e \<Rightarrow> Inl (t2, Err e)
                  | Panic s \<Rightarrow> Inl (t2, Panic s)
                  | Ok sp \<Rightarrow>
                      if sp \<and> index < KEY_LENGTH_BITS - 1 then
                        (case kb_split now bucket' of
                           Err e \<Rightarrow> Inl (t2, Err e)
                         | Panic s \<Rightarrow> Inl (t2, Panic s)
                         | Ok (bucket0, bucket1) \<Rightarrow>
                             let bs0 = hm_remove index (rt_buckets t2);
                                 bs1 = hm_insert index bucket0 bs0;
                                 bs2 = hm_insert (index + 1) bucket1 bs1
                             in Inr (t2\<lparr>rt_buckets := bs2\<rparr>))
                      else Inl (t2, Ok (status_of upd))))"

text \<open>
  The recursion ends: a split leaves a bucket with a longer prefix at the same index, and no
  bucket whose prefix is the whole identifier splits.
\<close>

definition split_measure :: "node \<Rightarrow> routing_table \<Rightarrow> nat" where
  "split_measure node t =
     (case bucket_index (rt_local t) (nid node) of
        None \<Rightarrow> 0
      | Some i \<Rightarrow> (case hm_get (rt_buckets t) i of None \<Rightarrow> 161 | Some b \<Rightarrow> 160 - kb_prefix_len b))"

lemma rt_put_simps [simp]:
  "rt_local (rt_put i b t) = rt_local t"
  "rt_k (rt_put i b t) = rt_k t"
  "rt_buckets (rt_put i b t) = hm_insert i b (rt_buckets t)"
  by (simp_all add: rt_put_def)

lemma rt_update_once_smaller:
  assumes "rt_update_once now n t = Inr t'"
  shows "split_measure n t' < split_measure n t"
proof -
  obtain i where i: "bucket_index (rt_local t) (nid n) = Some i"
    using assms by (auto simp: rt_update_once_def rt_bucket_index_def split: if_splits option.splits)
  obtain t1 b where g: "rt_get_or_create_bucket i t = (t1, b)" by force
  obtain b' r where u: "kb_update now n b = (b', r)" by force
  have loc: "rt_local t1 = rt_local t"
    using g by (auto simp: rt_get_or_create_bucket_def Let_def split: option.splits)
  from assms i g u obtain upd c0 c1 where
    sp: "kb_should_split b' = Ok True" "kb_split now b' = Ok (c0, c1)" and
    t': "rt_local t' = rt_local t1"
      "hm_get (rt_buckets t') i = Some c0"
    by (auto simp: rt_update_once_def rt_bucket_index_def Let_def
        split: if_splits outcome.splits prod.splits)
  have p: "kb_prefix_len b' = kb_prefix_len b" using kb_update_frame(3) [of now n b] u by simp
  have "kb_prefix_len b < 160" using kb_should_split_TrueD [OF sp(1)] p by simp
  moreover have "kb_prefix_len c0 = Suc (kb_prefix_len b)" using kb_split_prefix [OF sp(2)] p by simp
  moreover have "hm_get (rt_buckets t) i = None \<or> hm_get (rt_buckets t) i = Some b"
    using g by (auto simp: rt_get_or_create_bucket_def split: option.splits)
  ultimately show ?thesis using i t' loc by (auto simp: split_measure_def)
qed

function rt_update :: "system_time \<Rightarrow> node \<Rightarrow> routing_table \<Rightarrow> routing_table \<times> update_status outcome" where
  "rt_update now node t =
     (case rt_update_once now node t of
        Inl result \<Rightarrow> result
      | Inr t' \<Rightarrow> rt_update now node t')"
  by pat_completeness auto
termination
  by (relation "measure (\<lambda>(now, node, t). split_measure node t)") (auto simp: rt_update_once_smaller)

declare rt_update.simps [simp del]

text \<open>
  \<^verbatim>\<open>node_seen\<close>, \<^verbatim>\<open>record_success\<close> and \<^verbatim>\<open>record_failure\<close> share one shape: look the contact up, change a
  copy of it, and pass the copy to the bucket's \<^verbatim>\<open>update\<close>.
\<close>

definition rt_touch ::
  "system_time \<Rightarrow> (node \<Rightarrow> node) \<Rightarrow> node_id \<Rightarrow> routing_table \<Rightarrow> routing_table \<times> unit outcome" where
  "rt_touch now change node_id t =
     (case rt_bucket_index t node_id of
        None \<Rightarrow> (t, Ok ())
      | Some index \<Rightarrow>
          (case hm_get (rt_buckets t) index of
             None \<Rightarrow> (t, Ok ())
           | Some bucket \<Rightarrow>
               (case kb_get bucket node_id of
                  None \<Rightarrow> (t, Ok ())
                | Some n \<Rightarrow>
                    let (bucket', r) = kb_update now (change n) bucket;
                        t' = rt_put index bucket' t
                    in case r of
                         Ok _ \<Rightarrow> (t', Ok ())
                       | Err e \<Rightarrow> (t', Err e)
                       | Panic s \<Rightarrow> (t', Panic s))))"

definition rt_node_seen :: "system_time \<Rightarrow> node_id \<Rightarrow> routing_table \<Rightarrow> routing_table \<times> unit outcome" where
  "rt_node_seen now = rt_touch now (update_last_seen now)"

definition rt_record_success ::
  "system_time \<Rightarrow> node_id \<Rightarrow> u64 \<Rightarrow> routing_table \<Rightarrow> routing_table \<times> unit outcome" where
  "rt_record_success now node_id response_time_ms =
     rt_touch now
       (\<lambda>n. update_last_seen now
              (n\<lparr>stats := record_response_time response_time_ms (record_success (stats n))\<rparr>))
       node_id"

definition rt_record_failure :: "system_time \<Rightarrow> node_id \<Rightarrow> routing_table \<Rightarrow> routing_table \<times> unit outcome" where
  "rt_record_failure now = rt_touch now (\<lambda>n. n\<lparr>stats := record_failure (stats n)\<rparr>)"

definition rt_remove :: "system_time \<Rightarrow> node_id \<Rightarrow> routing_table \<Rightarrow> routing_table \<times> node option" where
  "rt_remove now node_id t =
     (case rt_bucket_index t node_id of
        None \<Rightarrow> (t, None)
      | Some index \<Rightarrow>
          (case hm_get (rt_buckets t) index of
             None \<Rightarrow> (t, None)
           | Some bucket \<Rightarrow>
               let (bucket', r) = kb_remove now node_id bucket in (rt_put index bucket' t, r)))"

definition rt_contains :: "routing_table \<Rightarrow> node_id \<Rightarrow> bool" where
  "rt_contains t node_id =
     (case rt_bucket_index t node_id of
        None \<Rightarrow> False
      | Some index \<Rightarrow>
          (case hm_get (rt_buckets t) index of
             None \<Rightarrow> False
           | Some bucket \<Rightarrow> kb_contains bucket node_id))"

definition rt_get :: "routing_table \<Rightarrow> node_id \<Rightarrow> node option" where
  "rt_get t node_id =
     (case rt_bucket_index t node_id of
        None \<Rightarrow> None
      | Some index \<Rightarrow>
          (case hm_get (rt_buckets t) index of
             None \<Rightarrow> None
           | Some bucket \<Rightarrow> kb_get bucket node_id))"

definition rt_get_all_nodes :: "routing_table \<Rightarrow> node list" where
  "rt_get_all_nodes t = concat (map kb_nodes (hm_values (rt_buckets t)))"

definition rt_get_closest :: "routing_table \<Rightarrow> node_id \<Rightarrow> nat \<Rightarrow> node list" where
  "rt_get_closest t target cnt =
     (let all_nodes = concat (map kb_nodes (hm_values (rt_buckets t)))
      in take cnt (sort_by_distance target all_nodes))"

section \<open>The table invariant\<close>

definition rt_inv :: "routing_table \<Rightarrow> bool" where
  "rt_inv t \<longleftrightarrow> hm_wf (rt_buckets t) \<and>
     (\<forall>i b. hm_get (rt_buckets t) i = Some b \<longrightarrow> i < 160 \<and> kb_inv (rt_local t) i (rt_k t) b)"

abbreviation rt_bucket :: "routing_table \<Rightarrow> nat \<Rightarrow> kbucket" where
  "rt_bucket t i \<equiv>
     (case hm_get (rt_buckets t) i of Some b \<Rightarrow> b | None \<Rightarrow> kb_new (rt_local t) i (rt_k t))"

fun outcome_map :: "('a \<Rightarrow> 'b) \<Rightarrow> 'a outcome \<Rightarrow> 'b outcome" where
  "outcome_map f (Ok x) = Ok (f x)"
| "outcome_map f (Err e) = Err e"
| "outcome_map f (Panic s) = Panic s"

lemma rt_inv_new [simp]: "rt_inv (rt_new l)"
  by (simp add: rt_inv_def rt_new_def)

lemma rt_inv_with_k [simp]: "rt_inv (rt_with_k l k)"
  by (simp add: rt_inv_def rt_with_k_def)

lemma rt_inv_bucket: "rt_inv t \<Longrightarrow> kb_inv (rt_local t) i (rt_k t) (rt_bucket t i)"
  by (auto simp: rt_inv_def split: option.splits)

lemma rt_inv_put:
  "rt_inv t \<Longrightarrow> i < 160 \<Longrightarrow> kb_inv (rt_local t) i (rt_k t) b \<Longrightarrow> rt_inv (rt_put i b t)"
  by (auto simp: rt_inv_def hm.invar_insert hm.get_insert)

lemma rt_get_or_create_bucket_put:
  "rt_get_or_create_bucket i t = (t1, b) \<Longrightarrow> b = rt_bucket t i \<and> rt_put i c t1 = rt_put i c t"
  by (auto simp: rt_get_or_create_bucket_def rt_put_def Let_def split: option.splits)

text \<open>
  Under the invariant the splitting branch is dead: \<^verbatim>\<open>update\<close> is one update of the bucket of the
  contact's index, and never recurses.
\<close>

lemma rt_update_once_nosplit:
  assumes "rt_inv t" "bucket_index (rt_local t) (nid n) = Some i"
  shows "rt_update_once now n t =
    Inl (rt_put i (fst (kb_update now n (rt_bucket t i))) t,
         outcome_map status_of (snd (kb_update now n (rt_bucket t i))))"
proof -
  obtain t1 b where g: "rt_get_or_create_bucket i t = (t1, b)" by force
  then have b: "b = rt_bucket t i" and put: "\<And>c. rt_put i c t1 = rt_put i c t"
    using rt_get_or_create_bucket_put by blast+
  obtain b' r where u: "kb_update now n b = (b', r)" by force
  have "kb_inv (rt_local t) i (rt_k t) b" unfolding b by (rule rt_inv_bucket [OF assms(1)])
  then have inv': "kb_inv (rt_local t) i (rt_k t) b'"
    using kb_update_inv [of "rt_local t" i "rt_k t" b n now] assms(2) u by simp
  have ok: "kb_should_split b' = Ok False" if "r = Ok upd" for upd
  proof -
    have "0 < rt_k t"
    proof (rule ccontr)
      assume "\<not> 0 < rt_k t"
      then have "panics (snd (kb_update now n b)) \<or> nid n = kb_local b"
        using \<open>kb_inv _ _ _ b\<close> by (auto simp: kb_update_panic_iff kb_inv_def)
      then show False using that u assms(2) \<open>kb_inv _ _ _ b\<close>
        by (auto simp: kb_inv_def)
    qed
    with inv' show ?thesis by (rule kb_should_split_False)
  qed
  have neq: "nid n \<noteq> rt_local t" using assms(2) by auto
  show ?thesis
    using neq assms(2) g u ok put
    by (cases r) (simp_all add: rt_update_once_def rt_bucket_index_def flip: b)
qed

lemma rt_update_nosplit:
  assumes "rt_inv t"
  shows "rt_update now n t =
    (case bucket_index (rt_local t) (nid n) of
       None \<Rightarrow> (t, Ok Unchanged)
     | Some i \<Rightarrow> (rt_put i (fst (kb_update now n (rt_bucket t i))) t,
                  outcome_map status_of (snd (kb_update now n (rt_bucket t i)))))"
proof (cases "bucket_index (rt_local t) (nid n)")
  case None
  then have "nid n = rt_local t" by (simp add: bucket_index_None_iff)
  with None show ?thesis
    by (simp add: rt_update.simps [of now n t] rt_update_once_def)
next
  case (Some i)
  then show ?thesis
    by (simp add: rt_update.simps [of now n t] rt_update_once_nosplit [OF assms])
qed

lemma rt_update_Some:
  assumes "rt_inv t" "bucket_index (rt_local t) (nid n) = Some i"
  shows "fst (rt_update now n t) = rt_put i (fst (kb_update now n (rt_bucket t i))) t"
    and "snd (rt_update now n t) = outcome_map status_of (snd (kb_update now n (rt_bucket t i)))"
  using assms by (simp_all add: rt_update_nosplit)

lemma rt_update_local [simp]: "nid n = rt_local t \<Longrightarrow> rt_update now n t = (t, Ok Unchanged)"
  by (simp add: rt_update.simps [of now n t] rt_update_once_def)

lemma rt_update_inv: "rt_inv t \<Longrightarrow> rt_inv (fst (rt_update now n t))"
proof (cases "bucket_index (rt_local t) (nid n)")
  case (Some i)
  assume inv: "rt_inv t"
  have "kb_inv (rt_local t) i (rt_k t) (fst (kb_update now n (rt_bucket t i)))"
    using rt_inv_bucket [OF inv] Some by (rule kb_update_inv)
  with inv Some show ?thesis
    by (simp add: rt_update_nosplit rt_inv_put bucket_index_less)
qed (simp add: rt_update_nosplit)

text \<open>The shared shape of \<^verbatim>\<open>node_seen\<close>, \<^verbatim>\<open>record_success\<close> and \<^verbatim>\<open>record_failure\<close>.\<close>

lemma rt_touch_cases [case_names unknown known]:
  obtains (unknown) "rt_get t j = None" "rt_touch now f j t = (t, Ok ())"
    | (known) i b n where "bucket_index (rt_local t) j = Some i" "hm_get (rt_buckets t) i = Some b"
      "kb_get b j = Some n" "rt_get t j = Some n"
      "fst (rt_touch now f j t) = rt_put i (fst (kb_update now (f n) b)) t"
      "snd (rt_touch now f j t) = outcome_map (\<lambda>_. ()) (snd (kb_update now (f n) b))"
proof (cases "rt_get t j")
  case None
  then show thesis
    by (intro unknown) (auto simp: rt_get_def rt_touch_def rt_bucket_index_def split: option.splits)
next
  case (Some n)
  then obtain i b where "bucket_index (rt_local t) j = Some i" "hm_get (rt_buckets t) i = Some b"
      "kb_get b j = Some n"
    by (auto simp: rt_get_def rt_bucket_index_def split: option.splits)
  then show thesis using Some
    by (intro known)
      (auto simp: rt_touch_def rt_bucket_index_def Let_def split: prod.splits outcome.splits)
qed

text \<open>The bucket finds the contact by its identifier and keeps the entry it has.\<close>

lemma rt_touch_same:
  assumes "\<And>n. nid (f n) = nid n" "\<And>n. nid (g n) = nid n"
  shows "rt_touch now f j t = rt_touch now g j t"
proof -
  have "kb_update now (f n) b = kb_update now (g n) b" if "kb_get b j = Some n" for n b
  proof -
    have "position (\<lambda>x. nid x = nid n) (kb_nodes b) \<noteq> None"
      using kb_get_SomeD [OF that] by (auto simp: position_None_iff)
    then show ?thesis by (auto simp: kb_update_def assms)
  qed
  then show ?thesis
    by (auto simp: rt_touch_def intro!: option.case_cong)
qed

lemma rt_touch_inv:
  assumes "rt_inv t" "\<And>n. nid (f n) = nid n"
  shows "rt_inv (fst (rt_touch now f j t))"
proof (rule rt_touch_cases [where t = t and j = j and now = now and f = f], goal_cases)
  case (2 i b n)
  then have "kb_inv (rt_local t) i (rt_k t) b" using assms(1) by (auto simp: rt_inv_def)
  then have "kb_inv (rt_local t) i (rt_k t) (fst (kb_update now (f n) b))"
    using 2 assms(2) by (intro kb_update_inv) (auto dest: kb_get_SomeD)
  with 2 assms(1) show ?case by (simp add: rt_inv_put bucket_index_less)
qed (use assms in auto)

lemma rt_remove_cases [case_names no_bucket bucket]:
  obtains (no_bucket) "rt_get t j = None" "rt_remove now j t = (t, None)"
    | (bucket) i b where "bucket_index (rt_local t) j = Some i" "hm_get (rt_buckets t) i = Some b"
      "rt_remove now j t = (rt_put i (fst (kb_remove now j b)) t, snd (kb_remove now j b))"
proof (cases "\<exists>i b. bucket_index (rt_local t) j = Some i \<and> hm_get (rt_buckets t) i = Some b")
  case True
  then show thesis
    by (auto intro!: bucket simp: rt_remove_def rt_bucket_index_def split: prod.splits)
next
  case False
  then show thesis
    by (intro no_bucket) (auto simp: rt_remove_def rt_get_def rt_bucket_index_def split: option.splits)
qed

lemma rt_remove_inv: "rt_inv t \<Longrightarrow> rt_inv (fst (rt_remove now j t))"
proof (rule rt_remove_cases [where t = t and j = j and now = now], goal_cases)
  case (2 i b)
  then have "kb_inv (rt_local t) i (rt_k t) (fst (kb_remove now j b))"
    by (intro kb_remove_inv) (auto simp: rt_inv_def)
  with 2 show ?case by (simp add: rt_inv_put bucket_index_less)
qed auto

section \<open>Contents\<close>

text \<open>The contacts of the table, and the predicate that no bucket lists an identifier twice.\<close>

abbreviation rt_ids :: "routing_table \<Rightarrow> node_id set" where
  "rt_ids t \<equiv> ids (rt_get_all_nodes t)"

definition rt_distinct :: "routing_table \<Rightarrow> bool" where
  "rt_distinct t \<longleftrightarrow>
     (\<forall>i b. hm_get (rt_buckets t) i = Some b \<longrightarrow> distinct (map nid (kb_nodes b)))"

lemma rt_nodes_iff:
  "rt_inv t \<Longrightarrow> n \<in> set (rt_get_all_nodes t) \<longleftrightarrow>
   (\<exists>i b. hm_get (rt_buckets t) i = Some b \<and> n \<in> set (kb_nodes b))"
proof -
  assume "rt_inv t"
  then have wf: "hm_wf (rt_buckets t)" by (simp add: rt_inv_def)
  show ?thesis
    unfolding rt_get_all_nodes_def set_concat set_map
    using hm_values_iff [OF wf] by blast
qed

lemma rt_bucket_of:
  "rt_inv t \<Longrightarrow> hm_get (rt_buckets t) i = Some b \<Longrightarrow> n \<in> set (kb_nodes b) \<Longrightarrow>
   bucket_index (rt_local t) (nid n) = Some i"
  by (auto simp: rt_inv_def kb_inv_def)

lemma rt_contains_iff: "rt_inv t \<Longrightarrow> rt_contains t j \<longleftrightarrow> j \<in> rt_ids t"
proof
  assume inv: "rt_inv t"
  then show "rt_contains t j \<Longrightarrow> j \<in> rt_ids t"
    by (auto simp: rt_contains_def kb_contains_iff rt_nodes_iff image_iff Bex_def split: option.splits)
  assume "j \<in> rt_ids t"
  then obtain n i b where "nid n = j" "hm_get (rt_buckets t) i = Some b" "n \<in> set (kb_nodes b)"
    using inv by (auto simp: rt_nodes_iff)
  with rt_bucket_of [OF inv this(2,3)] show "rt_contains t j"
    by (auto simp: rt_contains_def rt_bucket_index_def kb_contains_iff)
qed

lemma rt_get_contains: "rt_get t j \<noteq> None \<longleftrightarrow> rt_contains t j"
  by (simp add: rt_get_def rt_contains_def kb_contains_iff kb_get_None_iff split: option.split
      del: not_None_eq)

lemma rt_get_SomeD: "rt_inv t \<Longrightarrow> rt_get t j = Some n \<Longrightarrow> nid n = j \<and> n \<in> set (rt_get_all_nodes t)"
  by (auto simp: rt_get_def rt_nodes_iff dest!: kb_get_SomeD split: option.splits)

lemma rt_local_absent: "rt_inv t \<Longrightarrow> rt_local t \<notin> rt_ids t"
  using rt_contains_iff [of t "rt_local t"] by (simp add: rt_contains_def rt_bucket_index_def)

lemma distinct_concat_buckets:
  assumes "distinct (map fst m)"
    and "\<And>i b. (i, b) \<in> set m \<Longrightarrow> distinct (map nid (kb_nodes b)) \<and>
           (\<forall>n\<in>set (kb_nodes b). bucket_index L (nid n) = Some i)"
  shows "distinct (map nid (concat (map (kb_nodes \<circ> snd) m)))"
  using assms
proof (induction m)
  case (Cons e m)
  obtain i b where e: "e = (i, b)" by force
  have "distinct (map nid (concat (map (kb_nodes \<circ> snd) m)))"
  proof (rule Cons.IH)
    show "distinct (map fst m)" using Cons.prems(1) by simp
  qed (rule Cons.prems(2), simp)
  moreover have "ids (kb_nodes b) \<inter> ids (concat (map (kb_nodes \<circ> snd) m)) = {}"
  proof -
    have "bucket_index L (nid n) \<noteq> Some i" if "n \<in> set (concat (map (kb_nodes \<circ> snd) m))" for n
    proof -
      from that obtain j c where jc: "(j, c) \<in> set m" "n \<in> set (kb_nodes c)" by auto
      then have "j \<in> fst ` set m" by (metis fst_conv image_eqI)
      then have "j \<noteq> i" using Cons.prems(1) e by auto
      moreover have "bucket_index L (nid n) = Some j" using Cons.prems(2) [of j c] jc by simp
      ultimately show ?thesis by simp
    qed
    moreover have "bucket_index L (nid n) = Some i" if "n \<in> set (kb_nodes b)" for n
      using Cons.prems(2) [of i b] e that by simp
    ultimately show ?thesis unfolding disjoint_iff image_iff by metis
  qed
  moreover have "distinct (map nid (kb_nodes b))" using Cons.prems(2) [of i b] e by simp
  ultimately show ?case by (simp add: e comp_def)
qed simp

lemma rt_all_distinct:
  assumes "rt_inv t" "rt_distinct t"
  shows "distinct (map nid (rt_get_all_nodes t))"
proof -
  have "rt_get_all_nodes t = concat (map (kb_nodes \<circ> snd) (rt_buckets t))"
    by (simp add: rt_get_all_nodes_def hm_values_def)
  moreover have "distinct (map nid (concat (map (kb_nodes \<circ> snd) (rt_buckets t))))"
  proof (rule distinct_concat_buckets)
    fix i b assume "(i, b) \<in> set (rt_buckets t)"
    then have "hm_get (rt_buckets t) i = Some b"
      using assms(1) by (simp add: hm_get_Some_iff rt_inv_def)
    then show "distinct (map nid (kb_nodes b)) \<and>
        (\<forall>n\<in>set (kb_nodes b). bucket_index (rt_local t) (nid n) = Some i)"
      using assms by (auto simp: rt_inv_def rt_distinct_def kb_inv_def)
  qed (use assms(1) in \<open>simp add: rt_inv_def hm_wf_def\<close>)
  ultimately show ?thesis by simp
qed

lemma rt_distinct_new [simp]: "rt_distinct (rt_new l)" "rt_distinct (rt_with_k l k)"
  by (simp_all add: rt_distinct_def rt_new_def rt_with_k_def)

lemma rt_distinct_put:
  "rt_distinct t \<Longrightarrow> distinct (map nid (kb_nodes b)) \<Longrightarrow> rt_distinct (rt_put i b t)"
  by (auto simp: rt_distinct_def hm.get_insert)

lemma rt_distinct_bucket: "rt_distinct t \<Longrightarrow> distinct (map nid (kb_nodes (rt_bucket t i)))"
  by (auto simp: rt_distinct_def split: option.splits)

lemma rt_update_distinct:
  assumes "rt_inv t" "rt_distinct t"
  shows "rt_distinct (fst (rt_update now n t))"
  using assms kb_update_distinct [OF rt_distinct_bucket [OF assms(2)]]
  by (auto simp: rt_update_nosplit rt_distinct_put split: option.split)

lemma rt_touch_distinct: "rt_distinct t \<Longrightarrow> rt_distinct (fst (rt_touch now f j t))"
  by (rule rt_touch_cases [where t = t and j = j and now = now and f = f])
    (auto simp: rt_distinct_def hm.get_insert kb_update_distinct)

lemma rt_put_ids:
  assumes "rt_inv t" "rt_inv (rt_put i b t)" "kb_nodes b = kb_nodes (rt_bucket t i)"
  shows "set (rt_get_all_nodes (rt_put i b t)) = set (rt_get_all_nodes t)"
proof (rule set_eqI)
  fix n
  show "n \<in> set (rt_get_all_nodes (rt_put i b t)) \<longleftrightarrow> n \<in> set (rt_get_all_nodes t)"
    using assms(3) unfolding rt_nodes_iff [OF assms(1)] rt_nodes_iff [OF assms(2)]
    by (cases "hm_get (rt_buckets t) i")
      (simp_all add: hm.get_insert, (metis empty_iff option.distinct(1) option.inject)+)
qed

section \<open>Size\<close>

lemma rt_node_count_eq: "rt_node_count t = length (rt_get_all_nodes t)"
  by (simp add: rt_node_count_def rt_get_all_nodes_def length_concat kb_len_def [abs_def] comp_def)

lemma rt_node_count_bound:
  assumes "rt_inv t"
  shows "rt_node_count t \<le> 160 * rt_k t"
proof -
  have "length (kb_nodes b) \<le> rt_k t" if "b \<in> set (hm_values (rt_buckets t))" for b
    using that assms by (auto simp: hm_values_iff rt_inv_def kb_inv_def)
  then have "rt_node_count t \<le> sum_list (map (\<lambda>_. rt_k t) (hm_values (rt_buckets t)))"
    unfolding rt_node_count_def kb_len_def by (rule sum_list_mono)
  also have "\<dots> = length (rt_buckets t) * rt_k t"
    by (simp add: sum_list_triv hm_values_def del: map_map)
  also have "length (rt_buckets t) \<le> 160"
  proof -
    have "set (hm_keys (rt_buckets t)) \<subseteq> {..<160}"
      using assms by (auto simp: rt_inv_def hm.key_iff)
    then have "card (set (hm_keys (rt_buckets t))) \<le> 160"
      using card_mono [of "{..<160::nat}"] by simp
    moreover have "distinct (hm_keys (rt_buckets t))"
      using assms by (simp add: rt_inv_def hm.distinct_keys)
    ultimately have "length (hm_keys (rt_buckets t)) \<le> 160"
      by (simp only: distinct_card)
    then show ?thesis by (simp add: hm_keys_def)
  qed
  finally show ?thesis by simp
qed

section \<open>Sequences of operations\<close>

text \<open>
  One operation of the table per constructor, with the clock reading it is called at; the value
  an operation returns is dropped here.
\<close>

datatype rt_op =
    RtUpdate system_time node
  | RtNodeSeen system_time node_id
  | RtRecordSuccess system_time node_id u64
  | RtRecordFailure system_time node_id
  | RtRemove system_time node_id

fun rt_apply :: "rt_op \<Rightarrow> routing_table \<Rightarrow> routing_table" where
  "rt_apply (RtUpdate now n) t = fst (rt_update now n t)"
| "rt_apply (RtNodeSeen now j) t = fst (rt_node_seen now j t)"
| "rt_apply (RtRecordSuccess now j ms) t = fst (rt_record_success now j ms t)"
| "rt_apply (RtRecordFailure now j) t = fst (rt_record_failure now j t)"
| "rt_apply (RtRemove now j) t = fst (rt_remove now j t)"

fun rt_op_time :: "rt_op \<Rightarrow> system_time" where
  "rt_op_time (RtUpdate now _) = now"
| "rt_op_time (RtNodeSeen now _) = now"
| "rt_op_time (RtRecordSuccess now _ _) = now"
| "rt_op_time (RtRecordFailure now _) = now"
| "rt_op_time (RtRemove now _) = now"

fun is_removal :: "rt_op \<Rightarrow> bool" where
  "is_removal (RtRemove _ _) = True"
| "is_removal _ = False"

lemmas rt_touch_defs = rt_node_seen_def rt_record_success_def rt_record_failure_def

lemma rt_frame_update: "rt_local (fst (rt_update now n t)) = rt_local t \<and> rt_k (fst (rt_update now n t)) = rt_k t"
  if "rt_inv t"
  using that by (auto simp: rt_update_nosplit split: option.split)

lemma rt_frame_touch [simp]:
  "rt_local (fst (rt_touch now f j t)) = rt_local t" "rt_k (fst (rt_touch now f j t)) = rt_k t"
  by (rule rt_touch_cases [where t = t and j = j and now = now and f = f]; simp)+

lemma rt_frame_remove [simp]:
  "rt_local (fst (rt_remove now j t)) = rt_local t" "rt_k (fst (rt_remove now j t)) = rt_k t"
  by (rule rt_remove_cases [where t = t and j = j and now = now]; simp)+

text \<open>Every operation keeps the invariant and the parameters of the table.\<close>

interpretation rt: stable rt_apply "\<lambda>t. rt_inv t \<and> rt_local t = l \<and> rt_k t = k" for l k
proof
  fix t x
  assume a: "rt_inv t \<and> rt_local t = l \<and> rt_k t = k"
  show "rt_inv (rt_apply x t) \<and> rt_local (rt_apply x t) = l \<and> rt_k (rt_apply x t) = k"
  proof (cases x)
    case (RtUpdate now n)
    then show ?thesis using a rt_update_inv [of t now n] rt_frame_update [of t now n] by simp
  qed (use a in \<open>simp_all add: rt_touch_defs rt_touch_inv rt_remove_inv\<close>)
qed

lemma rt_with_k_simps [simp]:
  "rt_local (rt_with_k l k) = l" "rt_k (rt_with_k l k) = k" "rt_buckets (rt_with_k l k) = []"
  by (simp_all add: rt_with_k_def)

lemma rt_run_inv:
  "rt_inv (run rt_apply ops (rt_with_k l k))"
  "rt_local (run rt_apply ops (rt_with_k l k)) = l"
  "rt_k (run rt_apply ops (rt_with_k l k)) = k"
  using rt.run_inv [of "rt_with_k l k" l k ops] by simp_all

lemma rt_run_distinct:
  "list_all (\<lambda>x. \<not> is_removal x) ops \<Longrightarrow> rt_inv t \<Longrightarrow> rt_distinct t \<Longrightarrow>
   rt_distinct (run rt_apply ops t)"
proof (induction ops arbitrary: t)
  case (Cons x ops)
  have "rt_inv (rt_apply x t)"
    using rt.step_inv [of t "rt_local t" "rt_k t" x] Cons.prems by simp
  moreover have "rt_distinct (rt_apply x t)"
    using Cons.prems by (cases x) (simp_all add: rt_touch_defs rt_update_distinct rt_touch_distinct)
  ultimately show ?case using Cons by simp
qed simp

subsection \<open>The order of last contact\<close>

definition rt_lru :: "system_time \<Rightarrow> routing_table \<Rightarrow> bool" where
  "rt_lru now t \<longleftrightarrow> (\<forall>i b. hm_get (rt_buckets t) i = Some b \<longrightarrow> kb_lru now b)"

lemma rt_lru_put: "rt_lru now t \<Longrightarrow> kb_lru now b \<Longrightarrow> rt_lru now (rt_put i b t)"
  by (auto simp: rt_lru_def hm.get_insert)

lemma rt_lru_later: "rt_lru now t \<Longrightarrow> unix_secs now \<le> unix_secs now' \<Longrightarrow> rt_lru now' t"
  by (auto simp: rt_lru_def intro: kb_lru_later)

lemma rt_lru_bucket: "rt_lru now t \<Longrightarrow> kb_lru now (rt_bucket t i)"
  by (auto simp: rt_lru_def split: option.split)

lemma rt_lru_touch: "rt_lru now t \<Longrightarrow> rt_lru now (fst (rt_touch now f j t))"
  by (rule rt_touch_cases [where t = t and j = j and now = now and f = f])
    (auto simp: rt_lru_def hm.get_insert kb_lru_update)

lemma rt_lru_apply:
  assumes "rt_inv t" "rt_lru (rt_op_time x) t"
  shows "rt_lru (rt_op_time x) (rt_apply x t)"
proof (cases x)
  case (RtUpdate now n)
  then show ?thesis
    using assms by (auto simp: rt_update_nosplit rt_lru_put kb_lru_update rt_lru_bucket split: option.split)
next
  case (RtRemove now j)
  then show ?thesis
    by (cases rule: rt_remove_cases [where t = t and j = j and now = now])
      (use assms RtRemove in \<open>auto simp: rt_lru_def hm.get_insert kb_lru_remove\<close>)
qed (use assms in \<open>simp_all add: rt_touch_defs rt_lru_touch\<close>)

lemma rt_run_lru:
  "sorted (map unix_secs (t0 # map rt_op_time ops @ [now])) \<Longrightarrow> rt_inv t \<Longrightarrow> rt_lru t0 t \<Longrightarrow>
   rt_lru now (run rt_apply ops t)"
proof (induction ops arbitrary: t t0)
  case Nil
  then show ?case by (auto intro: rt_lru_later)
next
  case (Cons x ops)
  have "rt_lru (rt_op_time x) t" using Cons.prems by (auto intro: rt_lru_later)
  then have "rt_lru (rt_op_time x) (rt_apply x t)" using Cons.prems(2) by (simp add: rt_lru_apply)
  moreover have "rt_inv (rt_apply x t)"
    using rt.step_inv [of t "rt_local t" "rt_k t" x] Cons.prems(2) by simp
  moreover have "sorted (map unix_secs (rt_op_time x # map rt_op_time ops @ [now]))"
    using Cons.prems(1) by simp
  ultimately show ?case using Cons.IH [of "rt_op_time x" "rt_apply x t"] by (simp only: run.simps)
qed

subsection \<open>A sample history\<close>

text \<open>
  A table of capacity 1 meets \<open>node_a\<close>, is offered \<open>node_b\<close> at once, and again 1000 seconds later.
\<close>

definition sample_history :: "rt_op list" where
  "sample_history =
     [RtUpdate 0 node_a, RtUpdate 0 node_b, RtUpdate (1000 * 10 ^ 9) node_b]"

definition sample_first :: "rt_op list" where
  "sample_first = [RtUpdate 0 node_a]"

lemma sample_history_state:
  "run rt_apply sample_first (rt_with_k id_zero 1) =
     rt_put 0 \<lparr>kb_k = 1, kb_local = id_zero, kb_prefix_len = 0,
       kb_nodes = [update_last_seen 0 node_a], kb_cache = []\<rparr> (rt_with_k id_zero 1)"
  by (simp add: sample_first_def rt_update_nosplit kb_update_def kb_new_def)

lemma sample_history_pending:
  "rt_update 0 node_b (run rt_apply sample_first (rt_with_k id_zero 1)) =
     (rt_put 0 \<lparr>kb_k = 1, kb_local = id_zero, kb_prefix_len = 0,
        kb_nodes = [update_last_seen 0 node_a], kb_cache = [update_last_seen 0 node_b]\<rparr>
        (rt_with_k id_zero 1),
      Ok (PendingPing (update_last_seen 0 node_a)))"
  using rt_update_nosplit [OF rt_run_inv(1), of 0 node_b sample_first id_zero 1]
  unfolding sample_history_state
  by (simp add: kb_update_def MIN_SUCCESS_RATE_def active_after_update rt_put_def)

lemma sample_history_final:
  "run rt_apply sample_history (rt_with_k id_zero 1) =
     rt_put 0 \<lparr>kb_k = 1, kb_local = id_zero, kb_prefix_len = 0,
       kb_nodes = [update_last_seen (1000 * 10 ^ 9) node_b], kb_cache = [update_last_seen 0 node_b]\<rparr>
       (rt_with_k id_zero 1)"
proof -
  let ?t = "run rt_apply (take 2 sample_history) (rt_with_k id_zero 1)"
  have t: "?t = fst (rt_update 0 node_b (run rt_apply sample_first (rt_with_k id_zero 1)))"
    by (simp add: sample_history_def sample_first_def)
  have "run rt_apply sample_history (rt_with_k id_zero 1) = fst (rt_update (1000 * 10 ^ 9) node_b ?t)"
    by (simp add: sample_history_def)
  moreover have "\<not> is_active (1000 * 10 ^ 9) (update_last_seen 0 node_a) NODE_TIMEOUT"
    by (simp add: is_active_At unix_secs_def NODE_TIMEOUT_def)
  ultimately show ?thesis
    using rt_update_nosplit [OF rt_run_inv(1), of "1000 * 10 ^ 9" node_b "take 2 sample_history" id_zero 1]
    unfolding t sample_history_pending
    by (simp add: kb_update_def MIN_SUCCESS_RATE_def rt_put_def)
qed

section \<open>Properties\<close>

text \<open>
  C10: a routing table that was created with any local identifier and any capacity and then
  underwent any sequence of updates, touches and removals never holds the local node, keeps every
  contact in the bucket of the first bit in which it differs from the local identifier, keeps at
  most \<open>k\<close> contacts per bucket and at most \<open>160 * k\<close> in all.
\<close>

theorem table_structure:
  fixes ops l k
  defines "t \<equiv> run rt_apply ops (rt_with_k l k)"
  shows "l \<notin> rt_ids t \<and> rt_node_count t \<le> 160 * k \<and>
    list_all (\<lambda>(i, b). i < 160 \<and> length (kb_nodes b) \<le> k \<and>
       list_all (\<lambda>n. bucket_index l (nid n) = Some i) (kb_nodes b)) (rt_buckets t)"
proof -
  have inv: "rt_inv t" and loc: "rt_local t = l" and k: "rt_k t = k"
    by (simp_all add: t_def rt_run_inv)
  have "i < 160 \<and> length (kb_nodes b) \<le> k \<and> list_all (\<lambda>n. bucket_index l (nid n) = Some i) (kb_nodes b)"
    if "(i, b) \<in> set (rt_buckets t)" for i b
  proof -
    have "hm_get (rt_buckets t) i = Some b"
      using that inv by (simp add: hm_get_Some_iff rt_inv_def)
    with inv have "i < 160" "kb_inv l i k b" by (auto simp: rt_inv_def loc k)
    then show ?thesis by (auto simp: kb_inv_def list_all_iff)
  qed
  with rt_local_absent [OF inv] rt_node_count_bound [OF inv] loc k show ?thesis
    by (auto simp: list_all_iff)
qed

text \<open>
  C12: in every table reached from an empty one, the recursive splitting update is the plain
  update of one bucket: no bucket is ever split, because the contacts of one bucket all have the
  same bit at the bucket's prefix length.
\<close>

theorem update_never_splits:
  fixes ops l k
  defines "t \<equiv> run rt_apply ops (rt_with_k l k)"
  shows "rt_update now n t =
    (case bucket_index l (nid n) of
       None \<Rightarrow> (t, Ok Unchanged)
     | Some i \<Rightarrow>
         let (b, r) = kb_update now n (case hm_get (rt_buckets t) i of Some b \<Rightarrow> b | None \<Rightarrow> kb_new l i k)
         in (rt_put i b t, outcome_map status_of r))"
proof -
  have inv: "rt_inv t" and loc: "rt_local t = l" and k: "rt_k t = k"
    by (simp_all add: t_def rt_run_inv)
  show ?thesis
    using rt_update_nosplit [OF inv, of now n, unfolded loc k]
    by (cases "bucket_index l (nid n)") (simp_all add: case_prod_beta)
qed

text \<open>
  C11: in every table reached from an empty one with a positive capacity, an update with a node
  other than the local one returns normally, and in one of two ways. Either the result is
  \<^verbatim>\<open>Updated\<close>, the table contains the node and holds it as the most recently seen contact of its
  bucket; or the result is \<^verbatim>\<open>PendingPing\<close> of the front of the node's bucket, the bucket is full,
  its front is active, the node waits in the replacement cache and no contact was added or lost.
\<close>

theorem update_outcome:
  fixes ops l k
  defines "t \<equiv> run rt_apply ops (rt_with_k l k)"
  assumes "0 < k" "nid n \<noteq> l"
  shows "(snd (rt_update now n t) = Ok Updated \<and> rt_contains (fst (rt_update now n t)) (nid n) \<and>
       (\<exists>i b. bucket_index l (nid n) = Some i \<and>
          hm_get (rt_buckets (fst (rt_update now n t))) i = Some b \<and>
          nid (last (kb_nodes b)) = nid n \<and> seen (last (kb_nodes b)) = At (unix_secs now))) \<or>
    (\<exists>i b f. bucket_index l (nid n) = Some i \<and>
       hm_get (rt_buckets (fst (rt_update now n t))) i = Some b \<and>
       snd (rt_update now n t) = Ok (PendingPing f) \<and> kb_nodes b \<noteq> [] \<and> f = hd (kb_nodes b) \<and>
       length (kb_nodes b) = k \<and> is_active now f NODE_TIMEOUT \<and> nid n \<in> ids (kb_cache b) \<and>
       rt_ids (fst (rt_update now n t)) = rt_ids t)"
proof -
  have inv: "rt_inv t" and loc: "rt_local t = l" and k: "rt_k t = k"
    by (simp_all add: t_def rt_run_inv)
  obtain i where i: "bucket_index l (nid n) = Some i"
    using assms(3) by (cases "bucket_index l (nid n)") (auto simp: bucket_index_None_iff)
  define b where "b = rt_bucket t i"
  have binv: "kb_inv l i k b" using rt_inv_bucket [OF inv, of i] by (simp add: b_def loc k)
  have upd: "rt_update now n t = (rt_put i (fst (kb_update now n b)) t,
      outcome_map status_of (snd (kb_update now n b)))"
    using rt_update_nosplit [OF inv, of now n] by (simp add: loc i b_def)
  have inv': "rt_inv (rt_put i (fst (kb_update now n b)) t)"
    using rt_update_inv [OF inv, of now n] by (simp add: upd)
  obtain u where u: "snd (kb_update now n b) = Ok u"
    using kb_update_ok [of n b now] binv assms(2,3) by (auto simp: kb_inv_def)
  show ?thesis
  proof (cases u)
    case KUpdated
    with u have r: "snd (kb_update now n b) = Ok KUpdated" by simp
    have "rt_contains (fst (rt_update now n t)) (nid n)"
      using kb_update_Updated(1) [OF r]
      by (simp add: upd rt_contains_def rt_bucket_index_def loc i kb_contains_iff)
    then show ?thesis using kb_update_Updated(2,3) [OF r] i r by (intro disjI1) (simp add: upd)
  next
    case (KPendingPing f)
    with u have r: "snd (kb_update now n b) = Ok (KPendingPing f)" by simp
    note p = kb_update_Pending [OF r]
    have "rt_ids (rt_put i (fst (kb_update now n b)) t) = rt_ids t"
      using rt_put_ids [OF inv inv'] p(1) by (simp add: b_def)
    then show ?thesis using p binv i r
      by (intro disjI2 exI [of _ i] exI [of _ "fst (kb_update now n b)"] exI [of _ f])
        (simp add: upd kb_inv_def)
  qed (use kb_update_not_KUnchanged [of now n b] u in simp)
qed

theorem update_outcome_witness:
  defines "t \<equiv> run rt_apply [RtUpdate 0 node_a] (rt_with_k id_zero 1)"
  shows "nid node_b \<noteq> id_zero \<and>
    ((snd (rt_update 5 node_b t) = Ok Updated \<and> rt_contains (fst (rt_update 5 node_b t)) (nid node_b)) \<or>
     (\<exists>f. snd (rt_update 5 node_b t) = Ok (PendingPing f) \<and> is_active 5 f NODE_TIMEOUT))"
  using update_outcome [of 1 node_b id_zero 5 "[RtUpdate 0 node_a]"]
  unfolding t_def by auto

text \<open>
  C13: asking a table for the closest \<open>cnt\<close> contacts to a target returns as many as there are, up
  to \<open>cnt\<close>, in order of increasing distance, and the contacts it leaves out are no closer than
  those it returns.
\<close>

theorem closest_nodes:
  "\<exists>rest. mset (rt_get_all_nodes t) = mset (rt_get_closest t target cnt) + mset rest \<and>
     sorted (map (\<lambda>n. distance (nid n) target) (rt_get_closest t target cnt @ rest)) \<and>
     length (rt_get_closest t target cnt) = min cnt (rt_node_count t)"
proof (intro exI conjI)
  let ?s = "sort_by_distance target (rt_get_all_nodes t)"
  have c: "rt_get_closest t target cnt = take cnt ?s"
    by (simp add: rt_get_closest_def rt_get_all_nodes_def)
  show "sorted (map (\<lambda>n. distance (nid n) target) (rt_get_closest t target cnt @ drop cnt ?s))"
    unfolding c append_take_drop_id by (rule sorted_sort_by_distance)
  show "mset (rt_get_all_nodes t) = mset (rt_get_closest t target cnt) + mset (drop cnt ?s)"
    unfolding c mset_append [symmetric] append_take_drop_id by simp
  show "length (rt_get_closest t target cnt) = min cnt (rt_node_count t)"
    unfolding c by (simp add: rt_node_count_eq min.commute)
qed

text \<open>
  C14: the closest contacts do not depend on the iteration order of the hash map of buckets: two
  tables with the same buckets in different orders give the same list, as long as no bucket lists
  an identifier twice, which holds for every table built by updates and touches.
\<close>

theorem closest_order_independent:
  assumes "list_all (\<lambda>x. \<not> is_removal x) ops"
    and "mset (rt_buckets t) = mset (rt_buckets (run rt_apply ops (rt_with_k l k)))"
  shows "rt_get_closest t target cnt = rt_get_closest (run rt_apply ops (rt_with_k l k)) target cnt"
proof -
  let ?u = "run rt_apply ops (rt_with_k l k)"
  have "rt_distinct ?u" using assms(1) by (simp add: rt_run_distinct rt_inv_with_k)
  then have d: "distinct (map nid (rt_get_all_nodes ?u))"
    by (rule rt_all_distinct [OF rt_run_inv(1)])
  have "mset (rt_get_all_nodes t) = mset (rt_get_all_nodes ?u)"
    using assms(2) unfolding rt_get_all_nodes_def hm_values_def
    by (metis (no_types, lifting) mset_concat mset_map map_map sum_mset_sum_list)
  then show ?thesis
    unfolding rt_get_closest_def Let_def rt_get_all_nodes_def [symmetric]
    using sort_by_distance_unique [OF _ d, of "rt_get_all_nodes t" target] by simp
qed

text \<open>Two contacts in two buckets, and the same buckets iterated in the opposite order.\<close>

definition node_near :: node where
  "node_near = new_node (from_bytes [0x40]) (SocketAddrV4 0x7F000001 4003)"

definition sample_two :: "rt_op list" where
  "sample_two = [RtUpdate 0 node_a, RtUpdate 0 node_near]"

lemma sample_two_buckets:
  "\<exists>b0 b1. rt_buckets (run rt_apply sample_two (rt_with_k id_zero 20)) = [(0, b0), (1, b1)] \<and>
     kb_nodes b0 = [update_last_seen 0 node_a] \<and> kb_nodes b1 = [update_last_seen 0 node_near]"
proof -
  have near: "bucket_index id_zero (nid node_near) = Some 1"
    by (simp add: bucket_index_Some_iff node_near_def id_zero_def bit_at_def bit_simps)
  then have "nid node_near \<noteq> id_zero" using bucket_index_self [of id_zero] by auto
  note near = near this
  have a: "run rt_apply [RtUpdate 0 node_a] (rt_with_k id_zero 20) =
      rt_put 0 \<lparr>kb_k = 20, kb_local = id_zero, kb_prefix_len = 0, kb_nodes = [update_last_seen 0 node_a], kb_cache = []\<rparr>
        (rt_with_k id_zero 20)"
    by (simp add: rt_update_nosplit kb_update_def kb_new_def)
  have "run rt_apply sample_two (rt_with_k id_zero 20) =
      fst (rt_update 0 node_near (run rt_apply [RtUpdate 0 node_a] (rt_with_k id_zero 20)))"
    by (simp add: sample_two_def)
  then show ?thesis
    using rt_update_nosplit [OF rt_run_inv(1), of 0 node_near "[RtUpdate 0 node_a]" id_zero 20] near
    unfolding a by (simp add: kb_update_def kb_new_def rt_with_k_def hm_insert_def hm_get_def)
qed

theorem closest_order_independent_witness:
  "let t = run rt_apply sample_two (rt_with_k id_zero 20); u = t\<lparr>rt_buckets := rev (rt_buckets t)\<rparr>
   in rt_get_all_nodes u \<noteq> rt_get_all_nodes t \<and> rt_get_closest u id_zero 2 = rt_get_closest t id_zero 2"
proof -
  let ?t = "run rt_apply sample_two (rt_with_k id_zero 20)"
  let ?u = "?t\<lparr>rt_buckets := rev (rt_buckets ?t)\<rparr>"
  have "update_last_seen 0 node_a \<noteq> update_last_seen 0 node_near"
    by (simp add: node_a_def node_near_def update_last_seen_def new_node_def node_id_eq_iff)
  then have "rt_get_all_nodes ?u \<noteq> rt_get_all_nodes ?t"
    using sample_two_buckets by (auto simp: rt_get_all_nodes_def hm_values_def)
  moreover have "list_all (\<lambda>x. \<not> is_removal x) sample_two" by (simp add: sample_two_def)
  moreover have "mset (rt_buckets ?u) = mset (rt_buckets ?t)" by simp
  ultimately show ?thesis unfolding Let_def by (intro conjI closest_order_independent)
qed

text \<open>
  C15: while the clock does not run backwards, a newcomer is deferred with \<^verbatim>\<open>PendingPing\<close> only when
  every contact of its bucket was seen within the last 15 minutes and is reliable, and the contact
  to be pinged is the least recently seen one.
\<close>

theorem deferral_justified:
  fixes ops l k
  defines "t \<equiv> run rt_apply ops (rt_with_k l k)"
  assumes "sorted (map unix_secs (map rt_op_time ops @ [now]))"
    and "snd (rt_update now n t) = Ok (PendingPing f)"
  shows "\<exists>i b. bucket_index l (nid n) = Some i \<and> hm_get (rt_buckets t) i = Some b \<and>
    length (kb_nodes b) = k \<and> f \<in> set (kb_nodes b) \<and>
    list_all (\<lambda>x. is_active now x NODE_TIMEOUT \<and> is_reliable (stats x) MIN_SUCCESS_RATE \<and>
      seen_secs f \<le> seen_secs x) (kb_nodes b)"
proof -
  have inv: "rt_inv t" and loc: "rt_local t = l" and k: "rt_k t = k"
    by (simp_all add: t_def rt_run_inv)
  have lru: "rt_lru now t"
    unfolding t_def
    by (rule rt_run_lru [where ?t0.0 = "-1"])
      (use assms(2) in \<open>auto simp: rt_lru_def unix_secs_def\<close>)
  obtain i where i: "bucket_index l (nid n) = Some i"
    using assms(3) rt_update_nosplit [OF inv, of now n] by (auto simp: loc split: option.splits)
  define b where "b = rt_bucket t i"
  have r: "snd (kb_update now n b) = Ok (KPendingPing f)"
    using assms(3) rt_update_nosplit [OF inv, of now n] i
    by (cases "snd (kb_update now n b)") (auto simp: loc b_def elim: status_of.elims)
  note p = kb_update_Pending [OF r]
  have "hm_get (rt_buckets t) i = Some b"
    using p(2) by (auto simp: b_def split: option.splits)
  moreover have "kb_inv l i k b" using rt_inv_bucket [OF inv, of i] by (simp add: b_def loc k)
  moreover have "kb_lru now b" using rt_lru_bucket [OF lru] by (simp add: b_def)
  moreover from p(2) obtain xs where "kb_nodes b = f # xs" by (cases "kb_nodes b") auto
  ultimately show ?thesis using i p(4,5) kb_update_Pending_reliable [OF r] kb_lru_front_active [of now b f xs]
    by (auto simp: kb_inv_def kb_lru_def list_all_iff)
qed

theorem deferral_justified_witness:
  "\<exists>b. hm_get (rt_buckets (run rt_apply sample_first (rt_with_k id_zero 1))) 0 = Some b \<and>
     length (kb_nodes b) = 1 \<and> update_last_seen 0 node_a \<in> set (kb_nodes b)"
  using deferral_justified [of sample_first 0 node_b id_zero 1 "update_last_seen 0 node_a"]
  unfolding sample_history_pending by (auto simp: sample_first_def)

text \<open>
  C33: recording the outcome of a request stores nothing: for every table, contact and response
  time, \<^verbatim>\<open>record_success\<close> and \<^verbatim>\<open>record_failure\<close> have exactly the effect of \<^verbatim>\<open>node_seen\<close>. In
  particular a failed request marks the contact as just seen, and no contact of the table ever
  becomes unreliable through its failures.
\<close>

theorem statistics_not_stored:
  "rt_record_success now j ms t = rt_node_seen now j t \<and>
   rt_record_failure now j t = rt_node_seen now j t"
  unfolding rt_touch_defs by (intro conjI rt_touch_same) simp_all

text \<open>
  C34: removing a contact does not always remove it: for any table and any identifier with a bucket
  that lists it at most once, \<^verbatim>\<open>remove\<close> returns the contact a lookup finds, and the table afterwards
  still contains the identifier exactly when it was listed and the front of the replacement cache
  of its bucket, which \<^verbatim>\<open>remove\<close> promotes, has the same identifier.
\<close>

theorem removed_contact_remains:
  assumes "bucket_index (rt_local t) j = Some i" "hm_get (rt_buckets t) i = Some b"
    and "distinct (map nid (kb_nodes b))"
  shows "snd (rt_remove now j t) = rt_get t j \<and>
    (rt_contains (fst (rt_remove now j t)) j \<longleftrightarrow>
       rt_contains t j \<and> kb_cache b \<noteq> [] \<and> nid (hd (kb_cache b)) = j)"
proof -
  let ?c = "fst (kb_remove now j b)"
  have r: "rt_remove now j t = (rt_put i ?c t, snd (kb_remove now j b))"
    using assms(1,2) by (simp add: rt_remove_def rt_bucket_index_def case_prod_beta)
  have "snd (kb_remove now j b) = kb_get b j \<and>
      (kb_contains ?c j \<longleftrightarrow> kb_contains b j \<and> kb_cache b \<noteq> [] \<and> nid (hd (kb_cache b)) = j)"
    by (rule kb_remove_exact) (rule assms(3))
  then show ?thesis
    unfolding r using assms(1,2)
    by (simp add: rt_get_def rt_contains_def rt_bucket_index_def hm.get_insert)
qed

text \<open>
  Such a cache arises when an inactive contact makes room: after the sample history \<open>node_b\<close> is
  both in the bucket and at the front of its cache.
\<close>

theorem removed_contact_remains_witness:
  "rt_contains (fst (rt_remove 5 (nid node_b) (run rt_apply sample_history (rt_with_k id_zero 1)))) (nid node_b)"
  using removed_contact_remains [of "run rt_apply sample_history (rt_with_k id_zero 1)" "nid node_b" 0 _ 5]
  unfolding sample_history_final by (simp add: rt_contains_def rt_bucket_index_def kb_contains_def)

text \<open>
  C16: a table built by updates and touches lists every identifier at most once, a lookup finds
  exactly the listed contacts, and each is found under its own identifier.
\<close>

theorem lookup_correct:
  fixes ops l k
  defines "t \<equiv> run rt_apply ops (rt_with_k l k)"
  assumes "list_all (\<lambda>x. \<not> is_removal x) ops"
  shows "distinct (map nid (rt_get_all_nodes t)) \<and>
    (rt_get t j = Some n \<longleftrightarrow> n \<in> set (rt_get_all_nodes t) \<and> nid n = j)"
proof -
  have inv: "rt_inv t" by (simp add: t_def rt_run_inv)
  have "rt_distinct t" using assms(2) by (simp add: t_def rt_run_distinct rt_inv_with_k)
  then have d: "distinct (map nid (rt_get_all_nodes t))" by (rule rt_all_distinct [OF inv])
  have "rt_get t j = Some n" if n: "n \<in> set (rt_get_all_nodes t)" "nid n = j"
  proof -
    have "rt_get t j \<noteq> None"
      using n rt_contains_iff [OF inv, of j] unfolding rt_get_contains by blast
    then obtain m where m: "rt_get t j = Some m" by blast
    with rt_get_SomeD [OF inv m] n d have "m = n"
      unfolding distinct_map inj_on_def by metis
    with m show ?thesis by simp
  qed
  with d rt_get_SomeD [OF inv, of j n] show ?thesis by blast
qed

theorem lookup_correct_witness:
  "rt_get (run rt_apply sample_first (rt_with_k id_zero 1)) (nid node_a) =
     Some (update_last_seen 0 node_a)"
proof -
  have "list_all (\<lambda>x. \<not> is_removal x) sample_first" by (simp add: sample_first_def)
  from lookup_correct [OF this, of id_zero 1 "nid node_a" "update_last_seen 0 node_a"]
  show ?thesis
    unfolding sample_history_state by (simp add: rt_get_all_nodes_def hm_values_def hm_insert_def)
qed

end
