(* ===== verification/Storage.thy ===== *)
theory Storage
  imports Node_Id
begin

text \<open>
  \<^verbatim>\<open>src/src/storage.rs\<close>: the \<^verbatim>\<open>Storage\<close> trait as a dictionary of operations, its in-memory
  implementation with per-entry time to live, and \<^verbatim>\<open>DualStorage\<close>, which keeps a second copy in a
  shared map. A clock reading is an argument; adding a time to live to an instant panics when it
  overflows the clock. The locale \<open>kv_storage\<close> states what a client of the trait may rely on and
  is interpreted for both implementations. Log output is not modelled.
\<close>

section \<open>The trait\<close>

record 's storage_impl =
  sto_store :: "instant \<Rightarrow> node_id \<Rightarrow> u8 list \<Rightarrow> 's \<Rightarrow> 's \<times> unit outcome"
  sto_get :: "instant \<Rightarrow> node_id \<Rightarrow> 's \<Rightarrow> 's \<times> u8 list outcome"
  sto_remove :: "node_id \<Rightarrow> 's \<Rightarrow> 's \<times> unit outcome"
  sto_keys :: "'s \<Rightarrow> node_id list"
  sto_cleanup :: "instant \<Rightarrow> 's \<Rightarrow> 's \<times> unit outcome"

section \<open>Memory storage\<close>

definition DEFAULT_TTL :: duration where
  "DEFAULT_TTL = from_secs 86400"

record storage_entry =
  entry_value :: "u8 list"
  entry_timestamp :: instant
  entry_ttl :: duration

definition default_entry :: "instant \<Rightarrow> storage_entry" where
  "default_entry now = \<lparr>entry_value = [], entry_timestamp = now, entry_ttl = DEFAULT_TTL\<rparr>"

record memory_storage =
  ms_storage :: "(node_id \<times> storage_entry) list"
  ms_default_ttl :: duration
  ms_debug_name :: string

text \<open>\<^verbatim>\<open>#[derive(Default)]\<close>: the derived default has a zero time to live.\<close>

definition ms_default :: memory_storage where
  "ms_default = \<lparr>ms_storage = [], ms_default_ttl = 0, ms_debug_name = ''''\<rparr>"

definition ms_new :: memory_storage where
  "ms_new = \<lparr>ms_storage = [], ms_default_ttl = DEFAULT_TTL, ms_debug_name = ''default''\<rparr>"

definition ms_with_ttl :: "duration \<Rightarrow> memory_storage" where
  "ms_with_ttl ttl = \<lparr>ms_storage = [], ms_default_ttl = ttl, ms_debug_name = ''default''\<rparr>"

definition ms_with_name :: "string \<Rightarrow> memory_storage" where
  "ms_with_name name = \<lparr>ms_storage = [], ms_default_ttl = DEFAULT_TTL, ms_debug_name = name\<rparr>"

definition ms_with_name_and_ttl :: "string \<Rightarrow> duration \<Rightarrow> memory_storage" where
  "ms_with_name_and_ttl name ttl = \<lparr>ms_storage = [], ms_default_ttl = ttl, ms_debug_name = name\<rparr>"

definition ms_get_all_keys :: "memory_storage \<Rightarrow> node_id list" where
  "ms_get_all_keys s = hm_keys (ms_storage s)"

definition ms_iter :: "memory_storage \<Rightarrow> (node_id \<times> u8 list) list" where
  "ms_iter s = map (\<lambda>(k, entry). (k, entry_value entry)) (ms_storage s)"

definition entry_expiry :: "storage_entry \<Rightarrow> instant outcome" where
  "entry_expiry e = instant_add (entry_timestamp e) (entry_ttl e)"

text \<open>
  \<^verbatim>\<open>HashMap::retain\<close> with the closure of \<^verbatim>\<open>cleanup\<close>: a panic of the closure leaves the entries it
  has not visited.
\<close>

fun retain_unexpired ::
  "instant \<Rightarrow> (node_id \<times> storage_entry) list \<Rightarrow> (node_id \<times> storage_entry) list \<times> unit outcome" where
  "retain_unexpired now [] = ([], Ok ())"
| "retain_unexpired now ((k, e) # es) =
     (case entry_expiry e of
        Ok expiry \<Rightarrow>
          (let (es', r) = retain_unexpired now es
           in (if expiry > now then (k, e) # es' else es', r))
      | Err x \<Rightarrow> ((k, e) # es, Err x)
      | Panic x \<Rightarrow> ((k, e) # es, Panic x))"

definition ms_cleanup :: "instant \<Rightarrow> memory_storage \<Rightarrow> memory_storage \<times> unit outcome" where
  "ms_cleanup now s =
     (let (es, r) = retain_unexpired now (ms_storage s) in (s\<lparr>ms_storage := es\<rparr>, r))"

definition ms_store_with_ttl ::
  "instant \<Rightarrow> node_id \<Rightarrow> u8 list \<Rightarrow> duration \<Rightarrow> memory_storage \<Rightarrow> memory_storage \<times> unit outcome" where
  "ms_store_with_ttl now key value ttl s =
     (let entry = \<lparr>entry_value = value, entry_timestamp = now, entry_ttl = ttl\<rparr>
      in (s\<lparr>ms_storage := hm_insert key entry (ms_storage s)\<rparr>, Ok ()))"

definition ms_create_shared :: "memory_storage \<Rightarrow> (node_id \<times> u8 list) list \<times> string" where
  "ms_create_shared s =
     (fold (\<lambda>(k, entry) m. hm_insert k (entry_value entry) m) (ms_storage s) [], ms_debug_name s)"

definition ms_store :: "instant \<Rightarrow> node_id \<Rightarrow> u8 list \<Rightarrow> memory_storage \<Rightarrow> memory_storage \<times> unit outcome" where
  "ms_store now key value s = ms_store_with_ttl now key value (ms_default_ttl s) s"

definition ms_get :: "instant \<Rightarrow> node_id \<Rightarrow> memory_storage \<Rightarrow> memory_storage \<times> u8 list outcome" where
  "ms_get now key s =
     (case hm_get (ms_storage s) key of
        None \<Rightarrow> (s, Err ValueNotFound)
      | Some entry \<Rightarrow>
          (case entry_expiry entry of
             Ok expiry \<Rightarrow> if expiry > now then (s, Ok (entry_value entry)) else (s, Err ValueNotFound)
           | Err x \<Rightarrow> (s, Err x)
           | Panic x \<Rightarrow> (s, Panic x)))"

definition ms_remove :: "node_id \<Rightarrow> memory_storage \<Rightarrow> memory_storage \<times> unit outcome" where
  "ms_remove key s =
     (case hm_get (ms_storage s) key of
        Some _ \<Rightarrow> (s\<lparr>ms_storage := hm_remove key (ms_storage s)\<rparr>, Ok ())
      | None \<Rightarrow> (s, Err ValueNotFound))"

definition memory_impl :: "memory_storage storage_impl" where
  "memory_impl = \<lparr>sto_store = ms_store, sto_get = ms_get, sto_remove = ms_remove,
     sto_keys = ms_get_all_keys, sto_cleanup = ms_cleanup\<rparr>"

section \<open>Dual storage\<close>

record dual_storage =
  ds_memory :: memory_storage
  ds_shared :: "(node_id \<times> u8 list) list"

definition ds_new :: "string \<Rightarrow> dual_storage" where
  "ds_new name =
     (let memory = ms_with_name name;
          (shared, _) = ms_create_shared memory
      in \<lparr>ds_memory = memory, ds_shared = shared\<rparr>)"

definition ds_store :: "instant \<Rightarrow> node_id \<Rightarrow> u8 list \<Rightarrow> dual_storage \<Rightarrow> dual_storage \<times> unit outcome" where
  "ds_store now key value s =
     (let (memory, result) = ms_store now key value (ds_memory s)
      in (s\<lparr>ds_memory := memory, ds_shared := hm_insert key value (ds_shared s)\<rparr>, result))"

definition ds_get :: "instant \<Rightarrow> node_id \<Rightarrow> dual_storage \<Rightarrow> dual_storage \<times> u8 list outcome" where
  "ds_get now key s =
     (case ms_get now key (ds_memory s) of
        (memory, Ok value) \<Rightarrow> (s\<lparr>ds_memory := memory\<rparr>, Ok value)
      | (memory, Panic x) \<Rightarrow> (s\<lparr>ds_memory := memory\<rparr>, Panic x)
      | (memory, Err _) \<Rightarrow>
          (case hm_get (ds_shared s) key of
             Some value \<Rightarrow> (s\<lparr>ds_memory := fst (ms_store now key value memory)\<rparr>, Ok value)
           | None \<Rightarrow> (s\<lparr>ds_memory := memory\<rparr>, Err ValueNotFound)))"

definition ds_remove :: "node_id \<Rightarrow> dual_storage \<Rightarrow> dual_storage \<times> unit outcome" where
  "ds_remove key s =
     (let (memory, result) = ms_remove key (ds_memory s)
      in (s\<lparr>ds_memory := memory, ds_shared := hm_remove key (ds_shared s)\<rparr>, result))"

definition ds_keys :: "dual_storage \<Rightarrow> node_id list" where
  "ds_keys s = ms_get_all_keys (ds_memory s)"

definition ds_cleanup :: "instant \<Rightarrow> dual_storage \<Rightarrow> dual_storage \<times> unit outcome" where
  "ds_cleanup now s =
     (case ms_cleanup now (ds_memory s) of
        (memory, Ok _) \<Rightarrow>
          let valid_keys = set (ms_get_all_keys memory)
          in (s\<lparr>ds_memory := memory, ds_shared := hm_retain (\<lambda>k _. k \<in> valid_keys) (ds_shared s)\<rparr>, Ok ())
      | (memory, Err x) \<Rightarrow> (s\<lparr>ds_memory := memory\<rparr>, Err x)
      | (memory, Panic x) \<Rightarrow> (s\<lparr>ds_memory := memory\<rparr>, Panic x))"

definition dual_impl :: "dual_storage storage_impl" where
  "dual_impl = \<lparr>sto_store = ds_store, sto_get = ds_get, sto_remove = ds_remove,
     sto_keys = ds_keys, sto_cleanup = ds_cleanup\<rparr>"

section \<open>The contract of the trait\<close>

text \<open>
  \<open>live now s\<close> is the map a client can read at the instant \<open>now\<close>; \<open>fits now s\<close> says that the
  clock has room for one more time to live.
\<close>

locale kv_storage =
  fixes impl :: "'s storage_impl"
    and live :: "instant \<Rightarrow> 's \<Rightarrow> node_id \<Rightarrow> u8 list option"
    and inv :: "'s \<Rightarrow> bool"
    and fits :: "instant \<Rightarrow> 's \<Rightarrow> bool"
  assumes store_result: "inv s \<Longrightarrow> fits now s \<Longrightarrow> snd (sto_store impl now k v s) = Ok ()"
    and store_live: "inv s \<Longrightarrow> fits now s \<Longrightarrow>
      live now (fst (sto_store impl now k v s)) = (live now s)(k \<mapsto> v)"
    and store_inv: "inv s \<Longrightarrow> fits now s \<Longrightarrow> inv (fst (sto_store impl now k v s))"
    and store_fits: "fits t (fst (sto_store impl now k v s)) = fits t s"
    and get_result: "inv s \<Longrightarrow> fits now s \<Longrightarrow> snd (sto_get impl now k s) =
      (case live now s k of Some v \<Rightarrow> Ok v | None \<Rightarrow> Err ValueNotFound)"
    and get_live: "inv s \<Longrightarrow> fits now s \<Longrightarrow> live now (fst (sto_get impl now k s)) = live now s"
    and get_inv: "inv s \<Longrightarrow> fits now s \<Longrightarrow> inv (fst (sto_get impl now k s))"
    and get_fits: "fits t (fst (sto_get impl now k s)) = fits t s"
    and remove_live: "inv s \<Longrightarrow> live now (fst (sto_remove impl k s)) = (live now s)(k := None)"
    and remove_inv: "inv s \<Longrightarrow> inv (fst (sto_remove impl k s))"
    and remove_fits: "fits t (fst (sto_remove impl k s)) = fits t s"
    and cleanup_result: "inv s \<Longrightarrow> snd (sto_cleanup impl now s) = Ok ()"
    and cleanup_live: "inv s \<Longrightarrow> live now (fst (sto_cleanup impl now s)) \<subseteq>\<^sub>m live now s"
    and cleanup_inv: "inv s \<Longrightarrow> inv (fst (sto_cleanup impl now s))"
begin

lemma read_your_write:
  "inv s \<Longrightarrow> fits now s \<Longrightarrow> snd (sto_get impl now k (fst (sto_store impl now k v s))) = Ok v"
  by (simp add: get_result store_inv store_fits store_live)

lemma write_keeps_others:
  "inv s \<Longrightarrow> fits now s \<Longrightarrow> k' \<noteq> k \<Longrightarrow>
   snd (sto_get impl now k' (fst (sto_store impl now k v s))) = snd (sto_get impl now k' s)"
  by (simp add: get_result store_inv store_fits store_live)

lemma read_after_remove:
  "inv s \<Longrightarrow> fits now s \<Longrightarrow>
   snd (sto_get impl now k (fst (sto_remove impl k s))) = Err ValueNotFound"
  by (simp add: get_result remove_inv remove_fits remove_live)

lemma get_stable:
  "inv s \<Longrightarrow> fits now s \<Longrightarrow> snd (sto_get impl now k' (fst (sto_get impl now k s))) = snd (sto_get impl now k' s)"
  by (simp add: get_result get_inv get_fits get_live)

lemma get_no_panic: "inv s \<Longrightarrow> fits now s \<Longrightarrow> \<not> panics (snd (sto_get impl now k s))"
  by (simp add: get_result split: option.split)

end

section \<open>Memory storage meets the contract\<close>

abbreviation expiry :: "storage_entry \<Rightarrow> nat" where
  "expiry e \<equiv> entry_timestamp e + entry_ttl e"

definition ms_live :: "instant \<Rightarrow> memory_storage \<Rightarrow> node_id \<Rightarrow> u8 list option" where
  "ms_live now s k =
     (case hm_get (ms_storage s) k of
        None \<Rightarrow> None
      | Some e \<Rightarrow> if now < expiry e then Some (entry_value e) else None)"

definition ms_inv :: "memory_storage \<Rightarrow> bool" where
  "ms_inv s \<longleftrightarrow> hm_wf (ms_storage s) \<and> 0 < ms_default_ttl s \<and>
     (\<forall>k e. hm_get (ms_storage s) k = Some e \<longrightarrow> expiry e < INSTANT_LIMIT)"

definition ms_fits :: "instant \<Rightarrow> memory_storage \<Rightarrow> bool" where
  "ms_fits now s \<longleftrightarrow> now + ms_default_ttl s < INSTANT_LIMIT"

lemma entry_expiry_Ok: "expiry e < INSTANT_LIMIT \<Longrightarrow> entry_expiry e = Ok (expiry e)"
  by (simp add: entry_expiry_def instant_add_def)

lemma retain_unexpired_eq:
  "(\<And>k e. (k, e) \<in> set es \<Longrightarrow> expiry e < INSTANT_LIMIT) \<Longrightarrow>
   retain_unexpired now es = (hm_retain (\<lambda>_ e. now < expiry e) es, Ok ())"
proof (induction es)
  case (Cons x es)
  obtain k e where x: "x = (k, e)" by force
  have "retain_unexpired now es = (hm_retain (\<lambda>_ e. now < expiry e) es, Ok ())"
    using Cons.prems by (intro Cons.IH) (meson list.set_intros(2))
  moreover have "expiry e < INSTANT_LIMIT" using Cons.prems [of k e] x by simp
  ultimately show ?case by (simp add: x entry_expiry_Ok hm_retain_def)
qed (simp add: hm_retain_def)

lemma ms_cleanup_eq:
  assumes "ms_inv s"
  shows "ms_cleanup now s = (s\<lparr>ms_storage := hm_retain (\<lambda>_ e. now < expiry e) (ms_storage s)\<rparr>, Ok ())"
proof -
  have "expiry e < INSTANT_LIMIT" if "(k, e) \<in> set (ms_storage s)" for k e
    using that assms hm_get_Some_iff [of "ms_storage s" k e] by (auto simp: ms_inv_def)
  then show ?thesis by (simp add: ms_cleanup_def retain_unexpired_eq)
qed

lemma ms_get_eq:
  assumes "ms_inv s"
  shows "ms_get now k s = (s, case ms_live now s k of Some v \<Rightarrow> Ok v | None \<Rightarrow> Err ValueNotFound)"
  using assms by (auto simp: ms_get_def ms_live_def ms_inv_def entry_expiry_Ok split: option.splits)

lemma ms_cleanup_get:
  assumes "ms_inv s"
  shows "hm_get (ms_storage (fst (ms_cleanup now s))) k =
    (case hm_get (ms_storage s) k of None \<Rightarrow> None | Some e \<Rightarrow> if now < expiry e then Some e else None)"
  using assms by (simp add: ms_cleanup_eq ms_inv_def hm.get_retain)

lemma ms_store_simps [simp]:
  "snd (ms_store now k v s) = Ok ()"
  "ms_storage (fst (ms_store now k v s)) =
     hm_insert k \<lparr>entry_value = v, entry_timestamp = now, entry_ttl = ms_default_ttl s\<rparr> (ms_storage s)"
  "ms_default_ttl (fst (ms_store now k v s)) = ms_default_ttl s"
  by (simp_all add: ms_store_def ms_store_with_ttl_def)

lemma ms_remove_simps [simp]:
  "hm_get (ms_storage (fst (ms_remove k s))) = (hm_get (ms_storage s))(k := None)"
  "ms_default_ttl (fst (ms_remove k s)) = ms_default_ttl s"
  by (auto simp: ms_remove_def hm.get_remove split: option.splits)

lemma ms_remove_wf: "hm_wf (ms_storage s) \<Longrightarrow> hm_wf (ms_storage (fst (ms_remove k s)))"
  by (auto simp: ms_remove_def hm.invar_remove split: option.splits)

lemma ms_store_inv: "ms_inv s \<Longrightarrow> ms_fits now s \<Longrightarrow> ms_inv (fst (ms_store now k v s))"
  by (auto simp: ms_inv_def ms_fits_def hm.invar_insert hm.get_insert)

lemma ms_remove_inv: "ms_inv s \<Longrightarrow> ms_inv (fst (ms_remove k s))"
  by (auto simp: ms_inv_def ms_remove_wf)

lemma ms_cleanup_inv: "ms_inv s \<Longrightarrow> ms_inv (fst (ms_cleanup now s))"
  using ms_cleanup_get [of s now]
  by (auto simp: ms_inv_def ms_cleanup_eq hm.invar_retain hm.get_retain split: option.splits if_splits)

lemma ms_inv_new [simp]: "ms_inv ms_new" "ms_inv (ms_with_name name)"
  by (simp_all add: ms_inv_def ms_new_def ms_with_name_def DEFAULT_TTL_def from_secs_def)

lemma ms_get_fst [simp]: "fst (ms_get now k s) = s"
  by (auto simp: ms_get_def split: option.split outcome.split)

interpretation mem: kv_storage memory_impl ms_live ms_inv ms_fits
proof (unfold_locales, goal_cases)
  case (2 s now k v) then show ?case
    by (auto simp: memory_impl_def ms_live_def ms_inv_def hm.get_insert fun_eq_iff)
next
  case (5 s now k) then show ?case by (simp add: memory_impl_def ms_get_eq)
next
  case (9 s now k) then show ?case
    by (auto simp: memory_impl_def ms_live_def fun_eq_iff)
next
  case (12 s now) then show ?case by (simp add: memory_impl_def ms_cleanup_eq)
next
  case (13 s now) then show ?case
    by (auto simp: memory_impl_def ms_live_def ms_cleanup_get map_le_def split: option.splits)
qed (simp_all add: memory_impl_def ms_store_inv ms_remove_inv ms_cleanup_inv ms_fits_def)

section \<open>Dual storage meets the contract\<close>

text \<open>
  Every value in memory is in the shared map too, so the shared map alone decides what can be
  read: the time to live of the memory entries plays no role between two cleanups.
\<close>

definition ds_live :: "instant \<Rightarrow> dual_storage \<Rightarrow> node_id \<Rightarrow> u8 list option" where
  "ds_live now s = hm_get (ds_shared s)"

definition ds_inv :: "dual_storage \<Rightarrow> bool" where
  "ds_inv s \<longleftrightarrow> ms_inv (ds_memory s) \<and> hm_wf (ds_shared s) \<and>
     (\<forall>k e. hm_get (ms_storage (ds_memory s)) k = Some e \<longrightarrow>
        hm_get (ds_shared s) k = Some (entry_value e))"

definition ds_fits :: "instant \<Rightarrow> dual_storage \<Rightarrow> bool" where
  "ds_fits now s \<longleftrightarrow> ms_fits now (ds_memory s)"

lemma ds_store_eq:
  "ds_store now k v s =
     (s\<lparr>ds_memory := fst (ms_store now k v (ds_memory s)), ds_shared := hm_insert k v (ds_shared s)\<rparr>, Ok ())"
  by (simp add: ds_store_def case_prod_beta)

lemma ds_remove_eq:
  "ds_remove k s =
     (s\<lparr>ds_memory := fst (ms_remove k (ds_memory s)), ds_shared := hm_remove k (ds_shared s)\<rparr>,
      snd (ms_remove k (ds_memory s)))"
  by (simp add: ds_remove_def case_prod_beta)

lemma ds_cleanup_eq:
  fixes now
  assumes "ds_inv s"
  defines "m \<equiv> fst (ms_cleanup now (ds_memory s))"
  shows "ds_cleanup now s =
    (s\<lparr>ds_memory := m, ds_shared := hm_retain (\<lambda>k _. k \<in> set (ms_get_all_keys m)) (ds_shared s)\<rparr>, Ok ())"
  using assms by (simp add: ds_cleanup_def ds_inv_def ms_cleanup_eq)

lemma ds_get_eq:
  assumes "ds_inv s"
  shows "snd (ds_get now k s) = (case hm_get (ds_shared s) k of Some v \<Rightarrow> Ok v | None \<Rightarrow> Err ValueNotFound)"
    and "ds_shared (fst (ds_get now k s)) = ds_shared s"
    and "fst (ds_get now k s) = s \<or>
      (\<exists>v. hm_get (ds_shared s) k = Some v \<and>
           fst (ds_get now k s) = s\<lparr>ds_memory := fst (ms_store now k v (ds_memory s))\<rparr>)"
  using assms by (auto simp: ds_get_def ds_inv_def ms_get_eq ms_live_def split: option.splits)

lemma ds_store_inv: "ds_inv s \<Longrightarrow> ds_fits now s \<Longrightarrow> ds_inv (fst (ds_store now k v s))"
  by (auto simp: ds_inv_def ds_fits_def ds_store_eq ms_store_inv hm.invar_insert hm.get_insert)

lemma ds_get_inv: "ds_inv s \<Longrightarrow> ds_fits now s \<Longrightarrow> ds_inv (fst (ds_get now k s))"
  using ds_get_eq(3) [of s now k]
  by (auto simp: ds_inv_def ds_fits_def ms_store_inv hm.get_insert split: if_splits)

lemma ds_remove_inv: "ds_inv s \<Longrightarrow> ds_inv (fst (ds_remove k s))"
  by (auto simp: ds_inv_def ds_remove_eq ms_remove_inv hm.invar_remove hm.get_remove)

lemma ds_cleanup_inv: "ds_inv s \<Longrightarrow> ds_inv (fst (ds_cleanup now s))"
proof -
  assume inv: "ds_inv s"
  let ?m = "fst (ms_cleanup now (ds_memory s))"
  have m: "ms_inv ?m" using inv by (simp add: ds_inv_def ms_cleanup_inv)
  then have keys: "k \<in> set (ms_get_all_keys ?m) \<longleftrightarrow> hm_get (ms_storage ?m) k \<noteq> None" for k
    by (simp add: ms_get_all_keys_def ms_inv_def hm.key_iff)
  have "hm_get (ds_shared s) k = Some (entry_value e) \<and> k \<in> set (ms_get_all_keys ?m)"
    if "hm_get (ms_storage ?m) k = Some e" for k e
    using that inv by (auto simp: keys ms_cleanup_get ds_inv_def split: option.splits if_splits)
  then show ?thesis
    using inv m by (auto simp: ds_cleanup_eq [OF inv] ds_inv_def hm.invar_retain hm.get_retain)
qed

interpretation dual: kv_storage dual_impl ds_live ds_inv ds_fits
proof (unfold_locales, goal_cases)
  case (13 s now)
  then have "hm_wf (ds_shared s)" by (simp add: ds_inv_def)
  with 13 show ?case
    by (auto simp: dual_impl_def ds_live_def ds_cleanup_eq map_le_def hm.get_retain
        split: option.splits if_splits)
next
  case (8 t now k s)
  show ?case
    by (auto simp: dual_impl_def ds_fits_def ms_fits_def ds_get_def ms_get_def
        split: option.split outcome.split)
next
  case (3 s now k v) then show ?case by (simp add: dual_impl_def ds_store_inv)
next
  case (10 s k) then show ?case by (simp add: dual_impl_def ds_remove_inv)
next
  case (14 s now) then show ?case by (simp add: dual_impl_def ds_cleanup_inv)
qed (simp_all add: dual_impl_def ds_live_def ds_store_eq ds_remove_eq ds_cleanup_eq ds_get_eq
    ds_get_inv ds_fits_def ms_fits_def hm.get_insert hm.get_remove)

section \<open>Sequences of operations\<close>

text \<open>
  The operations of the trait that change a storage, for any implementation.
\<close>

datatype storage_op =
    OpStore instant node_id "u8 list"
  | OpGet instant node_id
  | OpRemove node_id
  | OpCleanup instant

fun sto_apply :: "'s storage_impl \<Rightarrow> storage_op \<Rightarrow> 's \<Rightarrow> 's" where
  "sto_apply impl (OpStore now k v) s = fst (sto_store impl now k v s)"
| "sto_apply impl (OpGet now k) s = fst (sto_get impl now k s)"
| "sto_apply impl (OpRemove k) s = fst (sto_remove impl k s)"
| "sto_apply impl (OpCleanup now) s = fst (sto_cleanup impl now s)"

fun op_time :: "storage_op \<Rightarrow> instant" where
  "op_time (OpStore now _ _) = now"
| "op_time (OpGet now _) = now"
| "op_time (OpRemove _) = 0"
| "op_time (OpCleanup now) = now"

fun writes :: "node_id \<Rightarrow> storage_op \<Rightarrow> bool" where
  "writes k (OpStore _ k' _) \<longleftrightarrow> k' = k"
| "writes k (OpRemove k') \<longleftrightarrow> k' = k"
| "writes k _ \<longleftrightarrow> False"

text \<open>
  The entry of one key under operations that do not write it: it stays as it is until a cleanup
  at or after its expiry drops it.
\<close>

definition keeps_entry :: "node_id \<Rightarrow> storage_entry \<Rightarrow> instant \<Rightarrow> duration \<Rightarrow> memory_storage \<Rightarrow> bool" where
  "keeps_entry k e t1 ttl s \<longleftrightarrow> ms_inv s \<and> ms_default_ttl s = ttl \<and>
     (hm_get (ms_storage s) k = Some e \<or> hm_get (ms_storage s) k = None \<and> expiry e \<le> t1)"

lemma keeps_entry_step:
  assumes "keeps_entry k e t1 ttl s" "\<not> writes k x" "op_time x \<le> t1" "op_time x + ttl < INSTANT_LIMIT"
  shows "keeps_entry k e t1 ttl (sto_apply memory_impl x s)"
proof (cases x)
  case (OpStore now k' v)
  then show ?thesis
    using assms by (auto simp: keeps_entry_def memory_impl_def ms_store_inv ms_fits_def hm.get_insert)
next
  case (OpRemove k')
  then show ?thesis using assms by (auto simp: keeps_entry_def memory_impl_def ms_remove_inv)
next
  case (OpCleanup now)
  have "ms_default_ttl (fst (ms_cleanup now s)) = ttl"
    using assms(1) by (simp add: keeps_entry_def ms_cleanup_eq)
  then show ?thesis
    using OpCleanup assms(1,3)
    by (auto simp: keeps_entry_def memory_impl_def ms_cleanup_inv ms_cleanup_get split: option.splits)
qed (use assms in \<open>simp add: memory_impl_def\<close>)

lemma keeps_entry_run:
  "keeps_entry k e t1 ttl s \<Longrightarrow>
   list_all (\<lambda>x. \<not> writes k x \<and> op_time x \<le> t1 \<and> op_time x + ttl < INSTANT_LIMIT) ops \<Longrightarrow>
   keeps_entry k e t1 ttl (run (sto_apply memory_impl) ops s)"
  by (induction ops arbitrary: s) (auto intro: keeps_entry_step)

definition id_sample :: node_id where
  "id_sample = from_bytes [1]"

text \<open>Under operations that fit the clock the dual storage keeps its invariant.\<close>

lemma ds_step_inv:
  assumes "ds_inv s" "ms_default_ttl (ds_memory s) = ttl" "op_time x + ttl < INSTANT_LIMIT"
  shows "ds_inv (sto_apply dual_impl x s) \<and> ms_default_ttl (ds_memory (sto_apply dual_impl x s)) = ttl"
proof -
  have f: "ds_fits (op_time x) s" using assms by (simp add: ds_fits_def ms_fits_def)
  have ttl: "ms_default_ttl (fst (ms_cleanup now (ds_memory s))) = ms_default_ttl (ds_memory s)" for now
    using assms(1) by (simp add: ds_inv_def ms_cleanup_eq)
  show ?thesis
  proof (cases x)
    case (OpGet now k)
    then have "ds_inv (fst (ds_get now k s))" using assms(1) f by (simp add: ds_get_inv)
    with OpGet ds_get_eq(3) [OF assms(1), of now k] assms(2) show ?thesis
      by (auto simp: dual_impl_def)
  next
    case (OpCleanup now)
    then show ?thesis
      using ds_cleanup_inv [OF assms(1), of now] assms(2) ttl
      by (simp add: dual_impl_def ds_cleanup_eq [OF assms(1)])
  next
    case (OpStore now k v)
    then show ?thesis using ds_store_inv [OF assms(1), of now k v] f assms(2)
      by (simp add: dual_impl_def ds_store_eq)
  next
    case (OpRemove k)
    then show ?thesis using ds_remove_inv [OF assms(1), of k] assms(2)
      by (simp add: dual_impl_def ds_remove_eq)
  qed
qed

lemma ds_run_inv:
  "ds_inv s \<Longrightarrow> ms_default_ttl (ds_memory s) = ttl \<Longrightarrow>
   list_all (\<lambda>x. op_time x + ttl < INSTANT_LIMIT) ops \<Longrightarrow>
   ds_inv (run (sto_apply dual_impl) ops s) \<and>
   ms_default_ttl (ds_memory (run (sto_apply dual_impl) ops s)) = ttl"
  by (induction ops arbitrary: s) (auto dest: ds_step_inv)

lemma ds_inv_new: "ds_inv (ds_new name)" "ms_default_ttl (ds_memory (ds_new name)) = DEFAULT_TTL"
  by (auto simp: ds_new_def ds_inv_def ms_create_shared_def ms_with_name_def [of name]
      ms_inv_def DEFAULT_TTL_def from_secs_def)

section \<open>Abstract specification\<close>

text \<open>
  What a memory storage promises, without entries, hash maps and overflow: a map from keys to
  values with the instant at which they expire.
\<close>

type_synonym timed_map = "node_id \<Rightarrow> (u8 list \<times> instant) option"

fun timed_step :: "duration \<Rightarrow> storage_op \<Rightarrow> timed_map \<Rightarrow> timed_map" where
  "timed_step ttl (OpStore now k v) m = m(k \<mapsto> (v, now + ttl))"
| "timed_step ttl (OpGet now k) m = m"
| "timed_step ttl (OpRemove k) m = m(k := None)"
| "timed_step ttl (OpCleanup now) m =
     (\<lambda>k. case m k of Some (v, t) \<Rightarrow> if now < t then Some (v, t) else None | None \<Rightarrow> None)"

definition timed_get :: "instant \<Rightarrow> node_id \<Rightarrow> timed_map \<Rightarrow> u8 list outcome" where
  "timed_get now k m =
     (case m k of Some (v, t) \<Rightarrow> if now < t then Ok v else Err ValueNotFound | None \<Rightarrow> Err ValueNotFound)"

definition ms_abs :: "memory_storage \<Rightarrow> timed_map" where
  "ms_abs s k = map_option (\<lambda>e. (entry_value e, expiry e)) (hm_get (ms_storage s) k)"

definition ms_ok :: "duration \<Rightarrow> memory_storage \<Rightarrow> bool" where
  "ms_ok ttl s \<longleftrightarrow> ms_inv s \<and> ms_default_ttl s = ttl"

interpretation timed: refines "sto_apply memory_impl" "timed_step ttl" ms_abs "ms_ok ttl"
  "\<lambda>x. op_time x + ttl < INSTANT_LIMIT" for ttl
proof
  fix s x assume s: "ms_ok ttl s" and x: "op_time x + ttl < INSTANT_LIMIT"
  then have inv: "ms_inv s" and ttl: "ms_default_ttl s = ttl" by (simp_all add: ms_ok_def)
  show "ms_ok ttl (sto_apply memory_impl x s)"
    using inv ttl x
    by (cases x) (simp_all add: ms_ok_def memory_impl_def ms_store_inv ms_fits_def ms_get_eq ms_remove_inv
        ms_cleanup_inv, simp add: ms_cleanup_eq)
  show "ms_abs (sto_apply memory_impl x s) = timed_step ttl x (ms_abs s)"
    using inv ttl
    by (cases x) (auto simp: ms_abs_def memory_impl_def hm.get_insert ms_get_eq ms_cleanup_get
        split: option.splits)
qed

text \<open>
  What a dual storage promises: the same map, but an entry never expires by itself. A read of an
  expired entry renews it for another time to live and returns its value; only a cleanup drops it.
\<close>

fun lease_step :: "duration \<Rightarrow> storage_op \<Rightarrow> timed_map \<Rightarrow> timed_map" where
  "lease_step ttl (OpGet now k) m =
     (case m k of Some (v, t) \<Rightarrow> if now < t then m else m(k \<mapsto> (v, now + ttl)) | None \<Rightarrow> m)"
| "lease_step ttl x m = timed_step ttl x m"

definition lease_get :: "node_id \<Rightarrow> timed_map \<Rightarrow> u8 list outcome" where
  "lease_get k m = (case m k of Some (v, _) \<Rightarrow> Ok v | None \<Rightarrow> Err ValueNotFound)"

definition ds_abs :: "dual_storage \<Rightarrow> timed_map" where
  "ds_abs s = ms_abs (ds_memory s)"

definition ds_ok :: "duration \<Rightarrow> dual_storage \<Rightarrow> bool" where
  "ds_ok ttl s \<longleftrightarrow> ds_inv s \<and> ms_default_ttl (ds_memory s) = ttl \<and>
     (\<forall>k. hm_get (ds_shared s) k = None \<longleftrightarrow> hm_get (ms_storage (ds_memory s)) k = None)"

lemma ds_ok_shared:
  assumes "ds_ok ttl s"
  shows "hm_get (ds_shared s) k = map_option fst (ds_abs s k)"
proof (cases "hm_get (ms_storage (ds_memory s)) k")
  case None
  then have "hm_get (ds_shared s) k = None" using assms by (simp add: ds_ok_def)
  with None show ?thesis by (simp add: ds_abs_def ms_abs_def)
qed (use assms in \<open>auto simp: ds_ok_def ds_inv_def ds_abs_def ms_abs_def\<close>)

lemma ds_get_lease:
  assumes "ds_ok ttl s"
  shows "ds_abs (fst (ds_get now k s)) = lease_step ttl (OpGet now k) (ds_abs s)"
    and "hm_get (ds_shared (fst (ds_get now k s))) j = None \<longleftrightarrow> hm_get (ms_storage (ds_memory (fst (ds_get now k s)))) j = None"
proof -
  have inv: "ms_inv (ds_memory s)" "ms_default_ttl (ds_memory s) = ttl"
    and dom: "\<forall>k. hm_get (ds_shared s) k = None \<longleftrightarrow> hm_get (ms_storage (ds_memory s)) k = None" and "ds_inv s"
    using assms by (simp_all add: ds_ok_def ds_inv_def)
  note sh = ds_ok_shared [OF assms, of k]
  show "ds_abs (fst (ds_get now k s)) = lease_step ttl (OpGet now k) (ds_abs s)"
    using inv sh by (auto simp: ds_get_def ms_get_eq ms_live_def ds_abs_def ms_abs_def fun_eq_iff hm.get_insert
        split: option.splits)
  show "hm_get (ds_shared (fst (ds_get now k s))) j = None \<longleftrightarrow> hm_get (ms_storage (ds_memory (fst (ds_get now k s)))) j = None"
    using ds_get_eq(2,3) [OF \<open>ds_inv s\<close>, of now k] spec [OF dom, of j] spec [OF dom, of k]
    by (auto simp: hm.get_insert split: if_splits)
qed

interpretation lease: refines "sto_apply dual_impl" "lease_step ttl" ds_abs "ds_ok ttl"
  "\<lambda>x. op_time x + ttl < INSTANT_LIMIT" for ttl
proof
  fix s x assume ok: "ds_ok ttl s" and x: "op_time x + ttl < INSTANT_LIMIT"
  then have inv: "ds_inv s" and mem: "ms_ok ttl (ds_memory s)"
    and dom: "\<forall>k. hm_get (ds_shared s) k = None \<longleftrightarrow> hm_get (ms_storage (ds_memory s)) k = None"
    by (simp_all add: ds_ok_def ms_ok_def ds_inv_def)
  have inv': "ds_inv (sto_apply dual_impl x s) \<and> ms_default_ttl (ds_memory (sto_apply dual_impl x s)) = ttl"
    using inv mem x by (intro ds_step_inv) (simp_all add: ms_ok_def)
  note timed = timed.commutes [OF mem, of x]
  have "(\<forall>k. hm_get (ds_shared (sto_apply dual_impl x s)) k = None \<longleftrightarrow>
        hm_get (ms_storage (ds_memory (sto_apply dual_impl x s))) k = None)
      \<and> ds_abs (sto_apply dual_impl x s) = lease_step ttl x (ds_abs s)"
  proof (cases x)
    case (OpGet now k)
    then show ?thesis using ds_get_lease [OF ok, of now k] by (simp add: dual_impl_def)
  next
    case (OpStore now k v)
    then show ?thesis
      using timed x dom by (auto simp: dual_impl_def memory_impl_def ds_store_eq ds_abs_def hm.get_insert)
  next
    case (OpRemove k)
    then show ?thesis
      using timed x dom by (auto simp: dual_impl_def memory_impl_def ds_remove_eq ds_abs_def hm.get_remove)
  next
    case (OpCleanup now)
    let ?m = "fst (ms_cleanup now (ds_memory s))"
    have m: "ms_inv ?m" "ms_inv (ds_memory s)" "hm_wf (ds_shared s)"
      using inv by (simp_all add: ds_inv_def ms_cleanup_inv)
    have keys: "j \<in> set (ms_get_all_keys ?m) \<longleftrightarrow> hm_get (ms_storage ?m) j \<noteq> None" for j
      using m(1) by (simp add: ms_get_all_keys_def ms_inv_def hm.key_iff)
    have "hm_get (hm_retain (\<lambda>k _. k \<in> set (ms_get_all_keys ?m)) (ds_shared s)) j = None \<longleftrightarrow>
        hm_get (ms_storage ?m) j = None" for j
      using ms_cleanup_get [OF m(2), of now j] spec [OF dom, of j]
      by (auto simp: keys hm.get_retain [OF m(3)] split: option.split)
    then show ?thesis
      using OpCleanup timed x by (simp add: dual_impl_def memory_impl_def ds_cleanup_eq [OF inv] ds_abs_def)
  qed
  with inv' show "ds_ok ttl (sto_apply dual_impl x s)" "ds_abs (sto_apply dual_impl x s) = lease_step ttl x (ds_abs s)"
    by (simp_all add: ds_ok_def)
qed

text \<open>An entry whose expiry overflows the clock stays, since every cleanup panics before it is dropped.\<close>

lemma retain_panics:
  assumes "hm_get es k = Some e" "INSTANT_LIMIT \<le> expiry e"
  shows "panics (snd (retain_unexpired now es)) \<and> hm_get (fst (retain_unexpired now es)) k = Some e"
  using assms
proof (induction es)
  case (Cons x es)
  then show ?case
    by (cases x) (auto simp: hm_get_def entry_expiry_def instant_add_def case_prod_beta split: if_splits)
qed (simp add: hm_get_def)

definition poisoned :: "node_id \<Rightarrow> memory_storage \<Rightarrow> bool" where
  "poisoned k s \<longleftrightarrow> (case hm_get (ms_storage s) k of Some e \<Rightarrow> INSTANT_LIMIT \<le> expiry e | None \<Rightarrow> False)"

lemma poisoned_cleanup:
  assumes "poisoned k s"
  shows "panics (snd (ms_cleanup now s))" "poisoned k (fst (ms_cleanup now s))"
  using assms retain_panics [of "ms_storage s" k _ now]
  by (auto simp: poisoned_def ms_cleanup_def case_prod_beta split: option.splits)

lemma poisoned_get: "poisoned k s \<Longrightarrow> panics (snd (ms_get now k s))"
  by (auto simp: poisoned_def ms_get_def entry_expiry_def instant_add_def split: option.splits)

lemma poisoned_run:
  "poisoned k s \<Longrightarrow> list_all (\<lambda>x. \<not> writes k x) ops \<Longrightarrow> poisoned k (run (sto_apply memory_impl) ops s)"
proof (induction ops arbitrary: s)
  case (Cons x ops)
  have "poisoned k (sto_apply memory_impl x s)"
    using Cons.prems
    by (cases x) (simp_all add: memory_impl_def poisoned_cleanup, auto simp: poisoned_def hm.get_insert)
  with Cons show ?case by simp
qed simp

section \<open>Properties\<close>

text \<open>
  A value stored in the memory storage with a time to live is readable exactly until it
  expires: whatever operations on other keys, reads and cleanups happen in between, a read at
  \<open>t1\<close> returns the value when \<open>t1\<close> is before the expiry and \<^verbatim>\<open>ValueNotFound\<close> from then on.
\<close>

theorem memory_ttl_exact:
  assumes "ms_inv s" "t0 + ttl < INSTANT_LIMIT"
    and "list_all (\<lambda>x. \<not> writes k x \<and> op_time x \<le> t1 \<and> op_time x + ms_default_ttl s < INSTANT_LIMIT) ops"
  shows "snd (ms_get t1 k (run (sto_apply memory_impl) ops (fst (ms_store_with_ttl t0 k v ttl s)))) =
    (if t1 < t0 + ttl then Ok v else Err ValueNotFound)"
proof -
  let ?e = "\<lparr>entry_value = v, entry_timestamp = t0, entry_ttl = ttl\<rparr>"
  let ?s = "run (sto_apply memory_impl) ops (fst (ms_store_with_ttl t0 k v ttl s))"
  have "keeps_entry k ?e t1 (ms_default_ttl s) (fst (ms_store_with_ttl t0 k v ttl s))"
    using assms(1,2)
    by (auto simp: keeps_entry_def ms_store_with_ttl_def ms_inv_def hm.invar_insert hm.get_insert)
  then have "keeps_entry k ?e t1 (ms_default_ttl s) ?s" using assms(3) by (rule keeps_entry_run)
  then show ?thesis by (auto simp: keeps_entry_def ms_get_eq ms_live_def)
qed

theorem memory_ttl_exact_witness:
  "snd (ms_get 99 id_sample (run (sto_apply memory_impl) [OpCleanup 50]
      (fst (ms_store_with_ttl 0 id_sample [1, 2] 100 ms_new)))) = Ok [1, 2]"
  using memory_ttl_exact [of ms_new 0 100 id_sample 99 "[OpCleanup 50]" "[1, 2]"]
  by (simp add: INSTANT_LIMIT_def ms_new_def DEFAULT_TTL_def from_secs_def ms_inv_def)

text \<open>
  C22: the memory storage implements its specification: after any sequence of stores, reads, removals
  and cleanups within the range of the clock it represents the map that the same operations
  produce, its keys are the keys of that map, and reads and removals give the specified results.
\<close>

theorem memory_refines_timed_map:
  fixes ops ttl
  defines "s \<equiv> run (sto_apply memory_impl) ops (ms_with_ttl ttl)"
  defines "m \<equiv> run (timed_step ttl) ops (\<lambda>_. None)"
  assumes "0 < ttl" "list_all (\<lambda>x. op_time x + ttl < INSTANT_LIMIT) ops"
  shows "ms_abs s = m \<and> set (ms_get_all_keys s) = dom m \<and>
    snd (ms_get now k s) = timed_get now k m \<and>
    snd (ms_remove k s) = (if m k = None then Err ValueNotFound else Ok ())"
proof -
  have new: "ms_ok ttl (ms_with_ttl ttl)" "ms_abs (ms_with_ttl ttl) = (\<lambda>_. None)"
    using assms(3) by (auto simp: ms_ok_def ms_inv_def ms_with_ttl_def ms_abs_def)
  have s: "ms_inv s" "ms_abs s = m"
    using timed.run_refines [OF new(1) assms(4)] by (simp_all add: s_def m_def new(2) ms_ok_def)
  then have get: "hm_get (ms_storage s) j = None \<longleftrightarrow> m j = None" for j
    by (auto simp: ms_abs_def)
  have "snd (ms_get now k s) = timed_get now k m"
    using s(1) by (auto simp: ms_get_eq ms_live_def timed_get_def s(2) [symmetric] ms_abs_def split: option.splits)
  moreover have "set (ms_get_all_keys s) = dom m"
    using s(1) get by (auto simp: ms_get_all_keys_def ms_inv_def hm.key_iff)
  moreover have "snd (ms_remove k s) = (if m k = None then Err ValueNotFound else Ok ())"
    using get [of k] by (auto simp: ms_remove_def split: option.split)
  ultimately show ?thesis using s(2) by blast
qed

theorem memory_refines_timed_map_witness:
  "snd (ms_get 5 id_sample (run (sto_apply memory_impl) [OpStore 0 id_sample [1], OpCleanup 3] (ms_with_ttl 10))) =
    timed_get 5 id_sample (run (timed_step 10) [OpStore 0 id_sample [1], OpCleanup 3] (\<lambda>_. None))"
  using memory_refines_timed_map
    [where ops = "[OpStore 0 id_sample [1], OpCleanup 3]" and ttl = 10 and now = 5 and k = id_sample]
  by (simp add: INSTANT_LIMIT_def)

text \<open>
  C36: an entry whose timestamp plus time to live overflows the clock poisons the memory storage:
  after it was stored, and as long as no operation stores or removes its key, every read of the key
  and every cleanup panics, whatever the time and whatever other operations happened in between,
  earlier cleanups that panicked included.
\<close>

theorem overflowing_entry_poisons:
  fixes t0 k v ttl s0 ops
  defines "s \<equiv> run (sto_apply memory_impl) ops (fst (ms_store_with_ttl t0 k v ttl s0))"
  assumes "INSTANT_LIMIT \<le> t0 + ttl" "list_all (\<lambda>x. \<not> writes k x) ops"
  shows "panics (snd (ms_get t1 k s)) \<and> panics (snd (ms_cleanup t1 s))"
proof -
  have "poisoned k (fst (ms_store_with_ttl t0 k v ttl s0))"
    using assms(2) by (simp add: poisoned_def ms_store_with_ttl_def hm.get_insert)
  then have "poisoned k s" unfolding s_def using assms(3) by (rule poisoned_run)
  then show ?thesis by (simp add: poisoned_get poisoned_cleanup)
qed

theorem overflowing_entry_poisons_witness:
  "panics (snd (ms_cleanup 9 (run (sto_apply memory_impl) [OpCleanup 5, OpStore 6 (from_bytes [2]) [7]]
      (fst (ms_store_with_ttl 0 id_sample [1] INSTANT_LIMIT ms_new)))))"
proof -
  have "from_bytes [2] \<noteq> id_sample" by (simp add: id_sample_def flip: as_bytes_inject)
  then have "list_all (\<lambda>x. \<not> writes id_sample x) [OpCleanup 5, OpStore 6 (from_bytes [2]) [7]]" by simp
  moreover have "INSTANT_LIMIT \<le> 0 + INSTANT_LIMIT" by simp
  ultimately show ?thesis by (rule conjunct2 [OF overflowing_entry_poisons, rotated])
qed

text \<open>
  C23: in a dual storage that underwent any operations, the two copies agree: every entry in
  memory has its value in the shared map, and a read at any time returns what the shared map
  holds.
\<close>

theorem dual_copies_agree:
  fixes ops name
  defines "s \<equiv> run (sto_apply dual_impl) ops (ds_new name)"
  assumes "list_all (\<lambda>x. op_time x + DEFAULT_TTL < INSTANT_LIMIT) ops"
  shows "list_all (\<lambda>(k, e). hm_get (ds_shared s) k = Some (entry_value e)) (ms_storage (ds_memory s)) \<and>
    snd (ds_get now k s) = (case hm_get (ds_shared s) k of Some v \<Rightarrow> Ok v | None \<Rightarrow> Err ValueNotFound)"
proof -
  have inv: "ds_inv s" unfolding s_def using ds_run_inv [OF ds_inv_new assms(2)] by simp
  then have "hm_wf (ms_storage (ds_memory s))" by (simp add: ds_inv_def ms_inv_def)
  with inv have "list_all (\<lambda>(k, e). hm_get (ds_shared s) k = Some (entry_value e)) (ms_storage (ds_memory s))"
    by (auto simp: list_all_iff ds_inv_def simp flip: hm_get_Some_iff)
  with ds_get_eq(1) [OF inv] show ?thesis by simp
qed

theorem dual_copies_agree_witness:
  "snd (ds_get 7 id_sample (run (sto_apply dual_impl) [OpStore 0 id_sample [9]] (ds_new ''n''))) = Ok [9]"
  using dual_copies_agree [where ops = "[OpStore 0 id_sample [9]]" and now = 7 and k = id_sample and name = "''n''"]
  by (simp add: INSTANT_LIMIT_def DEFAULT_TTL_def from_secs_def dual_impl_def ds_store_eq)

text \<open>
  C35: the dual storage implements its specification: after any operations within the range of the
  clock it represents the map the same operations produce, with the values of the shared copy and
  the keys of the memory copy; a read returns the value of any entry that is present, expired or
  not, and (by the specification) renews an expired one, so that only a cleanup without such a read
  since the expiry drops it.
\<close>

theorem dual_refines_lease_map:
  fixes ops name
  defines "s \<equiv> run (sto_apply dual_impl) ops (ds_new name)"
  defines "m \<equiv> run (lease_step DEFAULT_TTL) ops (\<lambda>_. None)"
  assumes "list_all (\<lambda>x. op_time x + DEFAULT_TTL < INSTANT_LIMIT) ops"
  shows "ds_abs s = m \<and> hm_get (ds_shared s) k = map_option fst (m k) \<and> set (ds_keys s) = dom m \<and>
    snd (ds_get now k s) = lease_get k m \<and>
    snd (ds_remove k s) = (if m k = None then Err ValueNotFound else Ok ())"
proof -
  have new: "ds_ok DEFAULT_TTL (ds_new name)" "ds_abs (ds_new name) = (\<lambda>_. None)"
    using ds_inv_new [of name] by (auto simp: ds_ok_def ds_abs_def ms_abs_def ds_new_def ms_create_shared_def ms_with_name_def)
  have s: "ds_ok DEFAULT_TTL s" "ds_abs s = m"
    using lease.run_refines [OF new(1) assms(3)] by (simp_all add: s_def m_def new(2))
  note shared = ds_ok_shared [OF s(1), unfolded s(2)]
  have inv: "ds_inv s" using s(1) by (simp add: ds_ok_def)
  have get: "hm_get (ms_storage (ds_memory s)) j = None \<longleftrightarrow> m j = None" for j
    by (auto simp: s(2) [symmetric] ds_abs_def ms_abs_def)
  have "snd (ds_get now k s) = lease_get k m"
    by (auto simp: ds_get_eq(1) [OF inv] shared lease_get_def split: option.split)
  moreover have "set (ds_keys s) = dom m"
    using inv get by (auto simp: ds_keys_def ms_get_all_keys_def ds_inv_def ms_inv_def hm.key_iff)
  moreover have "snd (ds_remove k s) = (if m k = None then Err ValueNotFound else Ok ())"
    using get [of k] by (auto simp: ds_remove_def ms_remove_def split: option.split)
  ultimately show ?thesis using s(2) shared [of k] by blast
qed

text \<open>A read after the expiry renews the value, and a cleanup one second later keeps it.\<close>

theorem dual_refines_lease_map_witness:
  "snd (ds_get (from_secs 86402) id_sample (run (sto_apply dual_impl)
      [OpStore 0 id_sample [9], OpGet (from_secs 86400) id_sample, OpCleanup (from_secs 86401)] (ds_new ''n''))) = Ok [9]"
proof -
  let ?ops = "[OpStore 0 id_sample [9], OpGet (from_secs 86400) id_sample, OpCleanup (from_secs 86401)]"
  have "list_all (\<lambda>x. op_time x + DEFAULT_TTL < INSTANT_LIMIT) ?ops"
    by (simp add: INSTANT_LIMIT_def DEFAULT_TTL_def from_secs_def)
  from dual_refines_lease_map [OF this, of "''n''" id_sample "from_secs 86402"] show ?thesis
    by (simp add: lease_get_def DEFAULT_TTL_def from_secs_def)
qed

end
