(* ===== verification/Message.thy ===== *)
theory Message
  imports Contact
begin

text \<open>
  \<^verbatim>\<open>src/src/protocol/message.rs\<close>: the messages of the protocol. The wire format is the
  \<^verbatim>\<open>bincode\<close> crate's, which the transports take as a parameter.
\<close>

type_synonym message_id = u64

datatype request_message =
    Ping message_id node
  | Store message_id node node_id "u8 list"
  | FindNode message_id node node_id
  | FindValue message_id node node_id

datatype response_message =
    Pong message_id node
  | StoreResult message_id node bool
  | NodesFound message_id node "node list"
  | ValueFound message_id node "u8 list option" "node list"

datatype kademlia_message = Request request_message | Response response_message

fun req_id :: "request_message \<Rightarrow> message_id" where
  "req_id (Ping i _) = i"
| "req_id (Store i _ _ _) = i"
| "req_id (FindNode i _ _) = i"
| "req_id (FindValue i _ _) = i"

fun req_sender :: "request_message \<Rightarrow> node" where
  "req_sender (Ping _ s) = s"
| "req_sender (Store _ s _ _) = s"
| "req_sender (FindNode _ s _) = s"
| "req_sender (FindValue _ s _) = s"

fun request_id :: "response_message \<Rightarrow> message_id" where
  "request_id (Pong i _) = i"
| "request_id (StoreResult i _ _) = i"
| "request_id (NodesFound i _ _) = i"
| "request_id (ValueFound i _ _ _) = i"

fun resp_sender :: "response_message \<Rightarrow> node" where
  "resp_sender (Pong _ s) = s"
| "resp_sender (StoreResult _ s _) = s"
| "resp_sender (NodesFound _ s _) = s"
| "resp_sender (ValueFound _ s _ _) = s"

end
