(* ===== verification/Protocol.thy ===== *)
theory Protocol
  imports Routing_Table Storage Message
begin

text \<open>
  \<^verbatim>\<open>src/src/protocol/operation.rs\<close>: the remote procedure calls, the request handlers and the
  iterative lookups. The storage is any implementation of the trait, given by its dictionary.

  Everything outside one call is an environment: a numbered sequence of steps, one for each point
  at which the call takes a lock or waits. A step supplies what the call reads there (random
  message identifier, clocks, result of sending, result of waiting) and the operations that other
  tasks perform on the shared routing table and storage before the call proceeds, so every
  interleaving at the granularity of the locks is an environment. The calls that \<^verbatim>\<open>find_node\<close> and
  \<^verbatim>\<open>find_value\<close> issue in parallel are taken in their order. Every message sent is recorded in a
  trace, and so is every timeout waited for. A call dropped by an enclosing timeout while it waits
  for its response leaves the state of a wait that failed; \<open>ev_dropped\<close> says that the deadline of the
  enclosing timeout falls into the ping of another contact that the call ends with.
\<close>

section \<open>Environment and state\<close>

definition ALPHA :: nat where
  "ALPHA = 5"

definition RPC_TIMEOUT :: duration where
  "RPC_TIMEOUT = from_secs 30"

datatype wait_result = Responded response_message | WaitFailed error | Elapsed

record env_step =
  ev_id :: message_id
  ev_random :: node_id
  ev_now :: system_time
  ev_instant :: instant
  ev_send :: "error option"
  ev_wait :: wait_result
  ev_elapsed_ms :: u64
  ev_table :: "rt_op list"
  ev_storage :: "storage_op list"
  ev_dropped :: bool

record 's world =
  w_impl :: "'s storage_impl"
  w_env :: "nat \<Rightarrow> env_step"

record 's protocol =
  p_id :: node_id
  p_addr :: socket_addr
  p_table :: routing_table
  p_storage :: 's
  p_pending :: "(message_id \<times> request_message) list"
  p_tick :: nat
  p_sent :: "(socket_addr \<times> kademlia_message) list"
  p_waits :: "(message_id \<times> duration) list"

definition protocol_new :: "node_id \<Rightarrow> socket_addr \<Rightarrow> routing_table \<Rightarrow> 's \<Rightarrow> 's protocol" where
  "protocol_new i a table storage =
     \<lparr>p_id = i, p_addr = a, p_table = table, p_storage = storage, p_pending = [], p_tick = 0,
      p_sent = [], p_waits = []\<rparr>"

text \<open>The next step of the environment, after the operations of the other tasks.\<close>

definition tick :: "'s world \<Rightarrow> 's protocol \<Rightarrow> 's protocol \<times> env_step" where
  "tick w st =
     (let e = w_env w (p_tick st)
      in (st\<lparr>p_tick := p_tick st + 1,
             p_table := run rt_apply (ev_table e) (p_table st),
             p_storage := run (sto_apply (w_impl w)) (ev_storage e) (p_storage st)\<rparr>, e))"

text \<open>The operator \<^verbatim>\<open>?\<close>: go on with the value, or return the error.\<close>

definition and_then :: "'st \<times> 'a outcome \<Rightarrow> ('a \<Rightarrow> 'st \<Rightarrow> 'st \<times> 'b outcome) \<Rightarrow> 'st \<times> 'b outcome" where
  "and_then r f =
     (case r of
        (st, Ok x) \<Rightarrow> f x st
      | (st, Err e) \<Rightarrow> (st, Err e)
      | (st, Panic s) \<Rightarrow> (st, Panic s))"

text \<open>\<^verbatim>\<open>let _ = result\<close>: an error is ignored, a panic is not.\<close>

definition ignore_err :: "'st \<times> 'a outcome \<Rightarrow> 'st \<times> unit outcome" where
  "ignore_err r =
     (case r of
        (st, Ok _) \<Rightarrow> (st, Ok ())
      | (st, Err _) \<Rightarrow> (st, Ok ())
      | (st, Panic s) \<Rightarrow> (st, Panic s))"

text \<open>A section under the write lock of the routing table or of the storage.\<close>

definition with_table ::
  "'s world \<Rightarrow> (env_step \<Rightarrow> routing_table \<Rightarrow> routing_table \<times> 'a outcome) \<Rightarrow> 's protocol \<Rightarrow>
   's protocol \<times> 'a outcome" where
  "with_table w f st =
     (let (st1, e) = tick w st;
          (table, r) = f e (p_table st1)
      in (st1\<lparr>p_table := table\<rparr>, r))"

definition with_storage ::
  "'s world \<Rightarrow> (env_step \<Rightarrow> 's \<Rightarrow> 's \<times> 'a outcome) \<Rightarrow> 's protocol \<Rightarrow> 's protocol \<times> 'a outcome" where
  "with_storage w f st =
     (let (st1, e) = tick w st;
          (storage, r) = f e (p_storage st1)
      in (st1\<lparr>p_storage := storage\<rparr>, r))"

definition local_node :: "'s protocol \<Rightarrow> node" where
  "local_node st = new_node (p_id st) (p_addr st)"

definition net_send ::
  "'s world \<Rightarrow> socket_addr \<Rightarrow> kademlia_message \<Rightarrow> 's protocol \<Rightarrow> 's protocol \<times> unit outcome" where
  "net_send w dest message st =
     (let (st1, e) = tick w st
      in case ev_send e of
           Some err \<Rightarrow> (st1, Err err)
         | None \<Rightarrow> (st1\<lparr>p_sent := p_sent st1 @ [(dest, message)]\<rparr>, Ok ()))"

section \<open>Remote procedure calls\<close>

text \<open>
  The body that \<^verbatim>\<open>ping\<close>, \<^verbatim>\<open>store\<close>, \<^verbatim>\<open>find_node_rpc\<close> and \<^verbatim>\<open>health_check_ping\<close> share up to the point where
  the response is there and the success is recorded.
\<close>

definition await_response ::
  "'s world \<Rightarrow> node \<Rightarrow> message_id \<Rightarrow> duration \<Rightarrow> 's protocol \<Rightarrow> 's protocol \<times> response_message outcome" where
  "await_response w n i limit st =
     (let (st1, e) = tick w (st\<lparr>p_waits := p_waits st @ [(i, limit)]\<rparr>);
          st2 = st1\<lparr>p_pending := hm_remove i (p_pending st1)\<rparr>
      in case ev_wait e of
           WaitFailed err \<Rightarrow> (st1, Err err)
         | Responded response \<Rightarrow>
             and_then
               (ignore_err (with_table w
                  (\<lambda>e' t. rt_record_success (ev_now e') (nid n) (ev_elapsed_ms e) t) st2))
               (\<lambda>_ st3. (st3, Ok response))
         | Elapsed \<Rightarrow>
             and_then
               (ignore_err (with_table w (\<lambda>e' t. rt_record_failure (ev_now e') (nid n) t) st2))
               (\<lambda>_ st3. (st3, Err Timeout)))"

definition rpc ::
  "'s world \<Rightarrow> node \<Rightarrow> (message_id \<Rightarrow> node \<Rightarrow> request_message) \<Rightarrow> 's protocol \<Rightarrow>
   's protocol \<times> response_message outcome" where
  "rpc w n make_request st =
     (let (st1, e1) = tick w st;
          i = ev_id e1;
          request = make_request i (local_node st1);
          (st2, _) = tick w (st1\<lparr>p_pending := hm_insert i request (p_pending st1)\<rparr>);
          limit = (case rt_get (p_table st2) (nid n) of
                     Some existing \<Rightarrow> adaptive_timeout (stats existing) 3 (from_secs 5)
                   | None \<Rightarrow> RPC_TIMEOUT)
      in and_then (net_send w (addr n) (Request request) st2)
           (\<lambda>_ st3. await_response w n i limit st3))"

definition health_check_ping :: "'s world \<Rightarrow> node \<Rightarrow> 's protocol \<Rightarrow> 's protocol \<times> unit outcome" where
  "health_check_ping w n st = and_then (rpc w n Ping st) (\<lambda>_ st1. (st1, Ok ()))"

text \<open>
  The part of \<^verbatim>\<open>record_contact\<close> for a full bucket: the oldest contact is pinged and stays when it
  answers; otherwise it is removed and the newcomer is offered again.
\<close>

definition check_oldest ::
  "'s world \<Rightarrow> node \<Rightarrow> bool \<Rightarrow> node \<Rightarrow> 's protocol \<Rightarrow> 's protocol \<times> bool outcome" where
  "check_oldest w n was_known node_to_ping st =
     (case health_check_ping w node_to_ping st of
        (st1, Ok _) \<Rightarrow>
          and_then (with_table w (\<lambda>e t. rt_node_seen (ev_now e) (nid node_to_ping) t) st1)
            (\<lambda>_ st2. (st2, Ok False))
      | (st1, Err _) \<Rightarrow>
          and_then (with_table w (\<lambda>e t. (fst (rt_remove (ev_now e) (nid node_to_ping) t), Ok ())) st1)
            (\<lambda>_ st2. and_then (with_table w (\<lambda>e t. rt_update (ev_now e) n t) st2)
               (\<lambda>status st3. (st3, Ok (status = Updated \<and> \<not> was_known))))
      | (st1, Panic s) \<Rightarrow> (st1, Panic s))"

definition offer_contact ::
  "'s world \<Rightarrow> node \<Rightarrow> 's protocol \<Rightarrow> 's protocol \<times> (update_status \<times> bool) outcome" where
  "offer_contact w n st =
     with_table w (\<lambda>e t.
       let known = rt_contains t (nid n);
           (t', r) = rt_update (ev_now e) n t
       in (t', outcome_map (\<lambda>status. (status, known)) r)) st"

definition record_contact :: "'s world \<Rightarrow> node \<Rightarrow> 's protocol \<Rightarrow> 's protocol \<times> bool outcome" where
  "record_contact w n st =
     (if nid n = p_id st then (st, Ok False)
      else and_then (offer_contact w n st)
        (\<lambda>(status, was_known) st1.
           case status of
             PendingPing node_to_ping \<Rightarrow> check_oldest w n was_known node_to_ping st1
           | Updated \<Rightarrow> (st1, Ok (\<not> was_known))
           | Unchanged \<Rightarrow> (st1, Ok False)))"

definition ping :: "'s world \<Rightarrow> node \<Rightarrow> 's protocol \<Rightarrow> 's protocol \<times> response_message outcome" where
  "ping w n st =
     and_then (rpc w n Ping st) (\<lambda>response st1.
       and_then (record_contact w (resp_sender response) st1) (\<lambda>_ st2. (st2, Ok response)))"

definition store ::
  "'s world \<Rightarrow> node \<Rightarrow> node_id \<Rightarrow> u8 list \<Rightarrow> 's protocol \<Rightarrow> 's protocol \<times> response_message outcome" where
  "store w n key value st =
     and_then (rpc w n (\<lambda>i s. Store i s key value) st) (\<lambda>response st1.
       and_then (record_contact w (resp_sender response) st1) (\<lambda>_ st2. (st2, Ok response)))"

definition find_node_rpc ::
  "'s world \<Rightarrow> node \<Rightarrow> node_id \<Rightarrow> 's protocol \<Rightarrow> 's protocol \<times> node list outcome" where
  "find_node_rpc w n target st =
     and_then (rpc w n (\<lambda>i s. FindNode i s target) st) (\<lambda>response st1.
       and_then (record_contact w (resp_sender response) st1) (\<lambda>_ st2.
         case response of
           NodesFound _ _ nodes \<Rightarrow> (st2, Ok nodes)
         | _ \<Rightarrow> (st2, Err (Other ''Unexpected response type''))))"

text \<open>
  \<^verbatim>\<open>find_value_rpc\<close> waits ten seconds, records no statistics, and turns a timeout into an empty
  answer.
\<close>

definition find_value_rpc ::
  "'s world \<Rightarrow> node \<Rightarrow> node_id \<Rightarrow> 's protocol \<Rightarrow> 's protocol \<times> (u8 list option \<times> node list) outcome" where
  "find_value_rpc w n key st =
     (let (st1, e1) = tick w st;
          i = ev_id e1;
          request = FindValue i (local_node st1) key;
          st2 = st1\<lparr>p_pending := hm_insert i request (p_pending st1)\<rparr>
      in and_then (net_send w (addr n) (Request request) st2) (\<lambda>_ st3.
           let (st4, e4) = tick w (st3\<lparr>p_waits := p_waits st3 @ [(i, from_secs 10)]\<rparr>)
           in case ev_wait e4 of
                WaitFailed err \<Rightarrow> (st4, Err err)
              | Responded response \<Rightarrow>
                  let st5 = st4\<lparr>p_pending := hm_remove i (p_pending st4)\<rparr>
                  in and_then (record_contact w (resp_sender response) st5) (\<lambda>_ st6.
                       case response of
                         ValueFound _ _ value nodes \<Rightarrow> (st6, Ok (value, nodes))
                       | NodesFound _ _ nodes \<Rightarrow> (st6, Ok (None, nodes))
                       | _ \<Rightarrow> (st6, Ok (None, [])))
              | Elapsed \<Rightarrow> (st4\<lparr>p_pending := hm_remove i (p_pending st4)\<rparr>, Ok (None, []))))"

section \<open>Request handlers\<close>

definition handle_ping :: "'s world \<Rightarrow> message_id \<Rightarrow> socket_addr \<Rightarrow> 's protocol \<Rightarrow> 's protocol \<times> unit outcome" where
  "handle_ping w i from st = net_send w from (Response (Pong i (local_node st))) st"

definition handle_store ::
  "'s world \<Rightarrow> message_id \<Rightarrow> node_id \<Rightarrow> u8 list \<Rightarrow> socket_addr \<Rightarrow> 's protocol \<Rightarrow> 's protocol \<times> unit outcome" where
  "handle_store w i key value from st =
     (case with_storage w (\<lambda>e s. sto_store (w_impl w) (ev_instant e) key value s) st of
        (st1, Panic x) \<Rightarrow> (st1, Panic x)
      | (st1, r) \<Rightarrow> net_send w from (Response (StoreResult i (local_node st1) (is_ok r))) st1)"

definition handle_find_node ::
  "'s world \<Rightarrow> message_id \<Rightarrow> node_id \<Rightarrow> socket_addr \<Rightarrow> 's protocol \<Rightarrow> 's protocol \<times> unit outcome" where
  "handle_find_node w i target from st =
     (let (st1, _) = tick w st;
          nodes = rt_get_closest (p_table st1) target K
      in net_send w from (Response (NodesFound i (local_node st1) nodes)) st1)"

definition handle_find_value ::
  "'s world \<Rightarrow> message_id \<Rightarrow> node_id \<Rightarrow> socket_addr \<Rightarrow> 's protocol \<Rightarrow> 's protocol \<times> unit outcome" where
  "handle_find_value w i key from st =
     (case with_storage w (\<lambda>e s. sto_get (w_impl w) (ev_instant e) key s) st of
        (st1, Panic x) \<Rightarrow> (st1, Panic x)
      | (st1, Ok value) \<Rightarrow> net_send w from (Response (ValueFound i (local_node st1) (Some value) [])) st1
      | (st1, Err _) \<Rightarrow>
          let (st2, _) = tick w st1;
              nodes = rt_get_closest (p_table st2) key K
          in net_send w from (Response (ValueFound i (local_node st2) None nodes)) st2)"

text \<open>The loop of \<^verbatim>\<open>replicate_to_new_node\<close> over the stored keys.\<close>

fun replicate_keys :: "'s world \<Rightarrow> node \<Rightarrow> node_id list \<Rightarrow> 's protocol \<Rightarrow> 's protocol \<times> unit outcome" where
  "replicate_keys w n [] st = (st, Ok ())"
| "replicate_keys w n (key # keys) st =
     (let (st1, _) = tick w st;
          should_store = list_ex (\<lambda>closest. nid closest = nid n) (rt_get_closest (p_table st1) key K)
      in if \<not> should_store then replicate_keys w n keys st1
         else case with_storage w (\<lambda>e s. sto_get (w_impl w) (ev_instant e) key s) st1 of
           (st2, Panic x) \<Rightarrow> (st2, Panic x)
         | (st2, Err _) \<Rightarrow> replicate_keys w n keys st2
         | (st2, Ok value) \<Rightarrow>
             and_then (ignore_err (store w n key value st2)) (\<lambda>_ st3. replicate_keys w n keys st3))"

definition replicate_to_new_node :: "'s world \<Rightarrow> node \<Rightarrow> 's protocol \<Rightarrow> 's protocol \<times> unit outcome" where
  "replicate_to_new_node w n st =
     (let (st1, _) = tick w st in replicate_keys w n (sto_keys (w_impl w) (p_storage st1)) st1)"

fun dispatch :: "'s world \<Rightarrow> request_message \<Rightarrow> socket_addr \<Rightarrow> 's protocol \<Rightarrow> 's protocol \<times> unit outcome" where
  "dispatch w (Ping i _) from st = handle_ping w i from st"
| "dispatch w (Store i _ key value) from st = handle_store w i key value from st"
| "dispatch w (FindNode i _ target) from st = handle_find_node w i target from st"
| "dispatch w (FindValue i _ key) from st = handle_find_value w i key from st"

definition handle_request ::
  "'s world \<Rightarrow> request_message \<Rightarrow> socket_addr \<Rightarrow> 's protocol \<Rightarrow> 's protocol \<times> unit outcome" where
  "handle_request w req from st =
     and_then (record_contact w (req_sender req) st) (\<lambda>is_new_contact st1.
       and_then (dispatch w req from st1) (\<lambda>_ st2.
         if is_new_contact then ignore_err (replicate_to_new_node w (req_sender req) st2)
         else (st2, Ok ())))"

section \<open>Iterative lookups\<close>

text \<open>
  \<^verbatim>\<open>join_all\<close>: one call per node, in order; a panic of one of them is a panic of the whole.
\<close>

fun find_node_rpcs ::
  "'s world \<Rightarrow> node_id \<Rightarrow> node list \<Rightarrow> 's protocol \<Rightarrow> 's protocol \<times> node list outcome list outcome" where
  "find_node_rpcs w target [] st = (st, Ok [])"
| "find_node_rpcs w target (n # ns) st =
     (case find_node_rpc w n target st of
        (st1, Panic s) \<Rightarrow> (st1, Panic s)
      | (st1, r) \<Rightarrow> and_then (find_node_rpcs w target ns st1) (\<lambda>rs st2. (st2, Ok (r # rs))))"

text \<open>The loop that adds the nodes of one answer.\<close>

fun add_unseen :: "node list \<Rightarrow> node_id set \<Rightarrow> node list \<Rightarrow> node_id set \<times> node list" where
  "add_unseen [] seen_ids closest = (seen_ids, closest)"
| "add_unseen (n # ns) seen_ids closest =
     (if nid n \<in> seen_ids then add_unseen ns seen_ids closest
      else add_unseen ns (insert (nid n) seen_ids) (closest @ [n]))"

text \<open>
  The loop of \<^verbatim>\<open>find_node\<close> over the results of one round; \<open>placeholder\<close> is the random identifier
  of the branch for an empty list.
\<close>

fun find_node_results ::
  "node_id \<Rightarrow> node_id \<Rightarrow> nat \<Rightarrow> node list outcome list \<Rightarrow> node_id set \<Rightarrow> node list \<Rightarrow> bool \<Rightarrow>
   node_id set \<times> node list \<times> bool" where
  "find_node_results target placeholder idx [] seen_ids closest looking = (seen_ids, closest, looking)"
| "find_node_results target placeholder idx (result # results) seen_ids closest looking =
     (if length closest \<le> idx then
        find_node_results target placeholder (idx + 1) results seen_ids closest looking
      else case result of
        Ok nodes \<Rightarrow>
          (let old_closest = (if closest \<noteq> [] then distance (nid (closest ! 0)) target else placeholder);
               (seen', added) = add_unseen nodes seen_ids closest;
               closest' = take K (sort_by_distance target added);
               looking' = (if closest' \<noteq> [] \<and> distance (nid (closest' ! 0)) target < old_closest
                           then True else looking)
           in find_node_results target placeholder (idx + 1) results seen' closest' looking')
      | _ \<Rightarrow> find_node_results target placeholder (idx + 1) results seen_ids (remove_at idx closest) looking)"

text \<open>A round that finds a closer node has seen a new one, and there are finitely many identifiers.\<close>

lemma add_unseen_spec:
  assumes "add_unseen ns S cl = (S', cl')"
  shows "S \<subseteq> S'" and "set cl \<subseteq> set cl'" and "\<And>n. n \<in> set cl' \<Longrightarrow> n \<in> set cl \<or> nid n \<in> S' - S"
proof -
  have "S \<subseteq> S' \<and> set cl \<subseteq> set cl' \<and> (\<forall>n\<in>set cl'. n \<in> set cl \<or> nid n \<in> S' - S)"
    using assms
  proof (induction ns arbitrary: S cl)
    case (Cons n ns)
    show ?case
    proof (cases "nid n \<in> S")
      case False
      then have "add_unseen ns (insert (nid n) S) (cl @ [n]) = (S', cl')" using Cons.prems by simp
      from Cons.IH [OF this] False show ?thesis by auto
    qed (use Cons in simp)
  qed simp
  then show "S \<subseteq> S'" "set cl \<subseteq> set cl'" "\<And>n. n \<in> set cl' \<Longrightarrow> n \<in> set cl \<or> nid n \<in> S' - S" by auto
qed

abbreviation by_distance :: "node_id \<Rightarrow> node list \<Rightarrow> bool" where
  "by_distance target ns \<equiv> sorted (map (\<lambda>n. distance (nid n) target) ns)"

lemma sorted_remove_at: "sorted (xs :: 'a :: linorder list) \<Longrightarrow> sorted (remove_at i xs)"
proof (cases "i < length xs")
  case True
  assume "sorted xs"
  then have "sorted (take i xs @ xs ! i # drop (Suc i) xs)" by (simp add: id_take_nth_drop [OF True, symmetric])
  then show ?thesis by (auto simp: remove_at_def sorted_append)
qed (simp add: remove_at_def)

lemma by_distance_remove_at: "by_distance target ns \<Longrightarrow> by_distance target (remove_at i ns)"
  by (simp add: map_remove_at sorted_remove_at)

lemma by_distance_take_sort: "by_distance target (take c (sort_by_distance target ns))"
  using sorted_sort_by_distance [of target ns] by (simp add: take_map [symmetric] sorted_wrt_take)

lemma by_distance_head:
  assumes "by_distance target cl" "n \<in> set cl"
  shows "distance (nid (cl ! 0)) target \<le> distance (nid n) target"
  using assms by (cases cl) auto

lemma find_node_results_spec:
  assumes "find_node_results target x idx rs S cl looking = (S', cl', looking')"
  shows "S \<subseteq> S'" and "by_distance target cl \<Longrightarrow> by_distance target cl'"
    and "looking' \<Longrightarrow> \<not> looking \<Longrightarrow> by_distance target cl'"
    and "looking' \<Longrightarrow> \<not> looking \<Longrightarrow> by_distance target cl \<Longrightarrow> S \<subset> S'"
proof -
  have "S \<subseteq> S' \<and> (by_distance target cl \<longrightarrow> by_distance target cl') \<and>
    (looking' \<and> \<not> looking \<longrightarrow> by_distance target cl' \<and> (by_distance target cl \<longrightarrow> S \<subset> S'))"
    using assms
  proof (induction rs arbitrary: idx S cl looking)
    case (Cons r rs)
    consider "length cl \<le> idx" | "idx < length cl" "\<not> is_ok r"
      | ns where "idx < length cl" "r = Ok ns" by (metis not_le is_ok_iff)
    then show ?case
    proof cases
      case 1
      then show ?thesis using Cons.IH [of "idx + 1" S cl looking] Cons.prems by simp
    next
      case 2
      then have "find_node_results target x (idx + 1) rs S (remove_at idx cl) looking = (S', cl', looking')"
        using Cons.prems by (cases r) simp_all
      from Cons.IH [OF this] by_distance_remove_at [of target cl idx] show ?thesis by blast
    next
      case (3 ns)
      obtain S1 added where a: "add_unseen ns S cl = (S1, added)" by force
      define c1 where "c1 = take K (sort_by_distance target added)"
      define l1 where "l1 = (if c1 \<noteq> [] \<and> distance (nid (c1 ! 0)) target < distance (nid (cl ! 0)) target
        then True else looking)"
      have ne: "cl \<noteq> []" using 3(1) by auto
      have "find_node_results target x (idx + 1) rs S1 c1 l1 = (S', cl', looking')"
        using Cons.prems 3 a ne by (simp add: c1_def l1_def Let_def not_le)
      note IH = Cons.IH [OF this]
      have c1: "by_distance target c1" unfolding c1_def by (rule by_distance_take_sort)
      have "S \<subseteq> S1" using add_unseen_spec(1) [OF a] .
      moreover have "S \<subset> S1" if l: "l1" "\<not> looking" and srt: "by_distance target cl"
      proof -
        have lt: "c1 \<noteq> []" "distance (nid (c1 ! 0)) target < distance (nid (cl ! 0)) target"
          using l by (auto simp: l1_def split: if_splits)
        have "set c1 \<subseteq> set added"
          unfolding c1_def using set_take_subset [of K "sort_by_distance target added"] by simp
        moreover have "c1 ! 0 \<in> set c1" using lt(1) by (intro nth_mem) simp
        ultimately have "c1 ! 0 \<in> set added" by (rule subsetD)
        moreover have "c1 ! 0 \<notin> set cl" using by_distance_head [OF srt, of "c1 ! 0"] lt(2) by auto
        ultimately show ?thesis using add_unseen_spec(1,3) [OF a] by blast
      qed
      ultimately show ?thesis using IH c1 by blast
    qed
  qed simp
  then show "S \<subseteq> S'" "by_distance target cl \<Longrightarrow> by_distance target cl'"
    "looking' \<Longrightarrow> \<not> looking \<Longrightarrow> by_distance target cl'"
    "looking' \<Longrightarrow> \<not> looking \<Longrightarrow> by_distance target cl \<Longrightarrow> S \<subset> S'" by blast+
qed

definition lookup_measure :: "node_id \<Rightarrow> node_id set \<Rightarrow> node list \<Rightarrow> bool \<Rightarrow> nat" where
  "lookup_measure target S cl looking =
     (if looking then 2 * card (- S) + (if by_distance target cl then 0 else 1) + 1 else 0)"

lemma lookup_measure_less:
  assumes "find_node_results target x 0 rs S cl False = (S', cl', looking')"
  shows "lookup_measure target S' cl' looking' < lookup_measure target S cl True"
proof (cases looking')
  case True
  note spec = find_node_results_spec [OF assms]
  show ?thesis
  proof (cases "by_distance target cl")
    case srt: True
    have "- S' \<subset> - S" using spec(4) [OF True _ srt] by auto
    then have "card (- S') < card (- S)" by (intro psubset_card_mono) simp_all
    then show ?thesis using True spec(3) by (simp add: lookup_measure_def)
  next
    case False
    have "card (- S') \<le> card (- S)" using spec(1) by (intro card_mono) auto
    then show ?thesis using True False spec(3) by (simp add: lookup_measure_def)
  qed
qed (simp add: lookup_measure_def)

function find_node_loop ::
  "'s world \<Rightarrow> node_id \<Rightarrow> node_id set \<Rightarrow> node list \<Rightarrow> nat \<Rightarrow> bool \<Rightarrow> 's protocol \<Rightarrow>
   's protocol \<times> node list outcome" where
  "find_node_loop w target seen_ids closest active looking st =
     (if looking \<and> closest \<noteq> [] then
        (case find_node_rpcs w target (take active closest) st of
           (st1, Ok results) \<Rightarrow>
             let (seen', closest', looking') =
                   find_node_results target (ev_random (w_env w (p_tick st1))) 0 results seen_ids closest False
             in find_node_loop w target seen' closest' (min ALPHA (length closest')) looking' st1
         | (st1, Err e) \<Rightarrow> (st1, Err e)
         | (st1, Panic s) \<Rightarrow> (st1, Panic s))
      else (st, Ok closest))"
  by pat_completeness auto
termination
  by (relation "measure (\<lambda>(w, target, seen_ids, closest, active, looking, st).
      lookup_measure target seen_ids closest looking)")
    (auto dest: lookup_measure_less [OF sym])

declare find_node_loop.simps [simp del]

definition find_node :: "'s world \<Rightarrow> node_id \<Rightarrow> 's protocol \<Rightarrow> 's protocol \<times> node list outcome" where
  "find_node w target st =
     (let (st1, _) = tick w st;
          closest = rt_get_closest (p_table st1) target K;
          seen_ids = insert (p_id st) (nid ` set closest)
      in find_node_loop w target seen_ids closest (min ALPHA (length closest)) True st1)"

subsection \<open>Looking up a value\<close>

definition MAX_ITERATIONS :: nat where
  "MAX_ITERATIONS = 10"

text \<open>
  The tasks of one round. A task that fails or panics gives no result (\<^verbatim>\<open>if let Ok(Some(..))\<close>).
\<close>

fun find_value_tasks ::
  "'s world \<Rightarrow> node_id \<Rightarrow> node list \<Rightarrow> 's protocol \<Rightarrow>
   's protocol \<times> (u8 list option \<times> node list) option list" where
  "find_value_tasks w key [] st = (st, [])"
| "find_value_tasks w key (n # ns) st =
     (let (st1, r) = find_value_rpc w n key st;
          (st2, rs) = find_value_tasks w key ns st1
      in (st2, ok_opt r # rs))"

text \<open>The results in the order of the tasks: the first value found, or the unvisited nodes.\<close>

fun collect_results ::
  "(u8 list option \<times> node list) option list \<Rightarrow> node_id set \<Rightarrow> node list \<Rightarrow> u8 list + node list" where
  "collect_results [] visited acc = Inr acc"
| "collect_results (None # rs) visited acc = collect_results rs visited acc"
| "collect_results (Some (Some value, more_nodes) # rs) visited acc = Inl value"
| "collect_results (Some (None, more_nodes) # rs) visited acc =
     collect_results rs visited (acc @ filter (\<lambda>n. nid n \<notin> visited) more_nodes)"

fun find_value_loop ::
  "'s world \<Rightarrow> node_id \<Rightarrow> nat \<Rightarrow> node_id set \<Rightarrow> node list \<Rightarrow> 's protocol \<Rightarrow>
   's protocol \<times> u8 list option outcome" where
  "find_value_loop w key 0 visited closest st = (st, Ok None)"
| "find_value_loop w key (Suc iterations) visited closest st =
     (let nodes_to_query = take ALPHA (filter (\<lambda>n. nid n \<notin> visited \<and> nid n \<noteq> p_id st) closest)
      in if nodes_to_query = [] then (st, Ok None)
         else
           let visited' = visited \<union> nid ` set nodes_to_query;
               (st1, results) = find_value_tasks w key nodes_to_query st
           in case collect_results results visited' [] of
                Inl value \<Rightarrow>
                  and_then
                    (ignore_err (with_storage w
                       (\<lambda>e s. sto_store (w_impl w) (ev_instant e) key value s) st1))
                    (\<lambda>_ st2. (st2, Ok (Some value)))
              | Inr all_closest \<Rightarrow>
                  if all_closest \<noteq> [] then
                    find_value_loop w key iterations visited'
                      (take K (sort_key (\<lambda>n. distance key (nid n)) (closest @ all_closest))) st1
                  else (st1, Ok None))"

definition find_value :: "'s world \<Rightarrow> node_id \<Rightarrow> 's protocol \<Rightarrow> 's protocol \<times> u8 list option outcome" where
  "find_value w key st =
     (case with_storage w (\<lambda>e s. sto_get (w_impl w) (ev_instant e) key s) st of
        (st1, Ok value) \<Rightarrow> (st1, Ok (Some value))
      | (st1, Panic x) \<Rightarrow> (st1, Panic x)
      | (st1, Err _) \<Rightarrow>
          let (st2, _) = tick w st1;
              nodes = rt_get_closest (p_table st2) key K;
              closest = (if nodes = [] then rt_get_all_nodes (p_table st2) else nodes)
          in if closest = [] then (st2, Ok None)
             else find_value_loop w key MAX_ITERATIONS {p_id st2} closest st2)"

section \<open>Storing a value in the network\<close>

text \<open>
  \<^verbatim>\<open>store\<close> under \<^verbatim>\<open>tokio::time::timeout\<close>, whose result the callers only log. Dropped in or after the ping
  of the oldest contact, it has offered the sender of the response to the table and neither
  confirmed nor removed the contact it pinged.
\<close>

definition drop_contact :: "'s world \<Rightarrow> node \<Rightarrow> 's protocol \<Rightarrow> 's protocol \<times> unit outcome" where
  "drop_contact w n st =
     (if nid n = p_id st then (st, Ok ())
      else and_then (offer_contact w n st)
        (\<lambda>(status, _) st1.
           case status of
             PendingPing node_to_ping \<Rightarrow> health_check_ping w node_to_ping st1
           | _ \<Rightarrow> (st1, Ok ())))"

definition store_within ::
  "'s world \<Rightarrow> node \<Rightarrow> node_id \<Rightarrow> u8 list \<Rightarrow> 's protocol \<Rightarrow> 's protocol \<times> unit outcome" where
  "store_within w n key value st =
     (if ev_dropped (w_env w (p_tick st)) then
        ignore_err (and_then (rpc w n (\<lambda>i s. Store i s key value) st)
          (\<lambda>response st1. drop_contact w (resp_sender response) st1))
      else ignore_err (store w n key value st))"

fun store_on_nodes ::
  "'s world \<Rightarrow> node_id \<Rightarrow> u8 list \<Rightarrow> node list \<Rightarrow> 's protocol \<Rightarrow> 's protocol \<times> unit outcome" where
  "store_on_nodes w key value [] st = (st, Ok ())"
| "store_on_nodes w key value (n # ns) st =
     (if nid n \<noteq> p_id st then
        and_then (store_within w n key value st) (\<lambda>_ st1. store_on_nodes w key value ns st1)
      else store_on_nodes w key value ns st)"

definition store_value ::
  "'s world \<Rightarrow> node_id \<Rightarrow> u8 list \<Rightarrow> 's protocol \<Rightarrow> 's protocol \<times> unit outcome" where
  "store_value w key value st =
     and_then (with_storage w (\<lambda>e s. sto_store (w_impl w) (ev_instant e) key value s) st) (\<lambda>_ st1.
       let (st2, _) = tick w st1;
           closest_nodes = rt_get_closest (p_table st2) key K;
           nodes = (if closest_nodes = [] then rt_get_all_nodes (p_table st2) else closest_nodes)
       in store_on_nodes w key value nodes st2)"

end
