(* ===== verification/Protocol_Facts.thy ===== *)
theory Protocol_Facts
  imports Protocol "HOL-Library.Sublist"
begin

text \<open>
  Properties of the protocol operations that hold in every environment: what every operation
  keeps of the shared routing table, that lookups end and do not panic, how long a call waits,
  what a handler answers and where a looked-up value comes from.
\<close>

section \<open>Results that keep an invariant\<close>

text \<open>
  A result is good for an invariant when its state satisfies it; when \<open>np\<close> is set, the result is
  no panic either.
\<close>

definition good :: "bool \<Rightarrow> ('st \<Rightarrow> bool) \<Rightarrow> 'st \<times> 'a outcome \<Rightarrow> bool" where
  "good np I r \<longleftrightarrow> I (fst r) \<and> (np \<longrightarrow> \<not> panics (snd r))"

named_theorems good_rules

lemma good_Ok [good_rules]: "I st \<Longrightarrow> good np I (st, Ok x)"
  by (simp add: good_def)

lemma good_Err [good_rules]: "I st \<Longrightarrow> good np I (st, Err x)"
  by (simp add: good_def)

lemma good_and_then [good_rules]:
  assumes "good np I r" "\<And>x st. I st \<Longrightarrow> good np I (f x st)"
  shows "good np I (and_then r f)"
proof (cases r)
  case (Pair st q)
  with assms show ?thesis by (cases q) (auto simp: good_def and_then_def)
qed

lemma good_ignore_err [good_rules]: "good np I r \<Longrightarrow> good np I (ignore_err r)"
  by (cases r; cases "snd r") (auto simp: good_def ignore_err_def)

lemma good_outcome_case:
  assumes "good np I r"
    and "\<And>st x. I st \<Longrightarrow> good np I (f st x)"
    and "\<And>st e. I st \<Longrightarrow> good np I (g st e)"
  shows "good np I (case r of (st, Ok x) \<Rightarrow> f st x | (st, Err e) \<Rightarrow> g st e | (st, Panic s) \<Rightarrow> (st, Panic s))"
proof (cases r)
  case (Pair st q)
  with assms show ?thesis by (cases q) (auto simp: good_def)
qed

section \<open>The invariant of the protocol\<close>

definition table_ok :: "node_id \<Rightarrow> nat \<Rightarrow> routing_table \<Rightarrow> bool" where
  "table_ok l k t \<longleftrightarrow> rt_inv t \<and> rt_local t = l \<and> rt_k t = k"

definition protocol_ok :: "node_id \<Rightarrow> nat \<Rightarrow> 's protocol \<Rightarrow> bool" where
  "protocol_ok l k st \<longleftrightarrow> p_id st = l \<and> table_ok l k (p_table st) \<and>
     list_all (\<lambda>(_, d). d \<le> RPC_TIMEOUT) (p_waits st)"

lemma table_ok_run: "table_ok l k t \<Longrightarrow> table_ok l k (run rt_apply ops t)"
  using rt.run_inv [of t l k ops] by (simp add: table_ok_def)

lemma table_ok_apply: "table_ok l k t \<Longrightarrow> table_ok l k (rt_apply x t)"
  using table_ok_run [of l k t "[x]"] by simp

lemma outcome_map_panics [simp]: "panics (outcome_map f r) = panics r"
  by (cases r) auto

lemma update_no_panic:
  assumes "table_ok l k t" "0 < k"
  shows "\<not> panics (snd (rt_update now n t))"
proof (cases "bucket_index l (nid n)")
  case (Some i)
  have "kb_inv l i k (rt_bucket t i)" using assms(1) rt_inv_bucket [of t i] by (auto simp: table_ok_def)
  then have "kb_k (rt_bucket t i) = k" by (simp add: kb_inv_def)
  then have "\<not> panics (snd (kb_update now n (rt_bucket t i)))"
    using assms(2) by (simp add: kb_update_panic_iff)
  with Some assms(1) show ?thesis by (auto simp: table_ok_def rt_update_nosplit)
qed (use assms in \<open>auto simp: table_ok_def rt_update_nosplit\<close>)

lemma touch_no_panic:
  assumes "table_ok l k t" "0 < k"
  shows "\<not> panics (snd (rt_touch now f j t))"
proof (rule rt_touch_cases [where t = t and j = j and now = now and f = f], goal_cases)
  case (2 i b n)
  then have "kb_inv l i k b" using assms(1) by (auto simp: table_ok_def rt_inv_def)
  then have "kb_k b = k" by (simp add: kb_inv_def)
  with 2 assms(2) show ?case by (simp add: kb_update_panic_iff)
qed simp

lemma good_update: "table_ok l k t \<Longrightarrow> good (0 < k) (table_ok l k) (rt_update now n t)"
  using table_ok_apply [of l k t "RtUpdate now n"] update_no_panic [of l k t now n] by (simp add: good_def)

lemma good_node_seen: "table_ok l k t \<Longrightarrow> good (0 < k) (table_ok l k) (rt_node_seen now j t)"
  using table_ok_apply [of l k t "RtNodeSeen now j"] touch_no_panic [of l k t]
  by (simp add: good_def rt_node_seen_def)

lemma good_record_success: "table_ok l k t \<Longrightarrow> good (0 < k) (table_ok l k) (rt_record_success now j ms t)"
  using table_ok_apply [of l k t "RtRecordSuccess now j ms"] touch_no_panic [of l k t]
  by (simp add: good_def rt_record_success_def)

lemma good_record_failure: "table_ok l k t \<Longrightarrow> good (0 < k) (table_ok l k) (rt_record_failure now j t)"
  using table_ok_apply [of l k t "RtRecordFailure now j"] touch_no_panic [of l k t]
  by (simp add: good_def rt_record_failure_def)

lemma good_remove: "table_ok l k t \<Longrightarrow> good np (table_ok l k) (fst (rt_remove now j t), Ok ())"
  using table_ok_apply [of l k t "RtRemove now j"] by (simp add: good_def)

lemma good_outcome_map: "good np I r \<Longrightarrow> good np I (let (t, q) = r in (t, outcome_map f q))"
  by (cases r) (simp add: good_def)

lemma protocol_ok_tick: "protocol_ok l k st \<Longrightarrow> protocol_ok l k (fst (tick w st))"
  by (simp add: protocol_ok_def tick_def Let_def table_ok_run)

lemma protocol_ok_frame [simp]:
  "protocol_ok l k (st\<lparr>p_pending := x\<rparr>) = protocol_ok l k st"
  "protocol_ok l k (st\<lparr>p_sent := y\<rparr>) = protocol_ok l k st"
  "protocol_ok l k (st\<lparr>p_storage := z\<rparr>) = protocol_ok l k st"
  by (simp_all add: protocol_ok_def)

lemma good_with_table:
  assumes "protocol_ok l k st" "\<And>e t. table_ok l k t \<Longrightarrow> good np (table_ok l k) (f e t)"
  shows "good np (protocol_ok l k) (with_table w f st)"
proof -
  obtain st1 e where t: "tick w st = (st1, e)" by force
  have 1: "protocol_ok l k st1" using protocol_ok_tick [OF assms(1), of w] t by simp
  then have "good np (table_ok l k) (f e (p_table st1))" by (intro assms(2)) (simp add: protocol_ok_def)
  with 1 t show ?thesis by (auto simp: with_table_def good_def protocol_ok_def split: prod.splits)
qed

lemma good_with_storage:
  assumes "protocol_ok l k st" "\<And>e s. np \<Longrightarrow> \<not> panics (snd (f e s))"
  shows "good np (protocol_ok l k) (with_storage w f st)"
proof -
  obtain st1 e where t: "tick w st = (st1, e)" by force
  have "protocol_ok l k st1" using protocol_ok_tick [OF assms(1), of w] t by simp
  with t assms(2) [of e "p_storage st1"] show ?thesis
    by (auto simp: with_storage_def good_def split: prod.splits)
qed

lemma good_net_send [good_rules]:
  "protocol_ok l k st \<Longrightarrow> good np (protocol_ok l k) (net_send w dest m st)"
  using protocol_ok_tick [of l k st w]
  by (auto simp: net_send_def good_def case_prod_beta Let_def split: option.split)

lemma adaptive_timeout_le: "adaptive_timeout st m (from_secs 5) \<le> RPC_TIMEOUT"
proof (cases "avg_response_time_ms st")
  case (Some a)
  have "unat (min (x :: u64) 30000) \<le> 30000" for x
    using word_le_nat_alt [of "min x 30000" 30000] by simp
  then show ?thesis
    using Some by (simp add: adaptive_timeout_def Let_def RPC_TIMEOUT_def from_secs_def from_millis_def)
qed (simp add: adaptive_timeout_def RPC_TIMEOUT_def)

lemma good_waiting:
  assumes "protocol_ok l k st" "d \<le> RPC_TIMEOUT"
  shows "protocol_ok l k (fst (tick w (st\<lparr>p_waits := p_waits st @ [(i, d)]\<rparr>)))"
  using assms by (intro protocol_ok_tick) (simp add: protocol_ok_def)

section \<open>Every operation keeps the invariant\<close>

lemma good_await:
  assumes "protocol_ok l k st" "limit \<le> RPC_TIMEOUT"
  shows "good (0 < k) (protocol_ok l k) (await_response w n i limit st)"
proof -
  obtain st1 e where t: "tick w (st\<lparr>p_waits := p_waits st @ [(i, limit)]\<rparr>) = (st1, e)" by force
  have 1: "protocol_ok l k st1" using good_waiting [OF assms, of w i] t by simp
  show ?thesis
    unfolding await_response_def t Let_def prod.case
    by (cases "ev_wait e")
      (auto intro!: good_rules good_with_table good_record_success good_record_failure simp: 1)
qed

lemma good_rpc [good_rules]:
  assumes "protocol_ok l k st"
  shows "good (0 < k) (protocol_ok l k) (rpc w n mk st)"
proof -
  obtain st1 e1 where t1: "tick w st = (st1, e1)" by force
  have 1: "protocol_ok l k st1" using protocol_ok_tick [OF assms, of w] t1 by simp
  let ?st = "st1\<lparr>p_pending := hm_insert (ev_id e1) (mk (ev_id e1) (local_node st1)) (p_pending st1)\<rparr>"
  obtain st2 e2 where t2: "tick w ?st = (st2, e2)" by force
  have 2: "protocol_ok l k st2" using protocol_ok_tick [of l k ?st w] 1 t2 by simp
  have "(case rt_get (p_table st2) (nid n) of
      Some existing \<Rightarrow> adaptive_timeout (stats existing) 3 (from_secs 5) | None \<Rightarrow> RPC_TIMEOUT) \<le> RPC_TIMEOUT"
    by (simp add: adaptive_timeout_le split: option.split)
  then show ?thesis
    unfolding rpc_def t1 Let_def prod.case t2
    by (intro good_and_then good_net_send 2 good_await)
qed

lemma good_health_check [good_rules]:
  "protocol_ok l k st \<Longrightarrow> good (0 < k) (protocol_ok l k) (health_check_ping w n st)"
  unfolding health_check_ping_def by (intro good_rules)

lemma good_check_oldest:
  "protocol_ok l k st \<Longrightarrow> good (0 < k) (protocol_ok l k) (check_oldest w n was_known m st)"
  unfolding check_oldest_def
  by (intro good_outcome_case good_health_check good_rules good_with_table good_node_seen good_remove good_update)

lemma good_offer_contact [good_rules]:
  assumes "protocol_ok l k st"
  shows "good (0 < k) (protocol_ok l k) (offer_contact w n st)"
proof -
  have "good (0 < k) (table_ok l k)
      (let known = rt_contains t (nid n); (t', r) = rt_update (ev_now e) n t
       in (t', outcome_map (\<lambda>status. (status, known)) r))" if "table_ok l k t" for e t
    using good_outcome_map [OF good_update [OF that]] by (simp add: Let_def)
  with assms show ?thesis unfolding offer_contact_def by (rule good_with_table)
qed

lemma good_record_contact [good_rules]:
  "protocol_ok l k st \<Longrightarrow> good (0 < k) (protocol_ok l k) (record_contact w n st)"
  unfolding record_contact_def
  by (auto split: prod.split update_status.split intro!: good_rules good_check_oldest)

lemma good_drop_contact [good_rules]:
  "protocol_ok l k st \<Longrightarrow> good (0 < k) (protocol_ok l k) (drop_contact w n st)"
  unfolding drop_contact_def
  by (auto split: prod.split update_status.split intro!: good_rules)

lemma good_ping: "protocol_ok l k st \<Longrightarrow> good (0 < k) (protocol_ok l k) (ping w n st)"
  unfolding ping_def by (intro good_rules)

lemma good_store [good_rules]: "protocol_ok l k st \<Longrightarrow> good (0 < k) (protocol_ok l k) (store w n key v st)"
  unfolding store_def by (intro good_rules)

lemma good_store_within [good_rules]:
  "protocol_ok l k st \<Longrightarrow> good (0 < k) (protocol_ok l k) (store_within w n key v st)"
  unfolding store_within_def by (auto intro!: good_rules)

lemma good_find_node_rpc [good_rules]:
  "protocol_ok l k st \<Longrightarrow> good (0 < k) (protocol_ok l k) (find_node_rpc w n target st)"
  unfolding find_node_rpc_def by (auto intro!: good_rules split: response_message.split)

lemma good_find_value_rpc [good_rules]:
  assumes "protocol_ok l k st"
  shows "good (0 < k) (protocol_ok l k) (find_value_rpc w n key st)"
proof -
  obtain st1 e1 where t1: "tick w st = (st1, e1)" by force
  have 1: "protocol_ok l k st1" using protocol_ok_tick [OF assms, of w] t1 by simp
  have "protocol_ok l k (fst (tick w (st3\<lparr>p_waits := p_waits st3 @ [(i, from_secs 10)]\<rparr>)))"
    if "protocol_ok l k st3" for st3 i
    using that by (rule good_waiting) (simp add: RPC_TIMEOUT_def)
  then show ?thesis
    unfolding find_value_rpc_def t1 Let_def prod.case using 1
    by (auto simp: case_prod_beta split: wait_result.split response_message.split
        intro!: good_and_then good_net_send good_Ok good_Err good_record_contact)
qed

section \<open>Looking up nodes\<close>

lemma find_node_rpcs_ok:
  assumes "protocol_ok l k st" "0 < k"
  shows "protocol_ok l k (fst (find_node_rpcs w target ns st)) \<and>
    (\<exists>rs. snd (find_node_rpcs w target ns st) = Ok rs \<and> length rs = length ns)"
  using assms(1)
proof (induction ns arbitrary: st)
  case (Cons n ns)
  obtain st1 r where c: "find_node_rpc w n target st = (st1, r)" by force
  have st1: "protocol_ok l k st1" "\<not> panics r"
    using good_find_node_rpc [OF Cons.prems, of w n target] assms(2) c by (simp_all add: good_def)
  obtain st2 rs where rs: "find_node_rpcs w target ns st1 = (st2, Ok rs)" "length rs = length ns" "protocol_ok l k st2"
    using Cons.IH [OF st1(1)] by (cases "find_node_rpcs w target ns st1") auto
  then have "find_node_rpcs w target (n # ns) st = (st2, Ok (r # rs))"
    using c st1(2) by (cases r) (simp_all add: and_then_def)
  with rs show ?case by simp
qed simp

text \<open>What the rounds of \<^verbatim>\<open>find_node\<close> keep of the list of closest nodes.\<close>

definition lookup_ok :: "node_id \<Rightarrow> node_id \<Rightarrow> node_id set \<Rightarrow> node list \<Rightarrow> bool" where
  "lookup_ok l target S cl \<longleftrightarrow>
     l \<in> S \<and> by_distance target cl \<and> length cl \<le> K \<and> (\<forall>n\<in>set cl. nid n \<noteq> l)"

lemma lookup_ok_results:
  "find_node_results target x idx rs S cl looking = (S', cl', looking') \<Longrightarrow> lookup_ok l target S cl \<Longrightarrow>
   lookup_ok l target S' cl'"
proof (induction rs arbitrary: idx S cl looking)
  case (Cons r rs)
  have rem: "lookup_ok l target S (remove_at idx cl)" if "idx < length cl"
    using Cons.prems(2) that set_remove_at_subset [of idx cl]
    by (auto simp: lookup_ok_def by_distance_remove_at)
  show ?case
  proof (cases "length cl \<le> idx")
    case False
    show ?thesis
    proof (cases r)
      case (Ok ns)
      obtain S1 added where a: "add_unseen ns S cl = (S1, added)" by force
      have "\<forall>n\<in>set added. nid n \<noteq> l"
        using add_unseen_spec(3) [OF a] Cons.prems(2) unfolding lookup_ok_def by blast
      then have "lookup_ok l target S1 (take K (sort_by_distance target added))"
        using Cons.prems(2) add_unseen_spec(1) [OF a] by_distance_take_sort [of target K added]
        by (auto simp: lookup_ok_def dest!: in_set_takeD)
      with Cons.IH Cons.prems(1) Ok a False show ?thesis by (auto simp: Let_def split: if_splits)
    qed (use Cons rem False in auto)
  qed (use Cons in simp)
qed simp

lemma find_node_loop_round:
  assumes "looking" "cl \<noteq> []" "find_node_rpcs w target (take active cl) st = (st1, Ok rs)"
    and "find_node_results target (ev_random (w_env w (p_tick st1))) 0 rs S cl False = (S', cl', looking')"
  shows "find_node_loop w target S cl active looking st =
    find_node_loop w target S' cl' (min ALPHA (length cl')) looking' st1"
  using assms by (simp add: find_node_loop.simps [of w target S cl])

lemma find_node_loop_ok:
  assumes "protocol_ok l k st" "0 < k" "lookup_ok l target S cl"
  shows "\<exists>ns S'. snd (find_node_loop w target S cl active looking st) = Ok ns \<and> lookup_ok l target S' ns"
    and "protocol_ok l k (fst (find_node_loop w target S cl active looking st))"
proof -
  have "(\<exists>ns S'. snd (find_node_loop w target S cl active looking st) = Ok ns \<and> lookup_ok l target S' ns) \<and>
    protocol_ok l k (fst (find_node_loop w target S cl active looking st))"
    using assms(1,3)
  proof (induction w target S cl active looking st rule: find_node_loop.induct)
    case (1 w target S cl active looking st)
    show ?case
    proof (cases "looking \<and> cl \<noteq> []")
      case True
      obtain st1 rs where r: "find_node_rpcs w target (take active cl) st = (st1, Ok rs)" "protocol_ok l k st1"
        using find_node_rpcs_ok [OF "1.prems"(1) assms(2), of w target "take active cl"]
        by (cases "find_node_rpcs w target (take active cl) st") auto
      obtain S' cl' looking' where f: "find_node_results target (ev_random (w_env w (p_tick st1))) 0 rs S cl False =
          (S', cl', looking')" by (metis prod_cases3)
      have "find_node_loop w target S cl active looking st =
          find_node_loop w target S' cl' (min ALPHA (length cl')) looking' st1"
        using True r(1) f by (intro find_node_loop_round) auto
      with "1.IH" [OF True r(1) [symmetric] refl f [symmetric] refl refl r(2) lookup_ok_results [OF f "1.prems"(2)]]
      show ?thesis by simp
    next
      case False
      then have "find_node_loop w target S cl active looking st = (st, Ok cl)"
        by (subst find_node_loop.simps) (simp only: if_False)
      with "1.prems" show ?thesis by auto
    qed
  qed
  then show "\<exists>ns S'. snd (find_node_loop w target S cl active looking st) = Ok ns \<and> lookup_ok l target S' ns"
    "protocol_ok l k (fst (find_node_loop w target S cl active looking st))" by blast+
qed

text \<open>An identifier that is seen and not among the closest nodes does not come back.\<close>

lemma find_node_loop_keeps:
  assumes "lookup_ok x target S cl" "snd (find_node_loop w target S cl active looking st) = Ok ns"
  shows "\<exists>S'. lookup_ok x target S' ns"
  using assms
proof (induction w target S cl active looking st rule: find_node_loop.induct)
  case (1 w target S cl active looking st)
  show ?case
  proof (cases "looking \<and> cl \<noteq> []")
    case True
    obtain st1 r where r: "find_node_rpcs w target (take active cl) st = (st1, r)" by force
    with True "1.prems"(2) obtain rs where rs: "r = Ok rs" by (subst (asm) find_node_loop.simps) (cases r; simp)
    obtain S' cl' looking' where f: "find_node_results target (ev_random (w_env w (p_tick st1))) 0 rs S cl False =
        (S', cl', looking')" by (metis prod_cases3)
    have "find_node_loop w target S cl active looking st =
        find_node_loop w target S' cl' (min ALPHA (length cl')) looking' st1"
      using True r rs f by (intro find_node_loop_round) auto
    with "1.IH" [OF True r [symmetric] rs f [symmetric] refl refl lookup_ok_results [OF f "1.prems"(1)]] "1.prems"(2)
    show ?thesis by simp
  next
    case False
    then have "find_node_loop w target S cl active looking st = (st, Ok cl)"
      by (subst find_node_loop.simps) (simp only: if_False)
    with "1.prems" show ?thesis by auto
  qed
qed

text \<open>
  A round whose first answer brings a node closer than all others and whose second request fails:
  the failure is charged to the node that the new one pushed to the second place.
\<close>

lemma sort_key_snoc_least:
  "sorted (map f xs) \<Longrightarrow> \<forall>x\<in>set xs. f c < f x \<Longrightarrow> sort_key f (xs @ [c]) = c # xs"
  by (induction xs) (auto simp: not_le insort_is_Cons)

lemma results_shifted:
  assumes "by_distance target (a # b # rest)" "length rest + 2 < K" "nid c \<notin> S"
    and "distance (nid c) target < distance (nid a) target" "list_all (\<lambda>r. r = Ok []) results"
  shows "find_node_results target x 0 (Ok [c] # Err e # results) S (a # b # rest) False =
    (insert (nid c) S, c # b # rest, True)"
proof -
  let ?f = "\<lambda>n. distance (nid n) target"
  have idle: "find_node_results target x i results S' cl True = (S', cl, True)"
    if "by_distance target cl" "length cl \<le> K" for i S' cl
    using assms(5) that
    by (induction results arbitrary: i) (auto simp: sort_by_distance_def sort_key_id_if_sorted Let_def)
  have cs: "by_distance target (c # a # b # rest)" using assms(1,4) by auto
  have "sort_by_distance target (a # b # rest @ [c]) = c # a # b # rest"
    using sort_key_snoc_least [of ?f "a # b # rest" c] assms(1,4) by (force simp: sort_by_distance_def)
  then show ?thesis
    using assms(2,3,4) idle [of "c # b # rest"] cs by (simp add: remove_at_def)
qed

lemma lookup_ok_start:
  assumes "table_ok l k t"
  shows "lookup_ok l target (insert l (nid ` set (rt_get_closest t target K))) (rt_get_closest t target K)"
proof -
  have c: "rt_get_closest t target K = take K (sort_by_distance target (rt_get_all_nodes t))"
    by (simp add: rt_get_closest_def rt_get_all_nodes_def)
  have "nid n \<noteq> l" if "n \<in> set (rt_get_closest t target K)" for n
  proof -
    have "n \<in> set (rt_get_all_nodes t)" using that unfolding c by (auto dest!: in_set_takeD)
    then have "nid n \<in> rt_ids t" by (rule imageI)
    with assms rt_local_absent [of t] show ?thesis by (auto simp: table_ok_def)
  qed
  then show ?thesis unfolding lookup_ok_def c by (auto simp: by_distance_take_sort)
qed

lemma find_node_ok:
  assumes "protocol_ok l k st" "0 < k"
  shows "\<exists>ns S. snd (find_node w target st) = Ok ns \<and> lookup_ok l target S ns"
    and "protocol_ok l k (fst (find_node w target st))"
proof -
  obtain st1 e where t: "tick w st = (st1, e)" by force
  have 1: "protocol_ok l k st1" using protocol_ok_tick [OF assms(1), of w] t by simp
  have l: "p_id st = l" using assms(1) by (simp add: protocol_ok_def)
  have s: "lookup_ok l target (insert l (nid ` set (rt_get_closest (p_table st1) target K)))
      (rt_get_closest (p_table st1) target K)"
    using 1 by (intro lookup_ok_start [where k = k]) (simp add: protocol_ok_def)
  show "\<exists>ns S. snd (find_node w target st) = Ok ns \<and> lookup_ok l target S ns"
    "protocol_ok l k (fst (find_node w target st))"
    unfolding find_node_def t Let_def prod.case l
    using find_node_loop_ok [OF 1 assms(2) s] by blast+
qed

section \<open>Handlers, values and stores keep the invariant\<close>

lemma good_weaken: "good np I r \<Longrightarrow> good False I r"
  by (simp add: good_def)

lemmas good_weak = good_rules [THEN good_weaken]

lemma good_let_tick:
  "protocol_ok l k st \<Longrightarrow> (\<And>st1 e. protocol_ok l k st1 \<Longrightarrow> good np (protocol_ok l k) (f st1 e)) \<Longrightarrow>
   good np (protocol_ok l k) (case tick w st of (st1, e) \<Rightarrow> f st1 e)"
  using protocol_ok_tick [of l k st w] by (auto split: prod.split)

lemma good_storage_case:
  assumes "good False I r"
    and "\<And>st x. I st \<Longrightarrow> good False I (f st x)" "\<And>st e. I st \<Longrightarrow> good False I (g st e)"
    and "\<And>st s. I st \<Longrightarrow> good False I (h st s)"
  shows "good False I (case r of (st, Ok x) \<Rightarrow> f st x | (st, Err e) \<Rightarrow> g st e | (st, Panic s) \<Rightarrow> h st s)"
  using assms by (auto simp: good_def split: prod.split outcome.split)

lemma good_Panic: "I st \<Longrightarrow> good False I (st, Panic s)"
  by (simp add: good_def)

lemma good_dispatch: "protocol_ok l k st \<Longrightarrow> good False (protocol_ok l k) (dispatch w req from st)"
proof (cases req)
  case (Store i s key v)
  assume "protocol_ok l k st"
  then have "good False (protocol_ok l k) (with_storage w (\<lambda>e s. sto_store (w_impl w) (ev_instant e) key v s) st)"
    by (rule good_with_storage) simp
  moreover obtain st1 r where "with_storage w (\<lambda>e s. sto_store (w_impl w) (ev_instant e) key v s) st = (st1, r)"
    by force
  ultimately have "protocol_ok l k st1" "dispatch w req from st =
      (case r of Panic x \<Rightarrow> (st1, Panic x)
       | _ \<Rightarrow> net_send w from (Response (StoreResult i (local_node st1) (is_ok r))) st1)"
    by (simp_all add: good_def Store handle_store_def split: outcome.split)
  then show ?thesis by (cases r) (simp_all add: good_net_send good_Panic)
next
  case (FindValue i s key)
  assume "protocol_ok l k st"
  then have "good False (protocol_ok l k) (with_storage w (\<lambda>e s. sto_get (w_impl w) (ev_instant e) key s) st)"
    by (rule good_with_storage) simp
  then show ?thesis unfolding FindValue dispatch.simps handle_find_value_def Let_def
    by (intro good_storage_case good_net_send good_Panic good_let_tick)
qed (auto simp: handle_ping_def handle_find_node_def Let_def intro!: good_net_send good_let_tick)

lemma good_replicate_keys: "protocol_ok l k st \<Longrightarrow> good False (protocol_ok l k) (replicate_keys w n keys st)"
proof (induction keys arbitrary: st)
  case (Cons key keys)
  have "good False (protocol_ok l k) (with_storage w (\<lambda>e s. sto_get (w_impl w) (ev_instant e) key s) st1)"
    if "protocol_ok l k st1" for st1
    using that by (rule good_with_storage) simp
  with Cons show ?case
    unfolding replicate_keys.simps Let_def
    by (intro good_let_tick) (auto intro!: good_storage_case good_Panic good_and_then good_ignore_err good_weaken [OF good_store])
qed (simp add: good_Ok)

lemma good_handle_request:
  "protocol_ok l k st \<Longrightarrow> good False (protocol_ok l k) (handle_request w req from st)"
  unfolding handle_request_def replicate_to_new_node_def Let_def
  by (auto intro!: good_and_then good_weaken [OF good_record_contact] good_dispatch good_ignore_err
      good_let_tick good_replicate_keys good_Ok)

lemma protocol_ok_find_value_tasks:
  "protocol_ok l k st \<Longrightarrow> protocol_ok l k (fst (find_value_tasks w key ns st))"
proof (induction ns arbitrary: st)
  case (Cons n ns)
  have "protocol_ok l k (fst (find_value_rpc w n key st))"
    using good_find_value_rpc [OF Cons.prems, of w n key] by (simp add: good_def)
  from Cons.IH [OF this] show ?case by (simp add: case_prod_beta)
qed simp

lemma good_find_value_loop:
  "protocol_ok l k st \<Longrightarrow> good False (protocol_ok l k) (find_value_loop w key m visited cl st)"
proof (induction m arbitrary: visited cl st)
  case (Suc m)
  have "good False (protocol_ok l k) (with_storage w (\<lambda>e s. sto_store (w_impl w) (ev_instant e) key v s) st1)"
    if "protocol_ok l k st1" for st1 v
    using that by (rule good_with_storage) simp
  with Suc show ?case
    unfolding find_value_loop.simps Let_def case_prod_beta
    by (auto intro!: good_Ok good_and_then good_ignore_err split: sum.split
        simp: protocol_ok_find_value_tasks)
qed (simp add: good_Ok)

lemma good_find_value: "protocol_ok l k st \<Longrightarrow> good False (protocol_ok l k) (find_value w key st)"
proof -
  assume "protocol_ok l k st"
  then have "good False (protocol_ok l k) (with_storage w (\<lambda>e s. sto_get (w_impl w) (ev_instant e) key s) st)"
    by (rule good_with_storage) simp
  then show ?thesis unfolding find_value_def Let_def
    by (intro good_storage_case good_Ok good_Panic good_let_tick)
      (auto intro!: good_Ok good_find_value_loop)
qed

lemma good_store_on_nodes: "protocol_ok l k st \<Longrightarrow> good False (protocol_ok l k) (store_on_nodes w key v ns st)"
  by (induction ns arbitrary: st)
    (auto intro!: good_Ok good_and_then good_weaken [OF good_store_within])

lemma good_store_value: "protocol_ok l k st \<Longrightarrow> good False (protocol_ok l k) (store_value w key v st)"
  unfolding store_value_def Let_def
  by (intro good_and_then good_with_storage good_let_tick good_store_on_nodes) simp_all

lemma good_find_node_rpcs: "protocol_ok l k st \<Longrightarrow> good False (protocol_ok l k) (find_node_rpcs w target ns st)"
proof (induction ns arbitrary: st)
  case (Cons n ns)
  obtain st1 r where c: "find_node_rpc w n target st = (st1, r)" by force
  have "protocol_ok l k st1" using good_find_node_rpc [OF Cons.prems, of w n target] c by (simp add: good_def)
  with Cons.IH c show ?case
    by (cases r) (auto intro!: good_and_then good_Ok good_Panic)
qed (simp add: good_Ok)

lemma good_find_node_loop:
  "protocol_ok l k st \<Longrightarrow> good False (protocol_ok l k) (find_node_loop w target S cl active looking st)"
proof (induction w target S cl active looking st rule: find_node_loop.induct)
  case (1 w target S cl active looking st)
  obtain st1 r where r: "find_node_rpcs w target (take active cl) st = (st1, r)" by force
  have st1: "protocol_ok l k st1"
    using good_find_node_rpcs [OF "1.prems", of w target "take active cl"] r by (simp add: good_def)
  show ?case
  proof (cases "looking \<and> cl \<noteq> []")
    case True
    show ?thesis
    proof (cases r)
      case (Ok rs)
      obtain S' cl' looking' where f: "find_node_results target (ev_random (w_env w (p_tick st1))) 0 rs S cl False =
          (S', cl', looking')" by (metis prod_cases3)
      have "find_node_loop w target S cl active looking st =
          find_node_loop w target S' cl' (min ALPHA (length cl')) looking' st1"
        using True r Ok f by (simp add: find_node_loop.simps [of w target S cl])
      with "1.IH" [OF True r [symmetric] Ok f [symmetric] refl refl st1] show ?thesis by simp
    qed (use True r st1 in \<open>simp_all add: find_node_loop.simps [of w target S cl] good_Err good_Panic\<close>)
  next
    case False
    then have "find_node_loop w target S cl active looking st = (st, Ok cl)"
      by (subst find_node_loop.simps) (simp only: if_False)
    with "1.prems" show ?thesis by (simp add: good_Ok)
  qed
qed

lemma good_find_node: "protocol_ok l k st \<Longrightarrow> good False (protocol_ok l k) (find_node w target st)"
  unfolding find_node_def Let_def by (intro good_let_tick good_find_node_loop)

section \<open>Sequences of operations\<close>

datatype proto_op =
    PHandle request_message socket_addr
  | PContact node
  | PPing node
  | PStore node node_id "u8 list"
  | PFindNode node_id
  | PFindValue node_id
  | PFindValueRpc node node_id
  | PStoreValue node_id "u8 list"

fun proto_apply :: "'s world \<Rightarrow> proto_op \<Rightarrow> 's protocol \<Rightarrow> 's protocol" where
  "proto_apply w (PHandle req from) st = fst (handle_request w req from st)"
| "proto_apply w (PContact n) st = fst (record_contact w n st)"
| "proto_apply w (PPing n) st = fst (ping w n st)"
| "proto_apply w (PStore n key v) st = fst (store w n key v st)"
| "proto_apply w (PFindNode target) st = fst (find_node w target st)"
| "proto_apply w (PFindValue key) st = fst (find_value w key st)"
| "proto_apply w (PFindValueRpc n key) st = fst (find_value_rpc w n key st)"
| "proto_apply w (PStoreValue key v) st = fst (store_value w key v st)"

lemma goodD: "good np I r \<Longrightarrow> I (fst r)"
  by (simp add: good_def)

interpretation prot: stable "proto_apply w" "protocol_ok l k" for w l k
proof
  fix st :: "'a protocol" and x assume ok: "protocol_ok l k st"
  show "protocol_ok l k (proto_apply w x st)"
    by (cases x) (simp_all add: goodD [OF good_handle_request] goodD [OF good_record_contact]
        goodD [OF good_ping] goodD [OF good_store] goodD [OF good_find_node] goodD [OF good_find_value]
        goodD [OF good_find_value_rpc] goodD [OF good_store_value] ok)
qed

lemma protocol_ok_new: "protocol_ok l k (protocol_new l a (rt_with_k l k) s)"
  by (simp add: protocol_ok_def protocol_new_def table_ok_def)

lemmas protocol_run_ok = prot.run_inv [OF protocol_ok_new]

section \<open>What a call leaves alone\<close>

text \<open>
  What a call does to the parts of the state outside its own control: it reads the environment,
  replaces the routing table, books pending requests and timeouts, and sends messages. A predicate
  that these keep, when no message of the kind \<open>Q\<close> is sent, is kept by the whole call.
\<close>

locale frame =
  fixes w :: "'s world"
    and I :: "'s protocol \<Rightarrow> bool"
    and Q :: "kademlia_message \<Rightarrow> bool"
  assumes after_tick: "I st \<Longrightarrow> I (fst (tick w st))"
    and set_table: "I st \<Longrightarrow> I (st\<lparr>p_table := t\<rparr>)"
    and set_pending: "I st \<Longrightarrow> I (st\<lparr>p_pending := x\<rparr>)"
    and add_wait: "I st \<Longrightarrow> I (st\<lparr>p_waits := p_waits st @ [y]\<rparr>)"
    and add_sent: "I st \<Longrightarrow> \<not> Q m \<Longrightarrow> I (st\<lparr>p_sent := p_sent st @ [(dest, m)]\<rparr>)"
begin

lemma keeps_with_table: "I st \<Longrightarrow> good False I (with_table w f st)"
  using after_tick [of st] by (simp add: with_table_def good_def case_prod_beta set_table)

lemma keeps_net_send: "I st \<Longrightarrow> \<not> Q m \<Longrightarrow> good False I (net_send w dest m st)"
  using after_tick [of st]
  by (auto simp: net_send_def good_def case_prod_beta Let_def add_sent split: option.split)

lemma keeps_await: "I st \<Longrightarrow> good False I (await_response w n i limit st)"
  unfolding await_response_def Let_def case_prod_beta
  by (auto split: wait_result.split simp: after_tick set_pending add_wait
      intro!: good_and_then good_ignore_err good_Ok good_Err keeps_with_table)

lemma keeps_rpc: "I st \<Longrightarrow> (\<And>i s. \<not> Q (Request (mk i s))) \<Longrightarrow> good False I (rpc w n mk st)"
  unfolding rpc_def Let_def case_prod_beta
  by (intro good_and_then keeps_net_send keeps_await) (simp_all add: after_tick set_pending)

lemma keeps_offer_contact: "I st \<Longrightarrow> good False I (offer_contact w n st)"
  unfolding offer_contact_def by (rule keeps_with_table)

lemma keeps_health_check:
  "(\<And>i s. \<not> Q (Request (Ping i s))) \<Longrightarrow> I st \<Longrightarrow> good False I (health_check_ping w n st)"
  unfolding health_check_ping_def by (intro good_and_then keeps_rpc good_Ok)

lemma keeps_check_oldest:
  "(\<And>i s. \<not> Q (Request (Ping i s))) \<Longrightarrow> I st \<Longrightarrow> good False I (check_oldest w n b m st)"
  unfolding check_oldest_def
  by (intro good_outcome_case keeps_health_check good_and_then keeps_with_table good_Ok)

lemma keeps_record_contact:
  "(\<And>i s. \<not> Q (Request (Ping i s))) \<Longrightarrow> I st \<Longrightarrow> good False I (record_contact w n st)"
  unfolding record_contact_def
  by (auto split: prod.split update_status.split
      intro!: good_Ok good_and_then keeps_offer_contact keeps_check_oldest)

lemma keeps_drop_contact:
  "(\<And>i s. \<not> Q (Request (Ping i s))) \<Longrightarrow> I st \<Longrightarrow> good False I (drop_contact w n st)"
  unfolding drop_contact_def
  by (auto split: prod.split update_status.split
      intro!: good_Ok good_and_then keeps_offer_contact keeps_health_check)

text \<open>Once the request is out, the rest of a store needs only pings.\<close>

lemma keeps_store_rest:
  assumes "\<And>i s. \<not> Q (Request (Ping i s))" "good False I (rpc w n (\<lambda>i s. Store i s key v) st)"
  shows "good False I (store w n key v st)" and "good False I (store_within w n key v st)"
  unfolding store_within_def store_def using assms
  by (auto intro!: good_ignore_err good_and_then keeps_record_contact keeps_drop_contact good_Ok)

end

locale store_frame = frame +
  assumes ping_free: "\<not> Q (Request (Ping i s))"
    and store_free: "\<not> Q (Request (Store i s key v))"
begin

lemmas keeps_contact = keeps_record_contact [OF ping_free]

lemma keeps_store: "I st \<Longrightarrow> good False I (store w n key v st)"
  by (intro keeps_store_rest keeps_rpc ping_free store_free)

lemma keeps_store_on_nodes: "I st \<Longrightarrow> good False I (store_on_nodes w key v ns st)"
  by (induction ns arbitrary: st)
    (auto intro!: good_Ok good_and_then keeps_store_rest keeps_rpc simp: ping_free store_free)

end

locale serve_frame = store_frame +
  assumes after_get: "I st \<Longrightarrow> I (st\<lparr>p_storage := fst (sto_get (w_impl w) now key (p_storage st))\<rparr>)"
begin

lemma keeps_get: "I st \<Longrightarrow> good False I (with_storage w (\<lambda>e s. sto_get (w_impl w) (ev_instant e) key s) st)"
  using after_tick [of st] by (simp add: with_storage_def good_def case_prod_beta after_get)

lemma keeps_replicate_keys: "I st \<Longrightarrow> good False I (replicate_keys w n keys st)"
proof (induction keys arbitrary: st)
  case (Cons key keys)
  have step: "good False I
      (case with_storage w (\<lambda>e s. sto_get (w_impl w) (ev_instant e) key s) st1 of
         (st2, Ok value) \<Rightarrow> and_then (ignore_err (store w n key value st2)) (\<lambda>_ st3. replicate_keys w n keys st3)
       | (st2, Err _) \<Rightarrow> replicate_keys w n keys st2
       | (st2, Panic x) \<Rightarrow> (st2, Panic x))" if "I st1" for st1
    using that Cons.IH
    by (intro good_storage_case keeps_get good_and_then good_ignore_err keeps_store good_Panic)
  have "I (fst (tick w st))" using Cons.prems by (rule after_tick)
  with Cons.IH [OF this] step [OF this] show ?case
    unfolding replicate_keys.simps Let_def case_prod_beta by simp
qed (simp add: good_Ok)

lemma keeps_replicate: "I st \<Longrightarrow> good False I (replicate_to_new_node w n st)"
  unfolding replicate_to_new_node_def Let_def case_prod_beta by (intro keeps_replicate_keys after_tick)

lemma keeps_find_value_rpc:
  assumes "I st" "\<And>i s. \<not> Q (Request (FindValue i s key))"
  shows "good False I (find_value_rpc w n key st)"
  unfolding find_value_rpc_def Let_def case_prod_beta using assms
  by (auto split: wait_result.split response_message.split simp: after_tick set_pending add_wait
      intro!: good_and_then good_Ok good_Err keeps_net_send keeps_contact)

lemma keeps_find_value_tasks:
  assumes "\<And>i s. \<not> Q (Request (FindValue i s key))"
  shows "I st \<Longrightarrow> I (fst (find_value_tasks w key ns st))"
proof (induction ns arbitrary: st)
  case (Cons n ns)
  have "I (fst (find_value_rpc w n key st))"
    using keeps_find_value_rpc [OF Cons.prems assms] by (simp add: good_def)
  from Cons.IH [OF this] show ?case by (simp add: case_prod_beta)
qed simp

end

section \<open>What is sent\<close>

definition sent_of :: "(kademlia_message \<Rightarrow> bool) \<Rightarrow> 's protocol \<Rightarrow> (socket_addr \<times> kademlia_message) list" where
  "sent_of Q st = filter (\<lambda>(_, m). Q m) (p_sent st)"

abbreviation sent_is :: "(kademlia_message \<Rightarrow> bool) \<Rightarrow> (socket_addr \<times> kademlia_message) list \<Rightarrow> 's protocol \<Rightarrow> bool" where
  "sent_is Q R st \<equiv> sent_of Q st = R"

lemma sent_tick [simp]: "sent_of Q (fst (tick w st)) = sent_of Q st"
  by (simp add: sent_of_def tick_def Let_def)

lemma sent_frame [simp]:
  "sent_of Q (st\<lparr>p_pending := x\<rparr>) = sent_of Q st" "sent_of Q (st\<lparr>p_waits := y\<rparr>) = sent_of Q st"
  "sent_of Q (st\<lparr>p_table := t\<rparr>) = sent_of Q st" "sent_of Q (st\<lparr>p_storage := z\<rparr>) = sent_of Q st"
  by (simp_all add: sent_of_def)

fun is_response :: "kademlia_message \<Rightarrow> bool" where
  "is_response (Response _) = True"
| "is_response (Request _) = False"

interpretation sent: frame w "sent_is Q R" Q for w Q R
  by unfold_locales (simp_all add: sent_of_def tick_def Let_def)

interpretation replies: serve_frame w "sent_is is_response R" is_response for w R
  by unfold_locales simp_all

lemma sent_with_storage: "sent_is Q R st \<Longrightarrow> good False (sent_is Q R) (with_storage w f st)"
  using sent_tick [of Q w st] by (simp add: with_storage_def good_def case_prod_beta)

section \<open>Replies\<close>

text \<open>The kind of response each request asks for.\<close>

fun answers :: "request_message \<Rightarrow> response_message \<Rightarrow> bool" where
  "answers (Ping i _) (Pong j _) \<longleftrightarrow> j = i"
| "answers (Store i _ _ _) (StoreResult j _ _) \<longleftrightarrow> j = i"
| "answers (FindNode i _ target) (NodesFound j _ ns) \<longleftrightarrow> j = i \<and> length ns \<le> K \<and> by_distance target ns"
| "answers (FindValue i _ key) (ValueFound j _ v ns) \<longleftrightarrow>
     j = i \<and> length ns \<le> K \<and> by_distance key ns \<and> (v \<noteq> None \<longrightarrow> ns = [])"
| "answers _ _ \<longleftrightarrow> False"

lemma net_send_reply:
  assumes "net_send w from (Response r) st = (st', Ok x)"
  shows "sent_of is_response st' = sent_of is_response st @ [(from, Response r)]"
  using assms sent_tick [of is_response w st]
  by (auto simp: net_send_def case_prod_beta Let_def sent_of_def split: option.splits)

lemma closest_answer: "length (rt_get_closest t target K) \<le> K \<and> by_distance target (rt_get_closest t target K)"
  by (simp add: rt_get_closest_def by_distance_take_sort Let_def)

lemma p_id_tick [simp]: "p_id (fst (tick w st)) = p_id st" "p_addr (fst (tick w st)) = p_addr st"
  by (simp_all add: tick_def Let_def)

lemma with_storage_eqs:
  assumes "with_storage w f st = (st1, r)"
  shows "sent_of Q st1 = sent_of Q st"
  using assms sent_tick [of Q w st] by (auto simp: with_storage_def case_prod_beta)

lemma dispatch_reply:
  assumes "dispatch w req from st = (st', Ok ())"
  shows "\<exists>r. sent_of is_response st' = sent_of is_response st @ [(from, Response r)] \<and> answers req r"
proof (cases req)
  case (Ping i s)
  then have "net_send w from (Response (Pong i (local_node st))) st = (st', Ok ())"
    using assms by (simp add: handle_ping_def)
  from net_send_reply [OF this] show ?thesis using Ping by auto
next
  case (Store i s key v)
  obtain st1 r where 1: "with_storage w (\<lambda>e s. sto_store (w_impl w) (ev_instant e) key v s) st = (st1, r)" by force
  then have "net_send w from (Response (StoreResult i (local_node st1) (is_ok r))) st1 = (st', Ok ())"
    using assms Store by (cases r) (simp_all add: handle_store_def)
  from net_send_reply [OF this] with_storage_eqs [OF 1] show ?thesis using Store by auto
next
  case (FindNode i s target)
  then have "net_send w from (Response (NodesFound i (local_node (fst (tick w st)))
      (rt_get_closest (p_table (fst (tick w st))) target K))) (fst (tick w st)) = (st', Ok ())"
    using assms by (simp add: handle_find_node_def case_prod_beta)
  from net_send_reply [OF this] show ?thesis using FindNode closest_answer by auto
next
  case (FindValue i s key)
  obtain st1 r where 1: "with_storage w (\<lambda>e s. sto_get (w_impl w) (ev_instant e) key s) st = (st1, r)" by force
  show ?thesis
  proof (cases r)
    case (Ok v)
    then have "net_send w from (Response (ValueFound i (local_node st1) (Some v) [])) st1 = (st', Ok ())"
      using assms FindValue 1 by (simp add: handle_find_value_def)
    from net_send_reply [OF this] with_storage_eqs [OF 1] show ?thesis using FindValue by auto
  next
    case (Err e)
    then have "net_send w from (Response (ValueFound i (local_node (fst (tick w st1))) None
        (rt_get_closest (p_table (fst (tick w st1))) key K))) (fst (tick w st1)) = (st', Ok ())"
      using assms FindValue 1 by (simp add: handle_find_value_def case_prod_beta)
    from net_send_reply [OF this] with_storage_eqs [OF 1] show ?thesis using FindValue closest_answer by auto
  next
    case (Panic s)
    then show ?thesis using assms FindValue 1 by (simp add: handle_find_value_def)
  qed
qed

section \<open>Values\<close>

text \<open>The network answered with the value at the step \<open>c\<close> or later.\<close>

definition answered_value :: "'s world \<Rightarrow> nat \<Rightarrow> u8 list \<Rightarrow> bool" where
  "answered_value w c v \<longleftrightarrow> (\<exists>n i s ns. c \<le> n \<and> ev_wait (w_env w n) = Responded (ValueFound i s (Some v) ns))"

lemma answered_later: "answered_value w c v \<Longrightarrow> b \<le> c \<Longrightarrow> answered_value w b v"
  unfolding answered_value_def by (meson order_trans)

interpretation ticks: serve_frame w "\<lambda>st. c \<le> p_tick st" "\<lambda>_. False" for w c
  by unfold_locales (simp_all add: tick_def Let_def)

lemma ticks_up:
  "p_tick st \<le> p_tick (fst (find_value_rpc w n key st))" "p_tick st \<le> p_tick (fst (find_value_tasks w key ns st))"
  by (rule goodD [OF ticks.keeps_find_value_rpc], simp_all) (rule ticks.keeps_find_value_tasks, simp_all)

lemma and_then_OkD: "and_then r f = (st', Ok y) \<Longrightarrow> \<exists>x st. r = (st, Ok x) \<and> f x st = (st', Ok y)"
  by (auto simp: and_then_def split: prod.splits outcome.splits)

lemma find_value_rpc_value:
  assumes "find_value_rpc w n key st = (st', Ok (Some v, ns))"
  shows "answered_value w (p_tick st) v"
proof -
  obtain st1 e1 where t1: "tick w st = (st1, e1)" by force
  let ?req = "FindValue (ev_id e1) (local_node st1) key"
  let ?st = "st1\<lparr>p_pending := hm_insert (ev_id e1) ?req (p_pending st1)\<rparr>"
  obtain st3 r where s: "net_send w (addr n) (Request ?req) ?st = (st3, r)" by force
  have le: "p_tick st \<le> p_tick st3"
    using t1 s by (auto simp: net_send_def tick_def Let_def split: option.splits)
  obtain st4 e4 where t4: "tick w (st3\<lparr>p_waits := p_waits st3 @ [(ev_id e1, from_secs 10)]\<rparr>) = (st4, e4)" by force
  then have e4: "e4 = w_env w (p_tick st3)" by (auto simp: tick_def Let_def)
  show ?thesis
    using assms le unfolding find_value_rpc_def t1 Let_def prod.case s
    by (cases r)
      (auto simp: and_then_def [of "(st3, _)"] t4 e4 answered_value_def dest!: and_then_OkD
        split: wait_result.splits response_message.splits)
qed

lemma find_value_tasks_values:
  "Some (Some v, ns) \<in> set (snd (find_value_tasks w key nodes st)) \<Longrightarrow> answered_value w (p_tick st) v"
proof (induction nodes arbitrary: st)
  case (Cons n nodes)
  obtain st1 r where r: "find_value_rpc w n key st = (st1, r)" by force
  then have "p_tick st \<le> p_tick st1"
    using ticks_up(1) [of st w n key] by simp
  then show ?case
    using Cons r find_value_rpc_value [of w n key st st1 v ns]
    by (cases r) (auto simp: case_prod_beta intro: answered_later)
qed simp

lemma collect_results_Inl: "collect_results rs V acc = Inl v \<Longrightarrow> \<exists>ns. Some (Some v, ns) \<in> set rs"
  by (induction rs V acc rule: collect_results.induct) auto

lemma find_value_loop_value:
  "snd (find_value_loop w key m V cl st) = Ok (Some v) \<Longrightarrow> answered_value w (p_tick st) v"
proof (induction m arbitrary: V cl st)
  case (Suc m)
  define q where "q = take ALPHA (filter (\<lambda>n. nid n \<notin> V \<and> nid n \<noteq> p_id st) cl)"
  obtain st1 rs where t: "find_value_tasks w key q st = (st1, rs)" by force
  then have le: "p_tick st \<le> p_tick st1"
    using ticks_up(2) [of st w key q] by simp
  show ?case
  proof (cases "q = []")
    case False
    show ?thesis
    proof (cases "collect_results rs (V \<union> ids q) []")
      case (Inl v')
      then have "v' = v"
        using Suc.prems False t
        by (auto simp: q_def [symmetric] and_then_def split: prod.splits outcome.splits)
      with collect_results_Inl [OF Inl] find_value_tasks_values [of v _ w key q st] t show ?thesis by auto
    next
      case (Inr ns)
      then show ?thesis
        using Suc.prems Suc.IH False t le by (auto simp: q_def [symmetric] split: if_splits intro: answered_later)
    qed
  qed (use Suc.prems in \<open>simp add: q_def\<close>)
qed simp

text \<open>How many queries a lookup sends.\<close>

fun is_find_value :: "kademlia_message \<Rightarrow> bool" where
  "is_find_value (Request (FindValue _ _ _)) = True"
| "is_find_value _ = False"

definition queries :: "'s protocol \<Rightarrow> nat" where
  "queries st = length (sent_of is_find_value st)"

lemma queries_tick [simp]: "queries (fst (tick w st)) = queries st"
  by (simp add: queries_def)

lemma queries_frame [simp]:
  "queries (st\<lparr>p_pending := x\<rparr>) = queries st" "queries (st\<lparr>p_waits := y\<rparr>) = queries st"
  by (simp_all add: queries_def)

lemma queries_record_contact: "queries (fst (record_contact w n st)) = queries st"
  using goodD [OF sent.keeps_record_contact [where Q = is_find_value and st = st, OF _ refl], of w n]
  by (simp add: queries_def)

lemma queries_with_storage: "queries (fst (with_storage w f st)) = queries st"
  using goodD [OF sent_with_storage [where Q = is_find_value and st = st, OF refl], of w f]
  by (simp add: queries_def)

lemma queries_net_send: "queries (fst (net_send w dest m st)) \<le> queries st + 1"
  using sent_tick [of is_find_value w st]
  by (auto simp: net_send_def queries_def sent_of_def case_prod_beta Let_def split: option.split)

lemma good_contact_queries: "queries st \<le> c \<Longrightarrow> good False (\<lambda>st. queries st \<le> c) (record_contact w n st)"
  by (simp add: good_def queries_record_contact)

lemma good_queries:
  assumes "queries st < c"
  shows "good False (\<lambda>st. queries st \<le> c) (find_value_rpc w n key st)"
  unfolding find_value_rpc_def Let_def case_prod_beta
proof (rule good_and_then, goal_cases)
  case 1
  show ?case using assms by (auto simp: good_def intro!: order_trans [OF queries_net_send])
next
  case (2 x st3)
  then show ?case
    by (auto split: wait_result.split response_message.split
        intro!: good_and_then good_contact_queries good_Ok good_Err)
qed

lemma queries_tasks: "queries (fst (find_value_tasks w key ns st)) \<le> queries st + length ns"
proof (induction ns arbitrary: st)
  case (Cons n ns)
  have "queries (fst (find_value_rpc w n key st)) \<le> queries st + 1"
    using goodD [OF good_queries [of st "queries st + 1" w n key]] by simp
  with Cons.IH [of "fst (find_value_rpc w n key st)"] show ?case by (simp add: case_prod_beta)
qed simp

lemma queries_loop: "queries (fst (find_value_loop w key m V cl st)) \<le> queries st + ALPHA * m"
proof (induction m arbitrary: V cl st)
  case (Suc m)
  define q where "q = take ALPHA (filter (\<lambda>n. nid n \<notin> V \<and> nid n \<noteq> p_id st) cl)"
  obtain st1 rs where t: "find_value_tasks w key q st = (st1, rs)" by force
  have st1: "queries st1 \<le> queries st + ALPHA"
    using queries_tasks [of w key q st] t by (auto simp: q_def intro: order_trans)
  have cached: "queries (fst (and_then (ignore_err (with_storage w f st1)) (\<lambda>_ st2. (st2, Ok (Some v))))) = queries st1"
    for f :: "env_step \<Rightarrow> 'a \<Rightarrow> 'a \<times> unit outcome" and v :: "u8 list"
    using queries_with_storage [of w f st1]
    by (auto simp: and_then_def ignore_err_def split: prod.split outcome.split)
  show ?case
  proof (cases "collect_results rs (V \<union> ids q) []")
    case (Inl v)
    then show ?thesis using t st1 cached by (simp add: q_def [symmetric])
  next
    case (Inr ns)
    then show ?thesis
      using t st1 Suc.IH [of "V \<union> ids q" "take K (sort_key (\<lambda>n. distance key (nid n)) (cl @ ns))" st1]
      by (simp add: q_def [symmetric])
  qed
qed simp

lemma queries_find_value: "queries (fst (find_value w key st)) \<le> queries st + 50"
proof -
  obtain st1 r where g: "with_storage w (\<lambda>e s. sto_get (w_impl w) (ev_instant e) key s) st = (st1, r)" by force
  then have "queries st1 = queries st"
    using queries_with_storage [of w "\<lambda>e s. sto_get (w_impl w) (ev_instant e) key s" st] by simp
  then show ?thesis
    using queries_loop [of w key MAX_ITERATIONS _ _ "fst (tick w st1)"]
    by (cases r) (auto simp: find_value_def g case_prod_beta Let_def MAX_ITERATIONS_def ALPHA_def)
qed

section \<open>How long a call waits\<close>

text \<open>What a request waits for a contact that was looked up in the table.\<close>

definition request_limit :: "node option \<Rightarrow> duration" where
  "request_limit known =
     (case known of
        None \<Rightarrow> from_secs 30
      | Some x \<Rightarrow> (case avg_response_time_ms (stats x) of
                    None \<Rightarrow> from_secs 5
                  | Some avg \<Rightarrow> from_millis (min (3 * unat avg + 5000) 30000)))"

lemma request_limit_eq:
  assumes "case known of None \<Rightarrow> True | Some x \<Rightarrow>
    (case avg_response_time_ms (stats x) of None \<Rightarrow> True | Some avg \<Rightarrow> unat avg < 2 ^ 60)"
  shows "request_limit known = (case known of
    Some existing \<Rightarrow> adaptive_timeout (stats existing) 3 (from_secs 5) | None \<Rightarrow> RPC_TIMEOUT)"
proof (cases known)
  case (Some x)
  then show ?thesis
    using assms adaptive_timeout_exact [of "stats x"]
    by (cases "avg_response_time_ms (stats x)") (simp_all add: request_limit_def adaptive_timeout_def [of "stats x"])
qed (simp add: request_limit_def RPC_TIMEOUT_def)

lemma waits_tick [simp]: "p_waits (fst (tick w st)) = p_waits st" "p_tick (fst (tick w st)) = p_tick st + 1"
  "p_table (fst (tick w st)) = run rt_apply (ev_table (w_env w (p_tick st))) (p_table st)"
  by (simp_all add: tick_def Let_def)

lemma waits_await: "p_waits (fst (await_response w n i limit st)) = p_waits st @ [(i, limit)]"
  by (auto simp: await_response_def with_table_def and_then_def ignore_err_def case_prod_beta Let_def
      split: wait_result.split outcome.split)

lemma waits_net_send: "p_waits (fst (net_send w dest m st)) = p_waits st"
  "snd (net_send w dest m st) = (case ev_send (w_env w (p_tick st)) of None \<Rightarrow> Ok () | Some err \<Rightarrow> Err err)"
  by (auto simp: net_send_def tick_def Let_def split: option.split)

text \<open>A wait that was begun stays in the list.\<close>

interpretation waited: store_frame w "\<lambda>st. prefix ws (p_waits st)" "\<lambda>_. False" for w ws
  by unfold_locales simp_all

lemma rpc_waits:
  fixes w n st
  defines "i \<equiv> ev_id (w_env w (p_tick st))"
  defines "t \<equiv> run rt_apply (ev_table (w_env w (p_tick st)) @ ev_table (w_env w (p_tick st + 1))) (p_table st)"
  shows "p_waits (fst (rpc w n make_request st)) = p_waits st @
    (if ev_send (w_env w (p_tick st + 2)) = None
     then [(i, case rt_get t (nid n) of
                 Some existing \<Rightarrow> adaptive_timeout (stats existing) 3 (from_secs 5)
               | None \<Rightarrow> RPC_TIMEOUT)]
     else [])"
proof -
  obtain st1 e1 where t1: "tick w st = (st1, e1)" by force
  let ?st = "st1\<lparr>p_pending := hm_insert (ev_id e1) (make_request (ev_id e1) (local_node st1)) (p_pending st1)\<rparr>"
  obtain st2 e2 where t2: "tick w ?st = (st2, e2)" by force
  have 2: "p_waits st2 = p_waits st" "p_tick st2 = p_tick st + 2" "p_table st2 = t" "ev_id e1 = i"
    using t1 t2 by (auto simp: tick_def Let_def t_def i_def)
  obtain st3 r where s: "net_send w (addr n) (Request (make_request (ev_id e1) (local_node st1))) st2 = (st3, r)" by force
  have "p_waits st3 = p_waits st" "r = (case ev_send (w_env w (p_tick st + 2)) of None \<Rightarrow> Ok () | Some err \<Rightarrow> Err err)"
    using waits_net_send [of w "addr n" "Request (make_request (ev_id e1) (local_node st1))" st2] s 2(1,2) by simp_all
  then show ?thesis
    unfolding rpc_def t1 Let_def prod.case t2 s using 2(3,4)
    by (cases "ev_send (w_env w (p_tick st + 2))") (simp_all add: and_then_def waits_await)
qed

lemma find_value_rpc_waits:
  fixes w n st
  defines "i \<equiv> ev_id (w_env w (p_tick st))"
  shows "\<exists>pings. p_waits (fst (find_value_rpc w n key st)) = p_waits st @
    (if ev_send (w_env w (p_tick st + 1)) = None then (i, from_secs 10) # pings else [])"
proof -
  obtain st1 e1 where t1: "tick w st = (st1, e1)" by force
  let ?req = "FindValue (ev_id e1) (local_node st1) key"
  let ?st = "st1\<lparr>p_pending := hm_insert (ev_id e1) ?req (p_pending st1)\<rparr>"
  have 1: "p_waits ?st = p_waits st" "p_tick ?st = p_tick st + 1" "ev_id e1 = i"
    using t1 by (auto simp: tick_def Let_def i_def)
  obtain st3 r where s: "net_send w (addr n) (Request ?req) ?st = (st3, r)" by force
  have 3: "p_waits st3 = p_waits st" "r = (case ev_send (w_env w (p_tick st + 1)) of None \<Rightarrow> Ok () | Some err \<Rightarrow> Err err)"
    using waits_net_send [of w "addr n" "Request ?req" ?st] s 1(1,2) by simp_all
  obtain st4 e4 where t4: "tick w (st3\<lparr>p_waits := p_waits st3 @ [(i, from_secs 10)]\<rparr>) = (st4, e4)" by force
  have 4: "prefix (p_waits st @ [(i, from_secs 10)]) (p_waits st4)"
    using t4 3(1) by (auto simp: tick_def Let_def)
  show ?thesis
  proof (cases "ev_send (w_env w (p_tick st + 1))")
    case None
    then have "good False (\<lambda>st'. prefix (p_waits st @ [(i, from_secs 10)]) (p_waits st')) (find_value_rpc w n key st)"
      unfolding find_value_rpc_def t1 Let_def prod.case s using 4
      by (auto simp: and_then_def [of "(st3, Ok ())"] 3(2) 1(3) t4 split: wait_result.split response_message.split
          intro!: good_and_then good_Ok good_Err waited.keeps_contact)
    from goodD [OF this] show ?thesis using None by (auto simp: prefix_def)
  next
    case (Some err)
    with 3 show ?thesis unfolding find_value_rpc_def t1 Let_def prod.case s by (simp add: and_then_def)
  qed
qed

section \<open>Storing on other nodes\<close>

text \<open>Nothing sent is ever taken back.\<close>

abbreviation has_sent :: "socket_addr \<times> kademlia_message \<Rightarrow> 's protocol \<Rightarrow> bool" where
  "has_sent x st \<equiv> x \<in> set (p_sent st)"

lemma p_sent_tick [simp]: "p_sent (fst (tick w st)) = p_sent st"
  by (simp add: tick_def Let_def)

interpretation out: store_frame w "has_sent x" "\<lambda>_. False" for w x
  by unfold_locales (simp_all add: tick_def Let_def)

lemma rpc_sends:
  assumes "\<And>t. ev_send (w_env w t) = None"
  shows "\<exists>i. has_sent (addr n, Request (mk i (new_node (p_id st) (p_addr st)))) (fst (rpc w n mk st))"
proof -
  let ?st1 = "fst (tick w st)" and ?i = "ev_id (snd (tick w st))"
  let ?st2 = "fst (tick w (?st1\<lparr>p_pending := hm_insert ?i (mk ?i (local_node ?st1)) (p_pending ?st1)\<rparr>))"
  let ?x = "(addr n, Request (mk ?i (local_node ?st1)))"
  have "ev_send (snd (tick w ?st2)) = None" using assms by (simp add: tick_def Let_def)
  then have "net_send w (addr n) (Request (mk ?i (local_node ?st1))) ?st2 =
      ((fst (tick w ?st2))\<lparr>p_sent := p_sent (fst (tick w ?st2)) @ [?x]\<rparr>, Ok ())"
    by (simp add: net_send_def case_prod_beta Let_def)
  then have "has_sent ?x (fst (rpc w n mk st))"
    unfolding rpc_def Let_def case_prod_beta by (auto simp: and_then_def intro!: goodD [OF out.keeps_await])
  then show ?thesis by (auto simp: local_node_def)
qed

lemma store_within_sends:
  assumes "\<And>t. ev_send (w_env w t) = None"
  shows "\<exists>i. has_sent (addr n, Request (Store i (new_node (p_id st) (p_addr st)) key v))
    (fst (store_within w n key v st))"
proof -
  obtain i where i: "has_sent (addr n, Request (Store i (new_node (p_id st) (p_addr st)) key v))
      (fst (rpc w n (\<lambda>i s. Store i s key v) st))"
    using rpc_sends [OF assms, of n "\<lambda>i s. Store i s key v" st] by blast
  let ?sent = "has_sent (addr n, Request (Store i (new_node (p_id st) (p_addr st)) key v))"
  have "good False ?sent (rpc w n (\<lambda>i s. Store i s key v) st)" using i by (simp add: good_def)
  then have "good False ?sent (store_within w n key v st)"
    by (intro out.keeps_store_rest) simp
  then show ?thesis using goodD by blast
qed

lemma store_within_no_err: "snd (store_within w n key v st) \<noteq> Err e"
  by (auto simp: store_within_def ignore_err_def split: prod.split outcome.split)

lemma store_on_nodes_sends:
  assumes "\<And>t. ev_send (w_env w t) = None" "0 < k"
  shows "protocol_ok l k st \<Longrightarrow> n \<in> set ns \<Longrightarrow> nid n \<noteq> l \<Longrightarrow>
    \<exists>i s. has_sent (addr n, Request (Store i s key v)) (fst (store_on_nodes w key v ns st))"
proof (induction ns arbitrary: st)
  case (Cons m ns)
  have l: "p_id st = l" using Cons.prems(1) by (simp add: protocol_ok_def)
  show ?case
  proof (cases "nid m = l")
    case True
    then show ?thesis using Cons l by auto
  next
    case False
    obtain st1 r where r: "store_within w m key v st = (st1, r)" by force
    have g: "good True (protocol_ok l k) (store_within w m key v st)"
      using good_store_within [OF Cons.prems(1), of w m key v] assms(2) by simp
    then have st1: "protocol_ok l k st1" using r by (simp add: good_def)
    have "r = Ok ()" using g store_within_no_err [of w m key v st] r by (cases r) (auto simp: good_def)
    then have eq: "store_on_nodes w key v (m # ns) st = store_on_nodes w key v ns st1"
      using False l r by (simp add: and_then_def)
    show ?thesis
    proof (cases "n = m")
      case True
      obtain i where "has_sent (addr n, Request (Store i (new_node (p_id st) (p_addr st)) key v)) st1"
        using store_within_sends [OF assms(1), of m st key v] r True by auto
      from goodD [OF out.keeps_store_on_nodes [OF this, of w key v ns]] show ?thesis unfolding eq by blast
    next
      case False
      then show ?thesis using Cons.IH [OF st1] Cons.prems eq by simp
    qed
  qed
qed simp

section \<open>The stages of a handler\<close>

lemma handled_stages:
  assumes "handle_request w req from st = (st', Ok ())"
  shows "\<exists>b st1 st2. record_contact w (req_sender req) st = (st1, Ok b) \<and> dispatch w req from st1 = (st2, Ok ()) \<and>
    st' = (if b then fst (replicate_to_new_node w (req_sender req) st2) else st2)"
proof -
  from and_then_OkD [OF assms [unfolded handle_request_def]] obtain b st1 where
    1: "record_contact w (req_sender req) st = (st1, Ok b)" and
    rest: "and_then (dispatch w req from st1) (\<lambda>_ st2.
       if b then ignore_err (replicate_to_new_node w (req_sender req) st2) else (st2, Ok ())) = (st', Ok ())"
    by blast
  from and_then_OkD [OF rest] obtain st2 where
    2: "dispatch w req from st1 = (st2, Ok ())" and
    3: "(if b then ignore_err (replicate_to_new_node w (req_sender req) st2) else (st2, Ok ())) = (st', Ok ())"
    by auto
  from 3 have "st' = (if b then fst (replicate_to_new_node w (req_sender req) st2) else st2)"
    by (auto simp: ignore_err_def split: if_splits prod.splits outcome.splits)
  with 1 2 show ?thesis by blast
qed

section \<open>A sample node\<close>

text \<open>
  A node with the identifier 0 and an empty table, in an environment in which sending works, every
  wait elapses and no other task runs.
\<close>

definition sample_env :: "wait_result \<Rightarrow> env_step" where
  "sample_env r = \<lparr>ev_id = 7, ev_random = id_zero, ev_now = 0, ev_instant = 0, ev_send = None, ev_wait = r,
     ev_elapsed_ms = 0, ev_table = [], ev_storage = [], ev_dropped = False\<rparr>"

definition sample_world :: "memory_storage world" where
  "sample_world = \<lparr>w_impl = memory_impl, w_env = (\<lambda>_. sample_env Elapsed)\<rparr>"

definition sample_node :: "memory_storage protocol" where
  "sample_node = protocol_new id_zero (addr node_a) (rt_with_k id_zero 20) ms_new"

lemma sample_node_ok: "protocol_ok id_zero 20 sample_node"
  by (simp add: sample_node_def protocol_ok_new)

text \<open>A third sample contact, closer to 0 than the other two.\<close>

definition node_c :: node where
  "node_c = new_node (from_bytes [1]) (SocketAddrV4 0x7F000001 4002)"

lemma sample_order:
  "distance (nid node_c) id_zero < distance (nid node_a) id_zero"
  "distance (nid node_a) id_zero < distance (nid node_b) id_zero"
  "distance (nid node_c) id_zero < distance (nid node_b) id_zero"
  "nid node_c \<noteq> id_zero" "nid node_c \<noteq> nid node_a" "nid node_c \<noteq> nid node_b"
proof -
  have z: "replicate 20 (0 :: u8) = 0 # replicate 19 0" by (simp add: numeral_eq_Suc)
  show "distance (nid node_c) id_zero < distance (nid node_a) id_zero"
    "distance (nid node_a) id_zero < distance (nid node_b) id_zero"
    "distance (nid node_c) id_zero < distance (nid node_b) id_zero"
    "nid node_c \<noteq> id_zero" "nid node_c \<noteq> nid node_a" "nid node_c \<noteq> nid node_b"
    by (simp_all add: less_node_id_def cmp_def as_bytes_distance sample_defs node_c_def z)
qed

section \<open>Properties\<close>

text \<open>
  C6: an iterative node lookup of a node with a positive bucket capacity always ends, with any
  answers from the network, and returns normally: at most 20 nodes in order of their distance to
  the target, the node itself not among them.
\<close>

theorem find_node_returns:
  fixes w :: "'s world" and ops l a k s
  defines "st \<equiv> run (proto_apply w) ops (protocol_new l a (rt_with_k l k) s)"
  assumes "0 < k"
  shows "\<exists>ns. snd (find_node w target st) = Ok ns \<and> length ns \<le> 20 \<and> l \<notin> nid ` set ns \<and>
    sorted (map (\<lambda>n. distance (nid n) target) ns)"
proof -
  have ok: "protocol_ok l k st" unfolding st_def by (rule protocol_run_ok)
  from find_node_ok(1) [OF ok assms(2), of w target] show ?thesis
    by (auto simp: lookup_ok_def K_def)
qed

theorem find_node_returns_witness:
  "\<exists>ns. snd (find_node sample_world (nid node_a)
      (run (proto_apply sample_world) [PContact node_b] (protocol_new id_zero (addr node_a) (rt_with_k id_zero 20) ms_new))) = Ok ns \<and>
    length ns \<le> 20"
  using find_node_returns [where k = 20 and w = sample_world and ops = "[PContact node_b]"] by (metis zero_less_numeral)

text \<open>
  C7: a request handler that returns normally has sent exactly one response, to the address the
  request came from: it carries the identifier of the request and is of the kind the request asks
  for, with at most 20 nodes in order of distance, and no nodes beside a value. Pings and
  replication sent meanwhile are requests.
\<close>

theorem handler_replies_once:
  assumes "snd (handle_request w req from st) = Ok ()"
  shows "\<exists>r. sent_of is_response (fst (handle_request w req from st)) =
      sent_of is_response st @ [(from, Response r)] \<and> answers req r"
proof -
  obtain st' where h: "handle_request w req from st = (st', Ok ())"
    using assms by (cases "handle_request w req from st") simp
  from handled_stages [OF h] obtain b st1 st2 where
    1: "record_contact w (req_sender req) st = (st1, Ok b)" and 2: "dispatch w req from st1 = (st2, Ok ())" and
    3: "st' = (if b then fst (replicate_to_new_node w (req_sender req) st2) else st2)"
    by blast
  have "sent_of is_response st1 = sent_of is_response st"
    using goodD [OF replies.keeps_contact [OF refl [of "sent_of is_response st"]], of w "req_sender req"] 1 by simp
  moreover have "sent_of is_response st' = sent_of is_response st2"
    using goodD [OF replies.keeps_replicate [OF refl [of "sent_of is_response st2"]]] 3 by simp
  ultimately show ?thesis using dispatch_reply [OF 2] h by simp
qed

theorem handler_replies_once_witness:
  "\<exists>r. sent_of is_response (fst (handle_request sample_world (Ping 3 (new_node id_zero (addr node_b))) (addr node_b) sample_node)) =
      sent_of is_response sample_node @ [(addr node_b, Response r)] \<and> answers (Ping 3 (new_node id_zero (addr node_b))) r"
  by (rule handler_replies_once)
    (simp add: handle_request_def record_contact_def sample_node_def protocol_new_def and_then_def
      handle_ping_def net_send_def tick_def sample_world_def sample_env_def)

text \<open>
  C9: a value lookup sends at most 50 queries, and a value it returns was read from the local
  storage or came in an answer from the network after the lookup had started.
\<close>

theorem find_value_sound:
  "queries (fst (find_value w key st)) \<le> queries st + 50 \<and>
   (snd (find_value w key st) = Ok (Some v) \<longrightarrow>
      snd (with_storage w (\<lambda>e s. sto_get (w_impl w) (ev_instant e) key s) st) = Ok v \<or> answered_value w (p_tick st) v)"
proof -
  obtain st1 r where g: "with_storage w (\<lambda>e s. sto_get (w_impl w) (ev_instant e) key s) st = (st1, r)" by force
  have le: "p_tick st \<le> p_tick st1" using g by (auto simp: with_storage_def tick_def Let_def split: prod.splits)
  have loop: "answered_value w (p_tick st) v"
    if "snd (find_value_loop w key MAX_ITERATIONS V cl (fst (tick w st1))) = Ok (Some v)" for V cl
    using find_value_loop_value [OF that] le by (auto intro: answered_later)
  have "r = Ok v \<or> answered_value w (p_tick st) v" if "snd (find_value w key st) = Ok (Some v)"
    using that loop by (cases r) (auto simp: find_value_def g case_prod_beta Let_def split: if_splits)
  with g queries_find_value [of w key st] show ?thesis by simp
qed

theorem find_value_sound_witness:
  defines "st \<equiv> sample_node\<lparr>p_storage := fst (ms_store 0 (nid node_a) [1] ms_new)\<rparr>"
  shows "snd (find_value sample_world (nid node_a) st) = Ok (Some [1]) \<and>
    (snd (with_storage sample_world (\<lambda>e s. sto_get (w_impl sample_world) (ev_instant e) (nid node_a) s) st) = Ok [1] \<or>
     answered_value sample_world 0 [1])"
proof -
  have "snd (find_value sample_world (nid node_a) st) = Ok (Some [1])"
    by (simp add: st_def find_value_def with_storage_def tick_def sample_world_def sample_env_def memory_impl_def
        ms_get_def entry_expiry_def instant_add_def INSTANT_LIMIT_def ms_new_def DEFAULT_TTL_def from_secs_def)
  moreover have "p_tick st = 0" by (simp add: st_def sample_node_def protocol_new_def)
  ultimately show ?thesis using find_value_sound [of sample_world "nid node_a" st "[1]"] by simp
qed


text \<open>
  A node that knows \<open>node_a\<close> and \<open>node_b\<close>, in a network in which the first request is answered with
  \<open>node_c\<close> and no other request is answered.
\<close>

definition lookup_world :: "memory_storage world" where
  "lookup_world = sample_world\<lparr>w_env := (\<lambda>t. sample_env
     (if t = 4 then Responded (NodesFound 7 (new_node id_zero (addr node_a)) [node_c]) else Elapsed))\<rparr>"

definition lookup_node :: "memory_storage protocol" where
  "lookup_node = sample_node\<lparr>p_table := rt_put 0
     \<lparr>kb_k = 20, kb_local = id_zero, kb_prefix_len = 0, kb_nodes = [node_a, node_b], kb_cache = []\<rparr> (rt_with_k id_zero 20)\<rparr>"

lemma lookup_node_ok: "protocol_ok id_zero 20 lookup_node" "p_tick lookup_node = 0" "p_id lookup_node = id_zero"
  by (simp_all add: lookup_node_def sample_node_def protocol_new_def protocol_ok_def table_ok_def rt_inv_put
      rt_inv_with_k kb_inv_def)

lemma lookup_env [simp]:
  "ev_send (w_env lookup_world t) = None" "ev_table (w_env lookup_world t) = []"
  "ev_wait (w_env lookup_world t) =
     (if t = 4 then Responded (NodesFound 7 (new_node id_zero (addr node_a)) [node_c]) else Elapsed)"
  by (simp_all add: lookup_world_def sample_env_def)

text \<open>When sending works, a call without a panic returns what the wait gives, five steps later.\<close>

lemma ticked_with_table:
  "\<not> panics (snd (ignore_err (with_table w f st))) \<Longrightarrow>
   \<exists>st'. ignore_err (with_table w f st) = (st', Ok ()) \<and> p_tick st' = p_tick st + 1"
  by (auto simp: ignore_err_def with_table_def tick_def case_prod_beta Let_def split: outcome.splits)

lemma await_result:
  assumes "\<not> panics (snd (await_response w n i limit st))" "ev_wait (w_env w (p_tick st)) = r"
  shows "r = Responded response \<Longrightarrow> \<exists>st'. await_response w n i limit st = (st', Ok response) \<and> p_tick st' = p_tick st + 2"
    and "r = Elapsed \<Longrightarrow> \<exists>st'. await_response w n i limit st = (st', Err Timeout) \<and> p_tick st' = p_tick st + 2"
proof -
  obtain st1 e where t: "tick w (st\<lparr>p_waits := p_waits st @ [(i, limit)]\<rparr>) = (st1, e)" by force
  have 1: "p_tick st1 = p_tick st + 1" "ev_wait e = r" using t assms(2) by (auto simp: tick_def Let_def)
  let ?st2 = "st1\<lparr>p_pending := hm_remove i (p_pending st1)\<rparr>"
  note await = await_response_def [of w n i limit st, unfolded t Let_def prod.case]
  show "\<exists>st'. await_response w n i limit st = (st', Ok response) \<and> p_tick st' = p_tick st + 2" if "r = Responded response"
  proof -
    let ?q = "ignore_err (with_table w (\<lambda>e' t. rt_record_success (ev_now e') (nid n) (ev_elapsed_ms e) t) ?st2)"
    have a: "await_response w n i limit st = and_then ?q (\<lambda>_ st3. (st3, Ok response))" using await that 1 by simp
    then have "\<not> panics (snd ?q)" using assms(1) by (auto simp: and_then_def case_prod_beta split: outcome.splits)
    from ticked_with_table [OF this] a 1 show ?thesis by (auto simp: and_then_def)
  qed
  show "\<exists>st'. await_response w n i limit st = (st', Err Timeout) \<and> p_tick st' = p_tick st + 2" if "r = Elapsed"
  proof -
    let ?q = "ignore_err (with_table w (\<lambda>e' t. rt_record_failure (ev_now e') (nid n) t) ?st2)"
    have a: "await_response w n i limit st = and_then ?q (\<lambda>_ st3. (st3, Err Timeout))" using await that 1 by simp
    then have "\<not> panics (snd ?q)" using assms(1) by (auto simp: and_then_def case_prod_beta split: outcome.splits)
    from ticked_with_table [OF this] a 1 show ?thesis by (auto simp: and_then_def)
  qed
qed

lemma rpc_result:
  assumes "protocol_ok l k st" "0 < k" "ev_send (w_env w (p_tick st + 2)) = None"
    and "ev_wait (w_env w (p_tick st + 3)) = r"
  shows "r = Responded response \<Longrightarrow> \<exists>st'. rpc w n mk st = (st', Ok response) \<and> p_tick st' = p_tick st + 5 \<and> protocol_ok l k st'"
    and "r = Elapsed \<Longrightarrow> \<exists>st'. rpc w n mk st = (st', Err Timeout) \<and> p_tick st' = p_tick st + 5 \<and> protocol_ok l k st'"
proof -
  have good: "\<not> panics (snd (rpc w n mk st))" "protocol_ok l k (fst (rpc w n mk st))"
    using good_rpc [OF assms(1), of w n mk] assms(2) by (simp_all add: good_def)
  obtain st1 e1 where t1: "tick w st = (st1, e1)" by force
  let ?req = "mk (ev_id e1) (local_node st1)"
  let ?st = "st1\<lparr>p_pending := hm_insert (ev_id e1) ?req (p_pending st1)\<rparr>"
  obtain st2 e2 where t2: "tick w ?st = (st2, e2)" by force
  obtain st3 e3 where t3: "tick w st2 = (st3, e3)" by force
  let ?st3 = "st3\<lparr>p_sent := p_sent st3 @ [(addr n, Request ?req)]\<rparr>"
  have 3: "p_tick ?st3 = p_tick st + 3" "ev_send e3 = None"
    using t1 t2 t3 assms(3) by (auto simp: tick_def Let_def numeral_eq_Suc)
  obtain limit where rpc: "rpc w n mk st = await_response w n (ev_id e1) limit ?st3"
    using t1 t2 t3 3(2) that by (simp add: rpc_def net_send_def and_then_def Let_def)
  have w: "ev_wait (w_env w (p_tick ?st3)) = r" using assms(4) 3(1) by simp
  note res = await_result [OF good(1) [unfolded rpc] w]
  show "\<exists>st'. rpc w n mk st = (st', Ok response) \<and> p_tick st' = p_tick st + 5 \<and> protocol_ok l k st'" if "r = Responded response"
    using res(1) [OF that] good(2) 3(1) unfolding rpc by auto
  show "\<exists>st'. rpc w n mk st = (st', Err Timeout) \<and> p_tick st' = p_tick st + 5 \<and> protocol_ok l k st'" if "r = Elapsed"
    using res(2) [OF that] good(2) 3(1) unfolding rpc by auto
qed


text \<open>
  C8: storing a value offers it to every one of the 20 contacts closest to the key: when sending
  works and the local store succeeds, a \<^verbatim>\<open>STORE\<close> request with the key and the value goes out to each
  of them, whatever the others answer and whether they answer at all.
\<close>

theorem store_value_reaches_closest:
  fixes w :: "'s world" and ops l a k s key v
  defines "st \<equiv> run (proto_apply w) ops (protocol_new l a (rt_with_k l k) s)"
  defines "stored \<equiv> with_storage w (\<lambda>e s. sto_store (w_impl w) (ev_instant e) key v s) st"
  assumes "0 < k" "\<forall>t. ev_send (w_env w t) = None" "snd stored = Ok ()"
    and "n \<in> set (rt_get_closest (p_table (fst (tick w (fst stored)))) key K)"
  shows "\<exists>i s. (addr n, Request (Store i s key v)) \<in> set (p_sent (fst (store_value w key v st)))"
proof -
  let ?c = "rt_get_closest (p_table (fst (tick w (fst stored)))) key K"
  have "protocol_ok l k st" unfolding st_def by (rule protocol_run_ok)
  then have "protocol_ok l k (fst stored)"
    unfolding stored_def by (rule goodD [OF good_with_storage [where np = False]]) simp
  then have ok: "protocol_ok l k (fst (tick w (fst stored)))" by (rule protocol_ok_tick)
  then have "nid n \<noteq> l"
    using assms(6) lookup_ok_start [of l k _ key] by (auto simp: protocol_ok_def lookup_ok_def)
  moreover have "store_value w key v st = store_on_nodes w key v ?c (fst (tick w (fst stored)))"
  proof -
    obtain st1 where "stored = (st1, Ok ())" using assms(5) by (cases stored) simp
    moreover have "?c \<noteq> []" using assms(6) by auto
    ultimately show ?thesis
      unfolding store_value_def stored_def [symmetric]
      by (simp add: and_then_def Let_def case_prod_beta)
  qed
  ultimately show ?thesis
    using store_on_nodes_sends [of w k l _ n ?c key v] assms(3,4,6) ok by simp
qed

theorem store_value_reaches_closest_witness:
  defines "st \<equiv> run (proto_apply sample_world) [PContact node_a]
    (protocol_new id_zero (addr node_b) (rt_with_k id_zero 20) ms_new)"
  shows "\<exists>i s. (addr node_a, Request (Store i s (nid node_b) [1])) \<in>
    set (p_sent (fst (store_value sample_world (nid node_b) [1] st)))"
proof -
  let ?stored = "with_storage sample_world
    (\<lambda>e s. sto_store (w_impl sample_world) (ev_instant e) (nid node_b) [1] s) st"
  have t: "p_table st = rt_put 0 \<lparr>kb_k = 20, kb_local = id_zero, kb_prefix_len = 0,
      kb_nodes = [update_last_seen 0 node_a], kb_cache = []\<rparr> (rt_with_k id_zero 20)"
    by (simp add: st_def record_contact_def offer_contact_def protocol_new_def with_table_def tick_def sample_world_def
        sample_env_def and_then_def rt_update_nosplit kb_update_def kb_new_def case_prod_beta)
  have "snd ?stored = Ok ()" "p_table (fst (tick sample_world (fst ?stored))) = p_table st"
    by (simp_all add: with_storage_def tick_def sample_world_def sample_env_def memory_impl_def case_prod_beta)
  then have "update_last_seen 0 node_a \<in>
      set (rt_get_closest (p_table (fst (tick sample_world (fst ?stored)))) (nid node_b) K)"
    by (simp add: t rt_get_closest_def hm_values_def hm_insert_def sort_by_distance_def K_def)
  moreover have "\<forall>t. ev_send (w_env sample_world t) = None" by (simp add: sample_world_def sample_env_def)
  ultimately show ?thesis
    using store_value_reaches_closest [where w = sample_world and ops = "[PContact node_a]" and l = id_zero
        and a = "addr node_b" and k = 20 and s = ms_new and key = "nid node_b" and v = "[1]"
        and n = "update_last_seen 0 node_a"] \<open>snd ?stored = Ok ()\<close>
    unfolding st_def by simp
qed

text \<open>
  C32: how long a request waits. A ping, store or node query whose sending works waits once: 30
  seconds when the contact is not in the table, 5 seconds when it is but has no average response
  time, and otherwise three times the average plus 5 seconds, capped at 30 seconds (for averages
  below \<open>2 ^ 60\<close> ms). The table is the one the other tasks have left when the limit is computed. A
  value query waits 10 seconds whatever the table says. Without a successful send there is no wait.
\<close>

theorem request_timeouts:
  fixes w n st
  defines "i \<equiv> ev_id (w_env w (p_tick st))"
  defines "known \<equiv> rt_get (run rt_apply (ev_table (w_env w (p_tick st)) @ ev_table (w_env w (p_tick st + 1))) (p_table st)) (nid n)"
  assumes "case known of None \<Rightarrow> True | Some x \<Rightarrow>
    (case avg_response_time_ms (stats x) of None \<Rightarrow> True | Some avg \<Rightarrow> unat avg < 2 ^ 60)"
  shows "p_waits (fst (rpc w n make_request st)) = p_waits st @
      (if ev_send (w_env w (p_tick st + 2)) = None then [(i, request_limit known)] else []) \<and>
    (\<exists>pings. p_waits (fst (find_value_rpc w n key st)) = p_waits st @
      (if ev_send (w_env w (p_tick st + 1)) = None then (i, from_secs 10) # pings else []))"
proof -
  have "request_limit known = (case known of
      Some existing \<Rightarrow> adaptive_timeout (stats existing) 3 (from_secs 5) | None \<Rightarrow> RPC_TIMEOUT)"
    using assms(3) by (rule request_limit_eq)
  with rpc_waits [of w n make_request st] find_value_rpc_waits [of w n key st] show ?thesis
    unfolding i_def known_def by metis
qed

text \<open>The contact is known with an average of 200 ms, so the ping waits 5.6 seconds.\<close>

theorem request_timeouts_witness:
  defines "x \<equiv> node_a\<lparr>stats := default_stats\<lparr>avg_response_time_ms := Some 200\<rparr>\<rparr>"
  defines "st \<equiv> sample_node\<lparr>p_table := rt_put 0 \<lparr>kb_k = 20, kb_local = id_zero, kb_prefix_len = 0, kb_nodes = [x], kb_cache = []\<rparr>
    (rt_with_k id_zero 20)\<rparr>"
  shows "p_waits (fst (rpc sample_world node_a Ping st)) = [(7, from_millis 5600)]"
proof -
  have "rt_get (p_table st) (nid node_a) = Some x"
    by (simp add: st_def x_def rt_get_def rt_bucket_index_def kb_get_def hm.get_insert)
  moreover have "p_waits st = []" by (simp add: st_def sample_node_def protocol_new_def)
  ultimately show ?thesis
    using request_timeouts [where w = sample_world and st = st and n = node_a and make_request = Ping]
    by (simp add: sample_world_def sample_env_def x_def request_limit_def)
qed

text \<open>
  C40: a request whose sending fails, or whose wait ends with an error of the transport, is left in
  the map of pending requests when the call returns, for the requests with an adaptive timeout and
  for value queries alike.
\<close>

theorem failed_request_stays_pending:
  fixes w st
  defines "i \<equiv> ev_id (w_env w (p_tick st))"
  shows "(ev_send (w_env w (p_tick st + 2)) = Some err \<or>
      ev_send (w_env w (p_tick st + 2)) = None \<and> ev_wait (w_env w (p_tick st + 3)) = WaitFailed err \<longrightarrow>
      snd (rpc w n mk st) = Err err \<and>
      hm_get (p_pending (fst (rpc w n mk st))) i = Some (mk i (local_node st))) \<and>
    (ev_send (w_env w (p_tick st + 1)) = Some err \<or>
      ev_send (w_env w (p_tick st + 1)) = None \<and> ev_wait (w_env w (p_tick st + 2)) = WaitFailed err \<longrightarrow>
      snd (find_value_rpc w n key st) = Err err \<and>
      hm_get (p_pending (fst (find_value_rpc w n key st))) i = Some (FindValue i (local_node st) key))"
  by (auto simp: rpc_def find_value_rpc_def await_response_def net_send_def tick_def Let_def and_then_def
      local_node_def i_def numeral_eq_Suc)

theorem failed_request_stays_pending_witness:
  defines "w \<equiv> sample_world\<lparr>w_env := (\<lambda>_. sample_env (WaitFailed Timeout))\<rparr>"
  shows "snd (rpc w node_a Ping sample_node) = Err Timeout \<and>
    hm_get (p_pending (fst (rpc w node_a Ping sample_node))) 7 = Some (Ping 7 (local_node sample_node)) \<and>
    hm_get (p_pending (fst (find_value_rpc w node_a id_zero sample_node))) 7 =
      Some (FindValue 7 (local_node sample_node) id_zero)"
  using failed_request_stays_pending [of w sample_node Timeout node_a Ping id_zero]
  by (simp add: w_def sample_env_def)

end
