(* ===== verification/Transport.thy ===== *)
theory Transport
  imports Message
begin

text \<open>
  What the three transports share (\<^verbatim>\<open>src/src/network/udp.rs\<close>, \<^verbatim>\<open>tcp.rs\<close>, \<^verbatim>\<open>mock.rs\<close>): the table of
  pending responses, one one-shot channel per message identifier, and \<^verbatim>\<open>wait_response\<close>. A call of
  \<^verbatim>\<open>wait_response\<close> is a numbered waiter. The events of the table are the steps of the tasks that
  share it: a call registers, a response arrives, a timer fires, a timed-out call clears its entry
  once it has the lock, a call is dropped by its caller.
\<close>

section \<open>Pending responses\<close>

datatype waiter =
    Waiting message_id
  | Expired message_id
  | Finished message_id "response_message outcome"
  | Dropped message_id

fun waiter_id :: "waiter \<Rightarrow> message_id" where
  "waiter_id (Waiting i) = i"
| "waiter_id (Expired i) = i"
| "waiter_id (Finished i _) = i"
| "waiter_id (Dropped i) = i"

record pending_table =
  pend_map :: "(message_id \<times> nat) list"
  pend_waiters :: "waiter list"

definition pend_new :: pending_table where
  "pend_new = \<lparr>pend_map = [], pend_waiters = []\<rparr>"

text \<open>The receiving half of a channel resolves: a waiter that still waits gets the result.\<close>

definition resolve :: "nat \<Rightarrow> response_message outcome \<Rightarrow> waiter list \<Rightarrow> waiter list" where
  "resolve n r ws =
     (if n < length ws then
        (case ws ! n of Waiting i \<Rightarrow> ws[n := Finished i r] | _ \<Rightarrow> ws)
      else ws)"

definition channel_closed :: error where
  "channel_closed = Network ''Response channel closed''"

text \<open>
  The first half of \<^verbatim>\<open>wait_response\<close>: registering a channel. \<^verbatim>\<open>HashMap::insert\<close> drops the channel an
  earlier call registered under the same identifier, and that call finds its channel closed.
\<close>

definition pend_register :: "message_id \<Rightarrow> pending_table \<Rightarrow> pending_table \<times> nat" where
  "pend_register i p =
     (let n = length (pend_waiters p);
          ws = (case hm_get (pend_map p) i of
                  Some old \<Rightarrow> resolve old (Err channel_closed) (pend_waiters p)
                | None \<Rightarrow> pend_waiters p)
      in (\<lparr>pend_map = hm_insert i n (pend_map p), pend_waiters = ws @ [Waiting i]\<rparr>, n))"

text \<open>
  An incoming response: the channel under its request identifier is taken out of the table and
  used; without one the response is dropped.
\<close>

definition pend_deliver :: "response_message \<Rightarrow> pending_table \<Rightarrow> pending_table" where
  "pend_deliver response p =
     (case hm_get (pend_map p) (request_id response) of
        None \<Rightarrow> p
      | Some n \<Rightarrow>
          \<lparr>pend_map = hm_remove (request_id response) (pend_map p),
           pend_waiters = resolve n (Ok response) (pend_waiters p)\<rparr>)"

text \<open>
  The timer of \<^verbatim>\<open>wait_response\<close> fires for a call whose channel has not resolved: the receiving half is
  gone, the entry of the table is not touched yet.
\<close>

definition pend_expire :: "nat \<Rightarrow> pending_table \<Rightarrow> pending_table" where
  "pend_expire n p =
     (if n < length (pend_waiters p) then
        (case pend_waiters p ! n of
           Waiting i \<Rightarrow> p\<lparr>pend_waiters := (pend_waiters p)[n := Expired i]\<rparr>
         | _ \<Rightarrow> p)
      else p)"

text \<open>
  The timeout branch, once it holds the lock: it removes whatever is registered under the identifier.
  That may be a later call with the same identifier, which then finds its channel closed.
\<close>

definition pend_timeout :: "nat \<Rightarrow> pending_table \<Rightarrow> pending_table" where
  "pend_timeout n p =
     (if n < length (pend_waiters p) then
        (case pend_waiters p ! n of
           Expired i \<Rightarrow>
             let ws = (case hm_get (pend_map p) i of
                         Some m \<Rightarrow> resolve m (Err channel_closed) (pend_waiters p)
                       | None \<Rightarrow> pend_waiters p)
             in \<lparr>pend_map = hm_remove i (pend_map p), pend_waiters = ws[n := Finished i (Err Timeout)]\<rparr>
         | _ \<Rightarrow> p)
      else p)"

text \<open>
  The caller drops the call, as an enclosing \<^verbatim>\<open>tokio::time::timeout\<close> does: the registration stays
  in the table.
\<close>

definition pend_cancel :: "nat \<Rightarrow> pending_table \<Rightarrow> pending_table" where
  "pend_cancel n p =
     (if n < length (pend_waiters p) then
        (case pend_waiters p ! n of
           Waiting i \<Rightarrow> p\<lparr>pend_waiters := (pend_waiters p)[n := Dropped i]\<rparr>
         | Expired i \<Rightarrow> p\<lparr>pend_waiters := (pend_waiters p)[n := Dropped i]\<rparr>
         | _ \<Rightarrow> p)
      else p)"

datatype pend_event =
    EvRegister message_id
  | EvDeliver response_message
  | EvExpire nat
  | EvTimeout nat
  | EvCancel nat

fun pend_apply :: "pend_event \<Rightarrow> pending_table \<Rightarrow> pending_table" where
  "pend_apply (EvRegister i) p = fst (pend_register i p)"
| "pend_apply (EvDeliver r) p = pend_deliver r p"
| "pend_apply (EvExpire n) p = pend_expire n p"
| "pend_apply (EvTimeout n) p = pend_timeout n p"
| "pend_apply (EvCancel n) p = pend_cancel n p"

section \<open>Invariant\<close>

fun open_for :: "message_id \<Rightarrow> waiter \<Rightarrow> bool" where
  "open_for i (Waiting j) \<longleftrightarrow> j = i"
| "open_for i (Expired j) \<longleftrightarrow> j = i"
| "open_for i (Dropped j) \<longleftrightarrow> j = i"
| "open_for i (Finished j _) \<longleftrightarrow> False"

fun waits_for :: "waiter \<Rightarrow> message_id option" where
  "waits_for (Waiting i) = Some i"
| "waits_for _ = None"

fun answered_correctly :: "waiter \<Rightarrow> bool" where
  "answered_correctly (Finished i (Ok r)) \<longleftrightarrow> request_id r = i"
| "answered_correctly _ \<longleftrightarrow> True"

lemma waits_for_Some [simp]: "waits_for w = Some i \<longleftrightarrow> w = Waiting i"
  by (cases w) auto

lemma answered_err [simp]: "answered_correctly (Finished i (Err e))"
  by simp

text \<open>
  The table maps an identifier to a waiter for that identifier that has not finished, every
  waiter that still waits is the registered one of its identifier, and a finished waiter that
  has a response has one to its own request.
\<close>

definition pend_inv :: "pending_table \<Rightarrow> bool" where
  "pend_inv p \<longleftrightarrow> hm_wf (pend_map p) \<and>
     (\<forall>i n. hm_get (pend_map p) i = Some n \<longrightarrow>
        n < length (pend_waiters p) \<and> open_for i (pend_waiters p ! n)) \<and>
     (\<forall>n i. n < length (pend_waiters p) \<longrightarrow> pend_waiters p ! n = Waiting i \<longrightarrow>
        hm_get (pend_map p) i = Some n) \<and>
     (\<forall>n. n < length (pend_waiters p) \<longrightarrow> answered_correctly (pend_waiters p ! n))"

lemma length_resolve [simp]: "length (resolve n r ws) = length ws"
  by (auto simp: resolve_def split: waiter.split)

lemma nth_resolve:
  "m < length ws \<Longrightarrow> resolve n r ws ! m =
     (if m = n then (case ws ! n of Waiting i \<Rightarrow> Finished i r | w \<Rightarrow> w) else ws ! m)"
  by (auto simp: resolve_def split: waiter.split)

lemma pend_inv_new [simp]: "pend_inv pend_new"
  by (simp add: pend_inv_def pend_new_def)

lemma pend_invI:
  assumes "hm_wf (pend_map p)"
    and "\<And>i n. hm_get (pend_map p) i = Some n \<Longrightarrow> n < length (pend_waiters p) \<and> open_for i (pend_waiters p ! n)"
    and "\<And>n i. n < length (pend_waiters p) \<Longrightarrow> pend_waiters p ! n = Waiting i \<Longrightarrow> hm_get (pend_map p) i = Some n"
    and "\<And>n. n < length (pend_waiters p) \<Longrightarrow> answered_correctly (pend_waiters p ! n)"
  shows "pend_inv p"
  unfolding pend_inv_def using assms by blast

lemma pend_inv_wf: "pend_inv p \<Longrightarrow> hm_wf (pend_map p)"
  unfolding pend_inv_def by blast

lemma pend_inv_registered:
  "pend_inv p \<Longrightarrow> hm_get (pend_map p) i = Some n \<Longrightarrow> n < length (pend_waiters p) \<and> open_for i (pend_waiters p ! n)"
  unfolding pend_inv_def by blast

lemma pend_inv_waiting:
  "pend_inv p \<Longrightarrow> n < length (pend_waiters p) \<Longrightarrow> pend_waiters p ! n = Waiting i \<Longrightarrow>
   hm_get (pend_map p) i = Some n"
  unfolding pend_inv_def by blast

lemma pend_inv_answered: "pend_inv p \<Longrightarrow> n < length (pend_waiters p) \<Longrightarrow> answered_correctly (pend_waiters p ! n)"
  unfolding pend_inv_def by blast

lemma open_for_unique: "open_for i w \<Longrightarrow> open_for j w \<Longrightarrow> i = j"
  by (cases w) auto

lemma pend_inv_unique:
  "pend_inv p \<Longrightarrow> hm_get (pend_map p) i = Some n \<Longrightarrow> hm_get (pend_map p) j = Some n \<Longrightarrow> i = j"
  using pend_inv_registered [of p i n] pend_inv_registered [of p j n] open_for_unique by blast

text \<open>Taking an identifier out of the table with its waiter, and changing a waiter that stays.\<close>

lemma pend_inv_take:
  assumes inv: "pend_inv p" and n: "hm_get (pend_map p) i = Some n"
    and w: "waits_for w = None" "answered_correctly w"
  shows "pend_inv \<lparr>pend_map = hm_remove i (pend_map p), pend_waiters = (pend_waiters p)[n := w]\<rparr>"
proof (rule pend_invI; simp only: pending_table.select_convs length_list_update)
  show "hm_wf (hm_remove i (pend_map p))" using pend_inv_wf [OF inv] by (rule hm.invar_remove)
next
  fix j m assume m: "hm_get (hm_remove i (pend_map p)) j = Some m"
  then have j: "j \<noteq> i" "hm_get (pend_map p) j = Some m" by (auto simp: hm.get_remove split: if_splits)
  then have "m \<noteq> n" using pend_inv_unique [OF inv n] by blast
  then show "m < length (pend_waiters p) \<and> open_for j ((pend_waiters p)[n := w] ! m)"
    using pend_inv_registered [OF inv j(2)] by simp
next
  fix m j assume m: "m < length (pend_waiters p)" "(pend_waiters p)[n := w] ! m = Waiting j"
  then have "m \<noteq> n" using w(1) by auto
  with m have g: "hm_get (pend_map p) j = Some m" using pend_inv_waiting [OF inv] by simp
  with \<open>m \<noteq> n\<close> n show "hm_get (hm_remove i (pend_map p)) j = Some m"
    by (auto simp: hm.get_remove)
next
  fix m assume "m < length (pend_waiters p)"
  then show "answered_correctly ((pend_waiters p)[n := w] ! m)"
    using w(2) pend_inv_answered [OF inv] by (cases "m = n") auto
qed

lemma pend_inv_settle:
  assumes inv: "pend_inv p" and w: "waits_for w = None" "answered_correctly w"
    and reg: "\<And>j. hm_get (pend_map p) j = Some n \<Longrightarrow> open_for j w"
  shows "pend_inv (p\<lparr>pend_waiters := (pend_waiters p)[n := w]\<rparr>)"
proof -
  have "pend_inv \<lparr>pend_map = pend_map p, pend_waiters = (pend_waiters p)[n := w]\<rparr>"
  proof (rule pend_invI; simp only: pending_table.select_convs length_list_update)
    show "hm_wf (pend_map p)" by (rule pend_inv_wf [OF inv])
  next
    fix j m assume m: "hm_get (pend_map p) j = Some m"
    then show "m < length (pend_waiters p) \<and> open_for j ((pend_waiters p)[n := w] ! m)"
      using pend_inv_registered [OF inv m] reg by (cases "m = n") auto
  next
    fix m j assume m: "m < length (pend_waiters p)" "(pend_waiters p)[n := w] ! m = Waiting j"
    then have "m \<noteq> n" using w(1) by auto
    with m show "hm_get (pend_map p) j = Some m" using pend_inv_waiting [OF inv] by simp
  next
    fix m assume "m < length (pend_waiters p)"
    then show "answered_correctly ((pend_waiters p)[n := w] ! m)"
      using w(2) pend_inv_answered [OF inv] by (cases "m = n") auto
  qed
  then show ?thesis by (cases p) simp
qed

lemma pend_inv_cong:
  assumes "pend_inv p" "hm_wf (pend_map q)" "hm_get (pend_map q) = hm_get (pend_map p)"
    and "pend_waiters q = pend_waiters p"
  shows "pend_inv q"
  using assms(1,2) unfolding pend_inv_def assms(3,4) by blast

text \<open>What resolving does to a registered waiter: the waiter is not waiting afterwards.\<close>

definition resolved :: "response_message outcome \<Rightarrow> waiter \<Rightarrow> waiter" where
  "resolved r w = (case w of Waiting i \<Rightarrow> Finished i r | _ \<Rightarrow> w)"

lemma resolve_eq: "n < length ws \<Longrightarrow> resolve n r ws = ws[n := resolved r (ws ! n)]"
  using list_update_id [of ws n] by (cases "ws ! n") (simp_all add: resolve_def resolved_def)

lemma waits_for_resolved [simp]: "waits_for (resolved r w) = None"
  by (cases w) (simp_all add: resolved_def)

lemma answered_resolved:
  "open_for i w \<Longrightarrow> (\<And>x. r = Ok x \<Longrightarrow> request_id x = i) \<Longrightarrow> answered_correctly (resolved r w)"
  by (cases w; cases r) (auto simp: resolved_def)

lemma pend_inv_resolve:
  assumes "pend_inv p" "hm_get (pend_map p) i = Some n" "\<And>x. r = Ok x \<Longrightarrow> request_id x = i"
  shows "pend_inv \<lparr>pend_map = hm_remove i (pend_map p), pend_waiters = resolve n r (pend_waiters p)\<rparr>"
  using pend_inv_take [OF assms(1,2) waits_for_resolved [of r "pend_waiters p ! n"]]
    answered_resolved [of i "pend_waiters p ! n" r] pend_inv_registered [OF assms(1,2)] assms(3)
  by (simp add: resolve_eq)

lemma pend_inv_deliver:
  assumes "pend_inv p"
  shows "pend_inv (pend_deliver r p)"
proof (cases "hm_get (pend_map p) (request_id r)")
  case (Some n)
  have "pend_inv \<lparr>pend_map = hm_remove (request_id r) (pend_map p), pend_waiters = resolve n (Ok r) (pend_waiters p)\<rparr>"
    by (rule pend_inv_resolve [OF assms Some]) simp
  with Some show ?thesis by (simp add: pend_deliver_def)
qed (use assms in \<open>simp add: pend_deliver_def\<close>)

lemma pend_inv_expire:
  assumes "pend_inv p"
  shows "pend_inv (pend_expire n p)"
proof (cases "n < length (pend_waiters p) \<and> (\<exists>i. pend_waiters p ! n = Waiting i)")
  case True
  then obtain i where i: "n < length (pend_waiters p)" "pend_waiters p ! n = Waiting i" by blast
  have "open_for j (Expired i)" if "hm_get (pend_map p) j = Some n" for j
    using pend_inv_registered [OF assms that] i by simp
  with pend_inv_settle [OF assms, of "Expired i" n] i show ?thesis by (simp add: pend_expire_def)
qed (use assms in \<open>auto simp: pend_expire_def split: waiter.split\<close>)

lemma pend_inv_cancel:
  assumes "pend_inv p"
  shows "pend_inv (pend_cancel n p)"
proof (cases "n < length (pend_waiters p) \<and> (\<exists>i. pend_waiters p ! n = Waiting i \<or> pend_waiters p ! n = Expired i)")
  case True
  then obtain i where i: "n < length (pend_waiters p)" "pend_waiters p ! n = Waiting i \<or> pend_waiters p ! n = Expired i"
    by blast
  have "open_for j (Dropped i)" if "hm_get (pend_map p) j = Some n" for j
    using pend_inv_registered [OF assms that] i by auto
  with pend_inv_settle [OF assms, of "Dropped i" n] i show ?thesis by (auto simp: pend_cancel_def)
qed (use assms in \<open>auto simp: pend_cancel_def split: waiter.split\<close>)

lemma pend_inv_timeout:
  assumes "pend_inv p"
  shows "pend_inv (pend_timeout n p)"
proof (cases "n < length (pend_waiters p) \<and> (\<exists>i. pend_waiters p ! n = Expired i)")
  case True
  then obtain i where i: "n < length (pend_waiters p)" "pend_waiters p ! n = Expired i" by blast
  define q where "q = (case hm_get (pend_map p) i of
      Some m \<Rightarrow> \<lparr>pend_map = hm_remove i (pend_map p), pend_waiters = resolve m (Err channel_closed) (pend_waiters p)\<rparr>
    | None \<Rightarrow> \<lparr>pend_map = hm_remove i (pend_map p), pend_waiters = pend_waiters p\<rparr>)"
  have "pend_inv q"
  proof (cases "hm_get (pend_map p) i")
    case None
    have "pend_inv \<lparr>pend_map = hm_remove i (pend_map p), pend_waiters = pend_waiters p\<rparr>"
      by (rule pend_inv_cong [OF assms])
        (use None pend_inv_wf [OF assms] in \<open>auto simp: hm.invar_remove hm.get_remove\<close>)
    with None show ?thesis by (simp add: q_def)
  next
    case (Some m)
    with pend_inv_resolve [OF assms Some, of "Err channel_closed"] show ?thesis by (simp add: q_def)
  qed
  moreover have map_q: "pend_map q = hm_remove i (pend_map p)" by (simp add: q_def split: option.split)
  moreover have "open_for j (Finished i (Err Timeout))" if "hm_get (pend_map q) j = Some n" for j
  proof -
    have "j \<noteq> i" "hm_get (pend_map p) j = Some n" using that by (auto simp: map_q hm.get_remove split: if_splits)
    with pend_inv_registered [OF assms, of j n] i show ?thesis by simp
  qed
  ultimately have "pend_inv (q\<lparr>pend_waiters := (pend_waiters q)[n := Finished i (Err Timeout)]\<rparr>)"
    by (intro pend_inv_settle) simp_all
  moreover have "pend_timeout n p = q\<lparr>pend_waiters := (pend_waiters q)[n := Finished i (Err Timeout)]\<rparr>"
    using i by (simp add: pend_timeout_def q_def Let_def split: option.split)
  ultimately show ?thesis by simp
qed (use assms in \<open>auto simp: pend_timeout_def split: waiter.split\<close>)

text \<open>Registering a fresh identifier; a registered one is taken out first.\<close>

lemma pend_inv_fresh:
  assumes inv: "pend_inv p" and n: "hm_get (pend_map p) i = None"
  shows "pend_inv \<lparr>pend_map = hm_insert i (length (pend_waiters p)) (pend_map p),
    pend_waiters = pend_waiters p @ [Waiting i]\<rparr>"
proof (rule pend_invI; simp only: pending_table.select_convs)
  show "hm_wf (hm_insert i (length (pend_waiters p)) (pend_map p))"
    using pend_inv_wf [OF inv] by (rule hm.invar_insert)
next
  fix j m assume "hm_get (hm_insert i (length (pend_waiters p)) (pend_map p)) j = Some m"
  then show "m < length (pend_waiters p @ [Waiting i]) \<and> open_for j ((pend_waiters p @ [Waiting i]) ! m)"
    using pend_inv_registered [OF inv, of j m]
    by (cases "j = i") (auto simp: nth_append hm.get_insert)
next
  fix m j assume m: "m < length (pend_waiters p @ [Waiting i])" "(pend_waiters p @ [Waiting i]) ! m = Waiting j"
  then show "hm_get (hm_insert i (length (pend_waiters p)) (pend_map p)) j = Some m"
    using pend_inv_waiting [OF inv, of m j] n
    by (cases "m = length (pend_waiters p)") (auto simp: nth_append hm.get_insert less_Suc_eq)
next
  fix m assume "m < length (pend_waiters p @ [Waiting i])"
  then show "answered_correctly ((pend_waiters p @ [Waiting i]) ! m)"
    using pend_inv_answered [OF inv, of m] by (auto simp: nth_append less_Suc_eq)
qed

lemma pend_inv_register:
  assumes inv: "pend_inv p"
  shows "pend_inv (fst (pend_register i p))"
proof (cases "hm_get (pend_map p) i")
  case None
  from pend_inv_fresh [OF assms None] show ?thesis by (simp add: pend_register_def Let_def None)
next
  case (Some n)
  let ?q = "\<lparr>pend_map = hm_remove i (pend_map p), pend_waiters = resolve n (Err channel_closed) (pend_waiters p)\<rparr>"
  have "pend_inv ?q" using pend_inv_resolve [OF inv Some, of "Err channel_closed"] by simp
  from pend_inv_fresh [OF this, of i]
  have "pend_inv \<lparr>pend_map = hm_insert i (length (pend_waiters p)) (hm_remove i (pend_map p)),
      pend_waiters = resolve n (Err channel_closed) (pend_waiters p) @ [Waiting i]\<rparr>" by simp
  then show ?thesis
    by (rule pend_inv_cong)
      (simp_all add: pend_register_def Let_def Some hm.get_remove hm.get_insert hm.invar_insert pend_inv_wf [OF inv])
qed

interpretation pend: stable pend_apply pend_inv
proof
  fix p x assume "pend_inv p"
  then show "pend_inv (pend_apply x p)"
    by (cases x) (simp_all add: pend_inv_register pend_inv_deliver pend_inv_expire pend_inv_timeout pend_inv_cancel)
qed

lemmas pend_run_inv = pend.run_inv [OF pend_inv_new]

text \<open>Events do not change the result of a call that has returned.\<close>

lemma finished_stable:
  assumes "n < length (pend_waiters p)" "pend_waiters p ! n = Finished i r"
  shows "n < length (pend_waiters (pend_apply x p)) \<and> pend_waiters (pend_apply x p) ! n = Finished i r"
  using assms
  by (cases x)
    (auto simp: pend_register_def pend_deliver_def pend_expire_def pend_timeout_def pend_cancel_def Let_def nth_append
      nth_resolve nth_list_update split: option.split waiter.split)

lemma finished_run:
  "n < length (pend_waiters p) \<Longrightarrow> pend_waiters p ! n = Finished i r \<Longrightarrow>
   pend_waiters (run pend_apply evs p) ! n = Finished i r"
proof (induction evs arbitrary: p)
  case (Cons x evs)
  then show ?case using finished_stable [of n p i r x] by simp
qed simp

lemma pend_inv_answers: "pend_inv p \<Longrightarrow> list_all answered_correctly (pend_waiters p)"
  using pend_inv_answered [of p] by (auto simp: list_all_length)

text \<open>Without a response to its identifier, a call that has none yet gets none.\<close>

fun delivers :: "message_id \<Rightarrow> pend_event \<Rightarrow> bool" where
  "delivers i (EvDeliver r) \<longleftrightarrow> request_id r = i"
| "delivers i _ \<longleftrightarrow> False"

definition unanswered :: "message_id \<Rightarrow> nat \<Rightarrow> pending_table \<Rightarrow> bool" where
  "unanswered i n p \<longleftrightarrow> n < length (pend_waiters p) \<and> waiter_id (pend_waiters p ! n) = i \<and>
     (\<forall>r. pend_waiters p ! n \<noteq> Finished i (Ok r))"

lemma open_for_id: "open_for i w \<Longrightarrow> waiter_id w = i"
  by (cases w) auto

lemma unanswered_step:
  assumes inv: "pend_inv p" and n: "unanswered i n p" and x: "\<not> delivers i x"
  shows "unanswered i n (pend_apply x p)"
proof (cases x)
  case (EvDeliver r)
  show ?thesis
  proof (cases "hm_get (pend_map p) (request_id r)")
    case (Some m)
    then have "m \<noteq> n" using pend_inv_registered [OF inv Some] open_for_id n x EvDeliver by (auto simp: unanswered_def)
    then show ?thesis using n Some EvDeliver by (simp add: unanswered_def pend_deliver_def nth_resolve)
  qed (use n EvDeliver in \<open>simp add: pend_deliver_def\<close>)
qed (use n in \<open>auto simp: unanswered_def pend_register_def pend_expire_def pend_timeout_def pend_cancel_def Let_def
    nth_append nth_resolve nth_list_update split: option.split waiter.split\<close>)

lemma unanswered_run:
  "pend_inv p \<Longrightarrow> unanswered i n p \<Longrightarrow> list_all (\<lambda>x. \<not> delivers i x) evs \<Longrightarrow> unanswered i n (run pend_apply evs p)"
  by (induction evs arbitrary: p) (simp_all add: pend.step_inv unanswered_step)

section \<open>Properties\<close>

text \<open>
  C24: under any interleaving of calls, arriving responses, timeouts and dropped calls, a call of
  \<^verbatim>\<open>wait_response\<close> that returns a response returns one that carries the identifier the call asked
  for, and at any time at most one call waits for an identifier.
\<close>

theorem responses_match_requests:
  fixes evs
  defines "ws \<equiv> pend_waiters (run pend_apply evs pend_new)"
  shows "list_all answered_correctly ws \<and>
    (\<forall>m n i. {m, n} \<subseteq> {..<length ws} \<and> waits_for (ws ! m) = Some i \<and> waits_for (ws ! n) = Some i \<longrightarrow> m = n)"
proof -
  let ?p = "run pend_apply evs pend_new"
  have "list_all answered_correctly ws" unfolding ws_def by (rule pend_inv_answers [OF pend_run_inv])
  moreover have "m = n" if "m < length ws" "n < length ws" "ws ! m = Waiting i" "ws ! n = Waiting i" for m n i
    using pend_inv_waiting [OF pend_run_inv, of m evs i] pend_inv_waiting [OF pend_run_inv, of n evs i] that
    by (simp add: ws_def)
  ultimately show ?thesis by (auto simp: list_all_iff)
qed

theorem responses_match_requests_witness:
  "list_all answered_correctly (pend_waiters (run pend_apply [EvRegister 7, EvDeliver (Pong 7 node_a)] pend_new))"
  using responses_match_requests [of "[EvRegister 7, EvDeliver (Pong 7 node_a)]"] by blast

text \<open>
  C25: a response that arrives while a call waits for it is the result of that call, whatever
  happens before and after.
\<close>

theorem waiting_call_gets_response:
  fixes evs
  defines "p \<equiv> run pend_apply evs pend_new"
  assumes "n < length (pend_waiters p)" "pend_waiters p ! n = Waiting (request_id r)"
  shows "pend_waiters (run pend_apply (evs @ EvDeliver r # later) pend_new) ! n =
    Finished (request_id r) (Ok r)"
proof -
  have "hm_get (pend_map p) (request_id r) = Some n"
    using pend_inv_waiting [OF pend_run_inv, of n evs] assms(2,3) by (simp add: p_def)
  then have "n < length (pend_waiters (pend_deliver r p)) \<and>
      pend_waiters (pend_deliver r p) ! n = Finished (request_id r) (Ok r)"
    using assms(2,3) by (simp add: pend_deliver_def nth_resolve)
  then show ?thesis
    using finished_run [of n "pend_deliver r p" "request_id r" "Ok r" later] by (simp add: p_def)
qed

theorem waiting_call_gets_response_witness:
  "pend_waiters (run pend_apply ([EvRegister 7] @ EvDeliver (Pong 7 node_a) # [EvTimeout 0]) pend_new) ! 0 =
     Finished 7 (Ok (Pong 7 node_a))"
  using waiting_call_gets_response [of 0 "[EvRegister 7]" "Pong 7 node_a" "[EvTimeout 0]"]
  by (simp add: pend_register_def pend_new_def)

text \<open>
  C37: a response that arrives before its call of \<^verbatim>\<open>wait_response\<close> has registered is lost: callers
  send the request first and register afterwards. If the answer comes in between and no second
  answer follows, the call never returns a response, whatever else happens, and when its timer
  fires it returns \<^verbatim>\<open>Timeout\<close>.
\<close>

theorem early_response_is_lost:
  fixes evs r later
  defines "n \<equiv> length (pend_waiters (run pend_apply evs pend_new))"
  defines "q \<equiv> run pend_apply (evs @ EvDeliver r # EvRegister (request_id r) # later) pend_new"
  assumes "hm_get (pend_map (run pend_apply evs pend_new)) (request_id r) = None"
    and "list_all (\<lambda>x. \<not> delivers (request_id r) x) later"
  shows "pend_waiters q ! n \<noteq> Finished (request_id r) (Ok r') \<and>
    (pend_waiters q ! n = Waiting (request_id r) \<longrightarrow>
      pend_waiters (run pend_apply [EvExpire n, EvTimeout n] q) ! n = Finished (request_id r) (Err Timeout))"
proof -
  let ?p = "run pend_apply evs pend_new" and ?i = "request_id r"
  have lost: "pend_deliver r ?p = ?p" using assms(3) by (simp add: pend_deliver_def)
  have "unanswered ?i n (fst (pend_register ?i ?p))"
    using assms(3) by (simp add: unanswered_def pend_register_def n_def nth_append Let_def)
  then have "unanswered ?i n q"
    using unanswered_run [OF pend_inv_register [OF pend_run_inv] _ assms(4)] by (simp add: q_def lost)
  then show ?thesis
    by (auto simp: unanswered_def pend_expire_def pend_timeout_def Let_def split: option.split)
qed

theorem early_response_is_lost_witness:
  "pend_waiters (run pend_apply [EvDeliver (Pong 7 node_a), EvRegister 7, EvRegister 8, EvDeliver (Pong 8 node_a),
     EvExpire 0, EvTimeout 0] pend_new) ! 0 = Finished 7 (Err Timeout)"
proof -
  let ?later = "[EvRegister 8, EvDeliver (Pong 8 node_a)]"
  have "list_all (\<lambda>x. \<not> delivers (request_id (Pong 7 node_a)) x) ?later" by simp
  moreover have "pend_waiters (run pend_apply (EvDeliver (Pong 7 node_a) # EvRegister 7 # ?later) pend_new) ! 0 = Waiting 7"
    by (simp add: pend_new_def pend_deliver_def pend_register_def resolve_def hm.get_insert)
  ultimately show ?thesis
    using early_response_is_lost [where evs = "[]" and r = "Pong 7 node_a" and later = ?later]
    by (simp add: pend_new_def)
qed

end
