(* ===== verification/Udp.thy ===== *)
theory Udp
  imports Transport
begin

text \<open>
  \<^verbatim>\<open>src/src/network/udp.rs\<close>: the UDP transport. The socket, the \<^verbatim>\<open>bincode\<close> crate and the clock are
  parameters; the incoming task is a step per received datagram and a loop over a list of
  them, the outgoing task a loop over the queue. A handler call the incoming task spawns is
  recorded in the order of spawning.
\<close>

section \<open>Data\<close>

definition MAX_DATAGRAM_SIZE :: nat where
  "MAX_DATAGRAM_SIZE = 65507"

definition RATE_LIMIT_WINDOW :: duration where
  "RATE_LIMIT_WINDOW = from_secs 60"

definition MAX_REQUESTS_PER_WINDOW :: nat where
  "MAX_REQUESTS_PER_WINDOW = 100"

record rate_limit_entry =
  window_start :: instant
  request_count :: nat

type_synonym rate_table = "(ip_addr \<times> rate_limit_entry) list"

record 'h udp_network =
  udp_queue :: "(socket_addr \<times> u8 list) list"
  udp_queue_open :: bool
  udp_pending :: pending_table
  udp_handler :: "'h option"
  udp_rate :: rate_table

definition udp_new :: "'h udp_network" where
  "udp_new = \<lparr>udp_queue = [], udp_queue_open = True, udp_pending = pend_new, udp_handler = None, udp_rate = []\<rparr>"

section \<open>Operations\<close>

definition check_rate_limit :: "instant \<Rightarrow> ip_addr \<Rightarrow> rate_table \<Rightarrow> rate_table \<times> bool" where
  "check_rate_limit now ip table =
     (let entry = (case hm_get table ip of
                     Some e \<Rightarrow> e
                   | None \<Rightarrow> \<lparr>window_start = now, request_count = 0\<rparr>);
          entry = (if duration_since now (window_start entry) > RATE_LIMIT_WINDOW
                   then \<lparr>window_start = now, request_count = 0\<rparr> else entry)
      in if request_count entry \<ge> MAX_REQUESTS_PER_WINDOW then (hm_insert ip entry table, False)
         else (hm_insert ip (entry\<lparr>request_count := request_count entry + 1\<rparr>) table, True))"

datatype recv_event = RecvFrom "u8 list" socket_addr | RecvError io_error

text \<open>
  One turn of the loop of \<^verbatim>\<open>handle_incoming\<close>: the handler call it spawns, if any.
\<close>

definition udp_handle_datagram ::
  "(u8 list \<Rightarrow> string + kademlia_message) \<Rightarrow> instant \<Rightarrow> recv_event \<Rightarrow> 'h udp_network \<Rightarrow>
   'h udp_network \<times> ('h \<times> request_message \<times> socket_addr) option" where
  "udp_handle_datagram deserialize now event net =
     (case event of
        RecvError _ \<Rightarrow> (net, None)
      | RecvFrom datagram src \<Rightarrow>
          let buf = take MAX_DATAGRAM_SIZE datagram
          in if length buf > 0 then
               (case deserialize buf of
                  Inl _ \<Rightarrow> (net, None)
                | Inr (Response response) \<Rightarrow>
                    (net\<lparr>udp_pending := pend_deliver response (udp_pending net)\<rparr>, None)
                | Inr (Request request) \<Rightarrow>
                    let (table, is_allowed) = check_rate_limit now (ip_of src) (udp_rate net);
                        net' = net\<lparr>udp_rate := table\<rparr>
                    in if \<not> is_allowed then (net', None)
                       else (case udp_handler net' of
                               Some handler \<Rightarrow> (net', Some (handler, request, src))
                             | None \<Rightarrow> (net', None)))
             else (net, None))"

text \<open>The incoming task on a finite prefix of its input, with the time of every handler call.\<close>

fun udp_handle_incoming ::
  "(u8 list \<Rightarrow> string + kademlia_message) \<Rightarrow> (instant \<times> recv_event) list \<Rightarrow> 'h udp_network \<Rightarrow>
   'h udp_network \<times> (instant \<times> 'h \<times> request_message \<times> socket_addr) list" where
  "udp_handle_incoming deserialize [] net = (net, [])"
| "udp_handle_incoming deserialize ((now, event) # events) net =
     (let (net', spawned) = udp_handle_datagram deserialize now event net;
          (net'', calls) = udp_handle_incoming deserialize events net'
      in (net'', (case spawned of Some call \<Rightarrow> [(now, call)] | None \<Rightarrow> []) @ calls))"

definition MAX_RETRIES :: nat where
  "MAX_RETRIES = 3"

definition RETRY_DELAY_MS :: nat where
  "RETRY_DELAY_MS = 500"

text \<open>
  The retry loop of \<^verbatim>\<open>handle_outgoing\<close>: \<open>send_to\<close> gives the result of each attempt. The result is
  whether the message was sent, the number of attempts and the milliseconds slept.
\<close>

fun udp_retry :: "(nat \<Rightarrow> io_error option) \<Rightarrow> nat list \<Rightarrow> nat \<Rightarrow> nat \<Rightarrow> bool \<times> nat \<times> nat" where
  "udp_retry send_to [] attempts slept = (False, attempts, slept)"
| "udp_retry send_to (attempt # rest) attempts slept =
     (case send_to attempt of
        None \<Rightarrow> (True, attempts + 1, slept)
      | Some _ \<Rightarrow>
          udp_retry send_to rest (attempts + 1)
            (if attempt < MAX_RETRIES then slept + RETRY_DELAY_MS else slept))"

definition udp_send_with_retry :: "(nat \<Rightarrow> io_error option) \<Rightarrow> bool \<times> nat \<times> nat" where
  "udp_send_with_retry send_to = udp_retry send_to [1..<MAX_RETRIES + 1] 0 0"

text \<open>The outgoing task: the messages of the queue in order, \<open>send_to n\<close> for the \<open>n\<close>-th of them.\<close>

fun udp_handle_outgoing ::
  "(nat \<Rightarrow> nat \<Rightarrow> io_error option) \<Rightarrow> nat \<Rightarrow> (socket_addr \<times> u8 list) list \<Rightarrow>
   (socket_addr \<times> u8 list \<times> bool \<times> nat \<times> nat) list" where
  "udp_handle_outgoing send_to n [] = []"
| "udp_handle_outgoing send_to n ((dest, data) # queue) =
     (dest, data, udp_send_with_retry (send_to n)) # udp_handle_outgoing send_to (n + 1) queue"

text \<open>
  \<^verbatim>\<open>send\<close>: a full queue (100 messages) makes the caller wait, so a call that returns finds room;
  a closed queue is an error.
\<close>

definition udp_send ::
  "(kademlia_message \<Rightarrow> string + u8 list) \<Rightarrow> socket_addr \<Rightarrow> kademlia_message \<Rightarrow> 'h udp_network \<Rightarrow>
   'h udp_network \<times> unit outcome" where
  "udp_send serialize dest message net =
     (case serialize message of
        Inl e \<Rightarrow> (net, Err (Other (''Serialization error: '' @ e)))
      | Inr data \<Rightarrow>
          if udp_queue_open net then (net\<lparr>udp_queue := udp_queue net @ [(dest, data)]\<rparr>, Ok ())
          else (net, Err (Network ''Failed to send message'')))"

definition udp_set_request_handler :: "'h \<Rightarrow> 'h udp_network \<Rightarrow> 'h udp_network \<times> unit outcome" where
  "udp_set_request_handler handler net = (net\<lparr>udp_handler := Some handler\<rparr>, Ok ())"

section \<open>Rate limiting\<close>

text \<open>
  How many more requests of \<open>ip\<close> can be accepted in the interval of one window length that starts
  at \<open>lo\<close>: the interval meets at most two windows, of which the current one may be the first or
  the second.
\<close>

definition rate_budget :: "instant \<Rightarrow> ip_addr \<Rightarrow> rate_table \<Rightarrow> nat" where
  "rate_budget lo ip table =
     (case hm_get table ip of
        None \<Rightarrow> 200
      | Some e \<Rightarrow>
          if lo + RATE_LIMIT_WINDOW < window_start e then 0
          else if lo \<le> window_start e then 100 - request_count e
          else if lo \<le> window_start e + RATE_LIMIT_WINDOW then 200 - request_count e
          else 200)"

definition rate_wf :: "instant \<Rightarrow> rate_table \<Rightarrow> bool" where
  "rate_wf now table \<longleftrightarrow>
     (\<forall>ip e. hm_get table ip = Some e \<longrightarrow> window_start e \<le> now \<and> request_count e \<le> 100)"

lemma rate_wf_check:
  "rate_wf t table \<Longrightarrow> t \<le> now \<Longrightarrow> rate_wf now (fst (check_rate_limit now ip table))"
  by (auto simp: rate_wf_def check_rate_limit_def Let_def MAX_REQUESTS_PER_WINDOW_def hm.get_insert
      intro: order_trans antisym split: option.splits)

lemma rate_budget_check:
  assumes "rate_wf t table" "t \<le> now" "check_rate_limit now ip' table = (table', ok)"
  shows "rate_budget lo ip table' +
      of_bool (ok \<and> ip' = ip \<and> lo \<le> now \<and> now \<le> lo + RATE_LIMIT_WINDOW) \<le> rate_budget lo ip table"
proof (cases "ip' = ip")
  case True
  show ?thesis
  proof (cases "hm_get table ip")
    case None
    then show ?thesis using assms(3) True
      by (auto simp: check_rate_limit_def rate_budget_def MAX_REQUESTS_PER_WINDOW_def duration_since_def
          split: if_splits)
  next
    case (Some e)
    then have "window_start e \<le> now" "request_count e \<le> 100"
      using assms(1,2) by (auto simp: rate_wf_def intro: order_trans)
    then show ?thesis using assms(3) True Some
      by (auto simp: check_rate_limit_def rate_budget_def MAX_REQUESTS_PER_WINDOW_def duration_since_def Let_def
          split: if_splits)
  qed
qed (use assms(3) in \<open>auto simp: check_rate_limit_def rate_budget_def Let_def hm.get_insert split: if_splits\<close>)

text \<open>The datagram step passes at most one request, and only through the rate limit.\<close>

lemma udp_datagram_budget:
  assumes "rate_wf t (udp_rate net)" "t \<le> now"
    and "udp_handle_datagram deserialize now event net = (net', spawned)"
  shows "rate_wf now (udp_rate net')"
    and "rate_budget lo ip (udp_rate net') +
      of_bool (\<exists>h req src. spawned = Some (h, req, src) \<and> ip_of src = ip \<and> lo \<le> now \<and> now \<le> lo + RATE_LIMIT_WINDOW)
      \<le> rate_budget lo ip (udp_rate net)"
proof -
  have later: "rate_wf now (udp_rate net)" using assms(1,2) by (auto simp: rate_wf_def intro: order_trans)
  have "(udp_rate net' = udp_rate net \<and> spawned = None) \<or>
    (\<exists>src ok. check_rate_limit now (ip_of src) (udp_rate net) = (udp_rate net', ok) \<and>
       (spawned = None \<or> ok \<and> (\<exists>h req. spawned = Some (h, req, src))))"
    using assms(3)
    by (auto simp: udp_handle_datagram_def Let_def
        split: recv_event.splits if_splits sum.splits kademlia_message.splits prod.splits option.splits)
  then show "rate_wf now (udp_rate net')"
    and "rate_budget lo ip (udp_rate net') +
      of_bool (\<exists>h req src. spawned = Some (h, req, src) \<and> ip_of src = ip \<and> lo \<le> now \<and> now \<le> lo + RATE_LIMIT_WINDOW)
      \<le> rate_budget lo ip (udp_rate net)"
  proof (atomize(full), elim disjE exE conjE, goal_cases)
    case 1
    then show ?case using later by simp
  next
    case (2 src ok)
    then show ?case
      using rate_wf_check [OF assms(1,2), of "ip_of src"] rate_budget_check [OF assms(1,2) 2(1), of lo ip]
      by auto
  next
    case (3 src ok h req)
    then show ?case
      using rate_wf_check [OF assms(1,2), of "ip_of src"] rate_budget_check [OF assms(1,2) 3(1), of lo ip]
      by auto
  qed
qed

lemma udp_incoming_budget:
  assumes "rate_wf t (udp_rate net)" "sorted (t # map fst events)"
  shows "length (filter (\<lambda>(now, _, _, src). ip_of src = ip \<and> lo \<le> now \<and> now \<le> lo + RATE_LIMIT_WINDOW)
      (snd (udp_handle_incoming deserialize events net))) \<le> rate_budget lo ip (udp_rate net)"
  using assms
proof (induction events arbitrary: t net)
  case (Cons ev events)
  obtain now event where ev: "ev = (now, event)" by force
  obtain net' spawned where d: "udp_handle_datagram deserialize now event net = (net', spawned)" by force
  have t: "t \<le> now" using Cons.prems(2) ev by simp
  note b = udp_datagram_budget(1) [OF Cons.prems(1) t d] udp_datagram_budget(2) [OF Cons.prems(1) t d, of lo ip]
  have "sorted (now # map fst events)" using Cons.prems(2) ev by simp
  from Cons.IH [OF b(1) this] b(2) show ?case
    by (cases spawned) (auto simp: ev d case_prod_beta split: if_splits)
qed simp

section \<open>Properties\<close>

text \<open>
  C26: whatever datagrams arrive, the handler is invoked at most 200 times for requests from one
  IP address in any interval of 60 seconds: twice the limit of 100 per window, since an interval
  can meet the end of one window and the start of the next.
\<close>

theorem handler_calls_rate_limited:
  assumes "sorted (map fst events)"
  shows "length (filter (\<lambda>(now, _, _, src). ip_of src = ip \<and> lo \<le> now \<and> now \<le> lo + RATE_LIMIT_WINDOW)
      (snd (udp_handle_incoming deserialize events (udp_new\<lparr>udp_handler := h\<rparr>))))
    \<le> 2 * MAX_REQUESTS_PER_WINDOW"
proof -
  have "rate_wf 0 (udp_rate (udp_new\<lparr>udp_handler := h\<rparr>))" by (simp add: rate_wf_def udp_new_def)
  from udp_incoming_budget [OF this, of events ip lo deserialize] assms show ?thesis
    by (simp add: rate_budget_def udp_new_def MAX_REQUESTS_PER_WINDOW_def)
qed

theorem handler_calls_rate_limited_witness:
  "length (filter (\<lambda>(now, _, _, src). ip_of src = IpV4 1 \<and> 0 \<le> now \<and> now \<le> 0 + RATE_LIMIT_WINDOW)
      (snd (udp_handle_incoming (\<lambda>_. Inr (Request (Ping 1 node_a)))
         [(0, RecvFrom [1] (SocketAddrV4 1 9)), (5, RecvFrom [1] (SocketAddrV4 1 9))]
         (udp_new\<lparr>udp_handler := Some ()\<rparr>)))) \<le> 2 * MAX_REQUESTS_PER_WINDOW"
  by (rule handler_calls_rate_limited) simp

text \<open>
  A queued message is sent when one of three attempts succeeds and only then: the outgoing
  task stops at the first attempt that succeeds, never makes more than three, and sleeps 500
  milliseconds after each failed attempt but the third.
\<close>

theorem outgoing_retries:
  "udp_send_with_retry send_to =
     (if send_to 1 = None then (True, 1, 0)
      else if send_to 2 = None then (True, 2, 500)
      else if send_to 3 = None then (True, 3, 1000)
      else (False, 3, 1000))"
proof -
  have "[1..<MAX_RETRIES + 1] = [1, 2, 3]" by (simp add: MAX_RETRIES_def upt_rec numeral_eq_Suc)
  then show ?thesis
    by (auto simp: udp_send_with_retry_def MAX_RETRIES_def RETRY_DELAY_MS_def split: option.split)
qed

end
