(* ===== verification/Tcp.thy ===== *)
theory Tcp
  imports Transport Xor_Metric
begin

text \<open>
  \<^verbatim>\<open>src/src/network/tcp.rs\<close>: the TCP transport. A frame is a four-byte big-endian length and that
  many bytes. The readable side of a stream is the bytes it still delivers and how it ends, the
  writable side the number of bytes it accepts before it fails. \<^verbatim>\<open>bincode\<close> is a parameter.
\<close>

section \<open>Data\<close>

definition MAX_FRAME_SIZE :: nat where
  "MAX_FRAME_SIZE = 16 * 1024 * 1024"

record tcp_stream =
  ts_bytes :: "u8 list"
  ts_end :: io_error  \<comment> \<open>the error of a read past the last byte, \<open>UnexpectedEof\<close> for a closed stream\<close>

record 'h tcp_network =
  tcp_queue :: "(socket_addr \<times> u8 list) list"
  tcp_queue_open :: bool
  tcp_pending :: pending_table
  tcp_handler :: "'h option"

definition tcp_new :: "'h tcp_network" where
  "tcp_new = \<lparr>tcp_queue = [], tcp_queue_open = True, tcp_pending = pend_new, tcp_handler = None\<rparr>"

section \<open>Frames\<close>

text \<open>\<^verbatim>\<open>read_exact\<close>: all bytes asked for, or the error at the end of the stream.\<close>

definition read_exact :: "nat \<Rightarrow> tcp_stream \<Rightarrow> tcp_stream \<times> u8 list outcome" where
  "read_exact n s =
     (if n \<le> length (ts_bytes s) then (s\<lparr>ts_bytes := drop n (ts_bytes s)\<rparr>, Ok (take n (ts_bytes s)))
      else (s\<lparr>ts_bytes := []\<rparr>, Err (Io (ts_end s))))"

definition tcp_read_frame :: "tcp_stream \<Rightarrow> tcp_stream \<times> u8 list option outcome" where
  "tcp_read_frame s =
     (case read_exact 4 s of
        (s', Ok prefix) \<Rightarrow>
          let len = be_val prefix
          in if len = 0 \<or> len > MAX_FRAME_SIZE
             then (s', Err (Network (''Invalid TCP frame size: '' @ show_base 10 len)))
             else (case read_exact len s' of
                     (s'', Ok buf) \<Rightarrow> (s'', Ok (Some buf))
                   | (s'', Err e) \<Rightarrow> (s'', Err e)
                   | (s'', Panic x) \<Rightarrow> (s'', Panic x))
      | (s', Err e) \<Rightarrow> if e = Io UnexpectedEof then (s', Ok None) else (s', Err e)
      | (s', Panic x) \<Rightarrow> (s', Panic x))"

definition u32_be :: "u32 \<Rightarrow> u8 list" where
  "u32_be w = map (\<lambda>i. ucast (drop_bit (8 * i) w)) [3, 2, 1, 0]"

text \<open>
  \<^verbatim>\<open>write_frame\<close>: the writer accepts everything, or \<open>n\<close> bytes before it fails with an error;
  the flush may fail too. The result is the bytes written and the outcome.
\<close>

definition tcp_write_frame ::
  "(nat \<times> io_error) option \<Rightarrow> io_error option \<Rightarrow> u8 list \<Rightarrow> u8 list \<times> unit outcome" where
  "tcp_write_frame fault flush data =
     (let len = length data
      in if len > MAX_FRAME_SIZE then ([], Err (Network ''Frame too large''))
         else let out = u32_be (of_nat len) @ data
              in case fault of
                   Some (n, e) \<Rightarrow>
                     if n < length out then (take n out, Err (Io e))
                     else (case flush of Some e \<Rightarrow> (out, Err (Io e)) | None \<Rightarrow> (out, Ok ()))
                 | None \<Rightarrow> (case flush of Some e \<Rightarrow> (out, Err (Io e)) | None \<Rightarrow> (out, Ok ())))"

section \<open>Connections\<close>

text \<open>One frame of a connection: the handler call it spawns, if any, replies to the declared sender.\<close>

definition tcp_handle_frame ::
  "(u8 list \<Rightarrow> string + kademlia_message) \<Rightarrow> u8 list \<Rightarrow> 'h tcp_network \<Rightarrow>
   'h tcp_network \<times> ('h \<times> request_message \<times> socket_addr) option" where
  "tcp_handle_frame deserialize frame net =
     (case deserialize frame of
        Inr (Response response) \<Rightarrow>
          (net\<lparr>tcp_pending := pend_deliver response (tcp_pending net)\<rparr>, None)
      | Inr (Request request) \<Rightarrow>
          (case tcp_handler net of
             Some handler \<Rightarrow> (net, Some (handler, request, addr (req_sender request)))
           | None \<Rightarrow> (net, None))
      | Inl _ \<Rightarrow> (net, None))"

lemma read_exact_shrinks: "read_exact n s = (s', Ok bs) \<Longrightarrow> length (ts_bytes s') + n = length (ts_bytes s)"
  by (auto simp: read_exact_def split: if_splits)

lemma tcp_read_frame_shrinks:
  "tcp_read_frame s = (s', Ok (Some f)) \<Longrightarrow> length (ts_bytes s') < length (ts_bytes s)"
  by (auto simp: tcp_read_frame_def Let_def split: prod.splits outcome.splits if_splits
      dest!: read_exact_shrinks)

function tcp_handle_connection ::
  "(u8 list \<Rightarrow> string + kademlia_message) \<Rightarrow> tcp_stream \<Rightarrow> 'h tcp_network \<Rightarrow>
   'h tcp_network \<times> ('h \<times> request_message \<times> socket_addr) list \<times> unit outcome" where
  "tcp_handle_connection deserialize stream net =
     (case tcp_read_frame stream of
        (stream', Ok (Some frame)) \<Rightarrow>
          let (net', spawned) = tcp_handle_frame deserialize frame net;
              (net'', calls, result) = tcp_handle_connection deserialize stream' net'
          in (net'', (case spawned of Some call \<Rightarrow> [call] | None \<Rightarrow> []) @ calls, result)
      | (stream', Ok None) \<Rightarrow> (net, [], Ok ())
      | (stream', Err e) \<Rightarrow> (net, [], Err e)
      | (stream', Panic x) \<Rightarrow> (net, [], Panic x))"
  by pat_completeness auto
termination
  by (relation "measure (\<lambda>(_, stream, _). length (ts_bytes stream))") (auto dest: tcp_read_frame_shrinks [OF sym])

declare tcp_handle_connection.simps [simp del]

text \<open>
  The outgoing task: one connection per message. \<open>connect n\<close> is the result of connecting for the
  \<open>n\<close>-th message, an error or the faults of the stream. The result is what went out for each.
\<close>

fun tcp_handle_outgoing ::
  "(nat \<Rightarrow> io_error + (nat \<times> io_error) option \<times> io_error option) \<Rightarrow> nat \<Rightarrow>
   (socket_addr \<times> u8 list) list \<Rightarrow> (socket_addr \<times> u8 list \<times> unit outcome) list" where
  "tcp_handle_outgoing connect n [] = []"
| "tcp_handle_outgoing connect n ((dest, data) # queue) =
     (case connect n of
        Inr (fault, flush) \<Rightarrow> (dest, tcp_write_frame fault flush data)
      | Inl e \<Rightarrow> (dest, [], Err (Io e))) # tcp_handle_outgoing connect (n + 1) queue"

definition tcp_send ::
  "(kademlia_message \<Rightarrow> string + u8 list) \<Rightarrow> socket_addr \<Rightarrow> kademlia_message \<Rightarrow> 'h tcp_network \<Rightarrow>
   'h tcp_network \<times> unit outcome" where
  "tcp_send serialize dest message net =
     (case serialize message of
        Inl e \<Rightarrow> (net, Err (Other (''Serialization error: '' @ e)))
      | Inr data \<Rightarrow>
          if tcp_queue_open net then (net\<lparr>tcp_queue := tcp_queue net @ [(dest, data)]\<rparr>, Ok ())
          else (net, Err (Network ''Failed to enqueue TCP message'')))"

definition tcp_set_request_handler :: "'h \<Rightarrow> 'h tcp_network \<Rightarrow> 'h tcp_network \<times> unit outcome" where
  "tcp_set_request_handler handler net = (net\<lparr>tcp_handler := Some handler\<rparr>, Ok ())"

section \<open>Length prefixes\<close>

lemma length_u32_be [simp]: "length (u32_be w) = 4"
  by (simp add: u32_be_def)

lemma be_val_u32_be: "be_val (u32_be w) = unat w"
proof (rule bit_eqI)
  fix n
  have "bit w n \<Longrightarrow> n < 32" using bit_imp_le_length [of w n] by simp
  then show "bit (be_val (u32_be w)) n = bit (unat w) n"
    by (auto simp: u32_be_def bit_be_val_Cons bit_simps)
qed

lemma u32_be_of_nat: "n < 2 ^ 32 \<Longrightarrow> be_val (u32_be (of_nat n)) = n"
  by (simp add: be_val_u32_be unat_of_nat take_bit_nat_eq_self)

lemma be_val_inj: "length xs = length ys \<Longrightarrow> be_val xs = be_val ys \<Longrightarrow> xs = ys"
proof (induction xs ys rule: list_induct2)
  case (Cons x xs y ys)
  have "bit (be_val (x # xs)) n = bit (be_val (y # ys)) n" for n using Cons.prems by simp
  then have b: "(if n < 8 * length xs then bit (be_val xs) n else bit x (n - 8 * length xs)) =
      (if n < 8 * length xs then bit (be_val ys) n else bit y (n - 8 * length xs))" for n
    using Cons.hyps by (simp add: bit_be_val_Cons)
  have "bit x n = bit y n" for n using b [of "n + 8 * length xs"] by simp
  then have "x = y" by (simp add: bit_eq_iff)
  moreover have "be_val xs = be_val ys"
  proof (rule bit_eqI)
    fix n show "bit (be_val xs) n = bit (be_val ys) n"
      using b [of n] be_val_less [of xs] be_val_less [of ys] Cons.hyps
      by (cases "n < 8 * length xs") (auto simp: nat_no_bit_if_less)
  qed
  ultimately show ?case using Cons.IH by simp
qed simp

section \<open>Reading frames\<close>

text \<open>
  The reader accepts exactly what the writer produces, for data of one byte to 16 MiB.
\<close>

lemma tcp_read_frame_iff:
  "tcp_read_frame s = (s', Ok (Some f)) \<longleftrightarrow>
     ts_bytes s = u32_be (of_nat (length f)) @ f @ ts_bytes s' \<and> ts_end s' = ts_end s \<and>
     0 < length f \<and> length f \<le> MAX_FRAME_SIZE"
proof
  assume r: "tcp_read_frame s = (s', Ok (Some f))"
  let ?p = "take 4 (ts_bytes s)" and ?rest = "drop 4 (ts_bytes s)"
  from r have l: "4 \<le> length (ts_bytes s)" "0 < be_val ?p" "be_val ?p \<le> MAX_FRAME_SIZE"
    "be_val ?p \<le> length ?rest" "f = take (be_val ?p) ?rest"
    "s' = s\<lparr>ts_bytes := drop (be_val ?p) ?rest\<rparr>"
    by (auto simp: tcp_read_frame_def read_exact_def Let_def split: if_splits)
  then have len: "length f = be_val ?p" by simp
  then have "u32_be (of_nat (length f)) = ?p"
    using l(1,3) by (intro be_val_inj) (simp_all add: u32_be_of_nat MAX_FRAME_SIZE_def)
  moreover have "ts_bytes s = ?p @ f @ drop (be_val ?p) ?rest"
    using l(5) by (metis append_take_drop_id)
  ultimately show "ts_bytes s = u32_be (of_nat (length f)) @ f @ ts_bytes s' \<and> ts_end s' = ts_end s \<and>
     0 < length f \<and> length f \<le> MAX_FRAME_SIZE" using l len by simp
next
  assume a: "ts_bytes s = u32_be (of_nat (length f)) @ f @ ts_bytes s' \<and> ts_end s' = ts_end s \<and>
     0 < length f \<and> length f \<le> MAX_FRAME_SIZE"
  then have "be_val (u32_be (of_nat (length f))) = length f"
    by (intro u32_be_of_nat) (simp add: MAX_FRAME_SIZE_def)
  with a show "tcp_read_frame s = (s', Ok (Some f))"
    by (simp add: tcp_read_frame_def read_exact_def)
qed

section \<open>Whole connections\<close>

text \<open>The requests and the responses among the frames of a connection, in order.\<close>

definition frame_requests :: "(u8 list \<Rightarrow> string + kademlia_message) \<Rightarrow> u8 list list \<Rightarrow> request_message list" where
  "frame_requests deserialize fs =
     List.map_filter (\<lambda>f. case deserialize f of Inr (Request r) \<Rightarrow> Some r | _ \<Rightarrow> None) fs"

definition frame_responses :: "(u8 list \<Rightarrow> string + kademlia_message) \<Rightarrow> u8 list list \<Rightarrow> response_message list" where
  "frame_responses deserialize fs =
     List.map_filter (\<lambda>f. case deserialize f of Inr (Response r) \<Rightarrow> Some r | _ \<Rightarrow> None) fs"

abbreviation frame_ok :: "u8 list \<Rightarrow> bool" where
  "frame_ok f \<equiv> 0 < length f \<and> length f \<le> MAX_FRAME_SIZE"

abbreviation frame_bytes :: "u8 list \<Rightarrow> u8 list" where
  "frame_bytes f \<equiv> fst (tcp_write_frame None None f)"

lemma frame_bytes_eq: "length f \<le> MAX_FRAME_SIZE \<Longrightarrow> frame_bytes f = u32_be (of_nat (length f)) @ f"
  by (simp add: tcp_write_frame_def)

lemma tcp_connection_frames:
  assumes "list_all frame_ok fs" "tcp_handler net = Some h"
    and "ts_bytes s = concat (map frame_bytes fs)" "ts_end s = UnexpectedEof"
  shows "tcp_handle_connection deserialize s net =
    (net\<lparr>tcp_pending := fold pend_deliver (frame_responses deserialize fs) (tcp_pending net)\<rparr>,
     map (\<lambda>r. (h, r, addr (req_sender r))) (frame_requests deserialize fs), Ok ())"
  using assms
proof (induction fs arbitrary: s net)
  case Nil
  then show ?case
    by (simp add: tcp_handle_connection.simps [of _ s] tcp_read_frame_def read_exact_def
        frame_responses_def frame_requests_def List.map_filter_def)
next
  case (Cons f fs)
  let ?s = "s\<lparr>ts_bytes := concat (map frame_bytes fs)\<rparr>"
  have r: "tcp_read_frame s = (?s, Ok (Some f))"
    using Cons.prems by (simp add: tcp_read_frame_iff frame_bytes_eq)
  have IH: "tcp_handle_connection deserialize ?s net' =
    (net'\<lparr>tcp_pending := fold pend_deliver (frame_responses deserialize fs) (tcp_pending net')\<rparr>,
     map (\<lambda>r. (h, r, addr (req_sender r))) (frame_requests deserialize fs), Ok ())"
    if "tcp_handler net' = Some h" for net'
    using Cons.prems that by (intro Cons.IH) simp_all
  show ?case
    unfolding tcp_handle_connection.simps [of _ s] r
    using Cons.prems(2)
    by (cases "deserialize f" rule: sum.exhaust [case_names Inl Inr])
      (auto simp: tcp_handle_frame_def IH frame_responses_def frame_requests_def List.map_filter_def
        split: kademlia_message.split)
qed

section \<open>Properties\<close>

text \<open>
  C27: reading inverts writing, exactly: the reader returns a frame \<open>f\<close> and leaves the rest of the
  stream if and only if the stream starts with the bytes the writer produces for \<open>f\<close>, and \<open>f\<close> has
  between one byte and 16 MiB. No frame outside these bounds is ever returned, whatever the peer
  sends.
\<close>

theorem frame_reader_inverts_writer:
  "tcp_read_frame s = (s', Ok (Some f)) \<longleftrightarrow>
     f \<noteq> [] \<and> snd (tcp_write_frame None None f) = Ok () \<and>
     ts_bytes s = fst (tcp_write_frame None None f) @ ts_bytes s' \<and> ts_end s' = ts_end s"
  by (cases "length f \<le> MAX_FRAME_SIZE")
    (auto simp: tcp_read_frame_iff tcp_write_frame_def Let_def not_le)

text \<open>
  C28: a connection that carries the frames of a list of messages and is then closed is handled
  to its end without an error: every request is passed to the handler in the order sent, with
  the address the request declares as its sender, every response is delivered to the table of
  pending responses in the order sent, and frames that do not decode are skipped.
\<close>

theorem connection_handles_every_frame:
  assumes "list_all (\<lambda>f. f \<noteq> [] \<and> length f \<le> MAX_FRAME_SIZE) fs" "tcp_handler net = Some h"
  shows "tcp_handle_connection deserialize
      \<lparr>ts_bytes = concat (map (\<lambda>f. fst (tcp_write_frame None None f)) fs), ts_end = UnexpectedEof\<rparr> net =
    (net\<lparr>tcp_pending := fold pend_deliver (frame_responses deserialize fs) (tcp_pending net)\<rparr>,
     map (\<lambda>r. (h, r, addr (req_sender r))) (frame_requests deserialize fs), Ok ())"
  by (rule tcp_connection_frames) (use assms in \<open>auto simp: list_all_iff\<close>)

theorem connection_handles_every_frame_witness:
  "snd (tcp_handle_connection (\<lambda>f. if f = [1] then Inr (Request (Ping 5 node_a)) else Inl ''bad'')
      \<lparr>ts_bytes = concat (map (\<lambda>f. fst (tcp_write_frame None None f)) [[2], [1]]), ts_end = UnexpectedEof\<rparr>
      (tcp_new\<lparr>tcp_handler := Some True\<rparr>)) =
   ([(True, Ping 5 node_a, addr node_a)], Ok ())"
  using connection_handles_every_frame
    [of "[[2], [1]]" "tcp_new\<lparr>tcp_handler := Some True\<rparr>" True "\<lambda>f. if f = [1] then Inr (Request (Ping 5 node_a)) else Inl ''bad''"]
  by (simp add: MAX_FRAME_SIZE_def frame_requests_def List.map_filter_def)

text \<open>
  The two ends disagree on the empty frame, and a cut-off length is not noticed: writing
  empty data succeeds and reading what was written is an error, while a stream that ends inside
  the four length bytes is taken for one that was closed between frames.
\<close>

theorem frame_edge_cases:
  "snd (tcp_write_frame None None []) = Ok () \<and>
   (\<exists>e. snd (tcp_read_frame \<lparr>ts_bytes = fst (tcp_write_frame None None []), ts_end = UnexpectedEof\<rparr>) = Err e) \<and>
   snd (tcp_read_frame \<lparr>ts_bytes = [0, 0, 1], ts_end = UnexpectedEof\<rparr>) = Ok None"
  using be_val_u32_be [of 0]
  by (simp add: tcp_write_frame_def tcp_read_frame_def read_exact_def Let_def)

end
