(* ===== verification/Dht_Node.thy ===== *)
theory Dht_Node
  imports Protocol_Facts Udp Tcp
begin

text \<open>
  \<^verbatim>\<open>src/src/network/node.rs\<close>: the complete node, a protocol handler with its storage, and the rounds of
  its three background tasks. Time limits around whole operations are part of the model: an
  operation dropped at its deadline has performed a prefix of its steps.
\<close>

section \<open>Construction\<close>

definition REFRESH_INTERVAL :: duration where
  "REFRESH_INTERVAL = from_secs 3600"

definition REPUBLISH_INTERVAL :: duration where
  "REPUBLISH_INTERVAL = from_secs 86400"

definition EXPIRATION_CHECK_INTERVAL :: duration where
  "EXPIRATION_CHECK_INTERVAL = from_secs 3600"

definition dht_new :: "node_id \<Rightarrow> socket_addr \<Rightarrow> 's \<Rightarrow> 's protocol" where
  "dht_new i a storage = protocol_new i a (rt_new i) storage"

text \<open>
  \<^verbatim>\<open>with_udp\<close> and \<^verbatim>\<open>with_tcp\<close>: \<open>bind\<close> is the error of binding the socket, if there is one. The handler
  installed on the transport forwards requests to the protocol.
\<close>

definition dht_with_udp ::
  "(u8 list \<Rightarrow> u8 list) \<Rightarrow> io_error option \<Rightarrow> socket_addr \<Rightarrow>
   (memory_storage protocol \<times> unit udp_network) outcome" where
  "dht_with_udp sha256 bind a =
     (let i = from_socket_addr sha256 a;
          storage = ms_with_name (''node_'' @ show_base 10 (unat (port_of a)))
      in case bind of
           Some e \<Rightarrow> Err (Io e)
         | None \<Rightarrow> Ok (dht_new i a storage, fst (udp_set_request_handler () udp_new)))"

definition dht_with_tcp ::
  "(u8 list \<Rightarrow> u8 list) \<Rightarrow> io_error option \<Rightarrow> socket_addr \<Rightarrow>
   (memory_storage protocol \<times> unit tcp_network) outcome" where
  "dht_with_tcp sha256 bind a =
     (let i = from_socket_addr sha256 a;
          storage = ms_with_name (''tcp_node_'' @ show_base 10 (unat (port_of a)))
      in case bind of
           Some e \<Rightarrow> Err (Io e)
         | None \<Rightarrow> Ok (dht_new i a storage, fst (tcp_set_request_handler () tcp_new)))"

text \<open>\<^verbatim>\<open>ProtocolRequestForwarder::handle_request\<close> logs an error and drops it.\<close>

definition forward_to_protocol ::
  "'s world \<Rightarrow> request_message \<Rightarrow> socket_addr \<Rightarrow> 's protocol \<Rightarrow> 's protocol \<times> unit outcome" where
  "forward_to_protocol w req from st = ignore_err (handle_request w req from st)"

section \<open>Operations\<close>

text \<open>
  The deadline of \<^verbatim>\<open>store_value\<close>: not reached, reached before the local store, or reached after the
  requests to the first \<open>m\<close> nodes; a request dropped while it waits is a wait that failed.
\<close>

datatype deadline = InTime | CutBeforeStore | CutAfter nat

definition store_value_within ::
  "'s world \<Rightarrow> deadline \<Rightarrow> node_id \<Rightarrow> u8 list \<Rightarrow> 's protocol \<Rightarrow> 's protocol \<times> unit outcome" where
  "store_value_within w limit key value st =
     (case limit of
        InTime \<Rightarrow> store_value w key value st
      | CutBeforeStore \<Rightarrow> (st, Ok ())
      | CutAfter m \<Rightarrow>
          and_then (with_storage w (\<lambda>e s. sto_store (w_impl w) (ev_instant e) key value s) st) (\<lambda>_ st1.
            let (st2, _) = tick w st1;
                closest_nodes = rt_get_closest (p_table st2) key K;
                nodes = (if closest_nodes = [] then rt_get_all_nodes (p_table st2) else closest_nodes)
            in store_on_nodes w key value (take m nodes) st2))"

definition dht_store ::
  "'s world \<Rightarrow> deadline \<Rightarrow> u8 list \<Rightarrow> u8 list \<Rightarrow> 's protocol \<Rightarrow> 's protocol \<times> unit outcome" where
  "dht_store w limit key value st =
     (let key_id = from_bytes key
      in case store_value_within w limit key_id value st of
           (st1, Panic x) \<Rightarrow> (st1, Panic x)
         | (st1, result) \<Rightarrow>
             let (st2, _) = tick w st1;
                 nodes = rt_get_all_nodes (p_table st2)
             in and_then (store_on_nodes w key_id value nodes st2) (\<lambda>_ st3. (st3, result)))"

definition dht_get :: "'s world \<Rightarrow> u8 list \<Rightarrow> 's protocol \<Rightarrow> 's protocol \<times> u8 list outcome" where
  "dht_get w key st =
     (case find_value w (from_bytes key) st of
        (st1, Ok (Some value)) \<Rightarrow> (st1, Ok value)
      | (st1, Panic x) \<Rightarrow> (st1, Panic x)
      | (st1, _) \<Rightarrow> (st1, Err ValueNotFound))"

definition dht_join ::
  "'s world \<Rightarrow> (u8 list \<Rightarrow> u8 list) \<Rightarrow> socket_addr \<Rightarrow> 's protocol \<Rightarrow> 's protocol \<times> unit outcome" where
  "dht_join w sha256 bootstrap_addr st =
     (let bootstrap_node = with_addr sha256 bootstrap_addr
      in and_then (record_contact w bootstrap_node st) (\<lambda>_ st1.
           and_then (ping w bootstrap_node st1) (\<lambda>response st2.
             and_then (record_contact w (resp_sender response) st2) (\<lambda>_ st3.
               and_then (find_node w (p_id st3) st3) (\<lambda>_ st4. (st4, Ok ()))))))"

section \<open>Background tasks\<close>

text \<open>One round of each task; \<open>coin\<close> supplies the random bits of \<^verbatim>\<open>random_in_bucket\<close>.\<close>

fun refresh_buckets ::
  "'s world \<Rightarrow> (nat \<Rightarrow> nat \<Rightarrow> bool) \<Rightarrow> nat list \<Rightarrow> 's protocol \<Rightarrow> 's protocol \<times> unit outcome" where
  "refresh_buckets w coin [] st = (st, Ok ())"
| "refresh_buckets w coin (index # indices) st =
     (let target = (case random_in_bucket (coin index) (p_id st) index of
                      Some t \<Rightarrow> t
                    | None \<Rightarrow> ev_random (w_env w (p_tick st)))
      in and_then (ignore_err (find_node w target st)) (\<lambda>_ st1. refresh_buckets w coin indices st1))"

definition refresh_round ::
  "'s world \<Rightarrow> (nat \<Rightarrow> nat \<Rightarrow> bool) \<Rightarrow> 's protocol \<Rightarrow> 's protocol \<times> unit outcome" where
  "refresh_round w coin st =
     (let (st1, e) = tick w st;
          bucket_indices = rt_bucket_indices (p_table st1)
      in if bucket_indices = [] then ignore_err (find_node w (ev_random e) st1)
         else refresh_buckets w coin bucket_indices st1)"

text \<open>The items to republish, read under one lock of the storage.\<close>

fun collect_items ::
  "'s storage_impl \<Rightarrow> instant \<Rightarrow> node_id list \<Rightarrow> 's \<Rightarrow> 's \<times> (node_id \<times> u8 list) list outcome" where
  "collect_items impl now [] s = (s, Ok [])"
| "collect_items impl now (key # keys) s =
     (case sto_get impl now key s of
        (s1, Panic x) \<Rightarrow> (s1, Panic x)
      | (s1, Err _) \<Rightarrow> collect_items impl now keys s1
      | (s1, Ok value) \<Rightarrow> and_then (collect_items impl now keys s1) (\<lambda>items s2. (s2, Ok ((key, value) # items))))"

fun republish_items :: "'s world \<Rightarrow> (node_id \<times> u8 list) list \<Rightarrow> 's protocol \<Rightarrow> 's protocol \<times> unit outcome" where
  "republish_items w [] st = (st, Ok ())"
| "republish_items w ((key, value) # items) st =
     and_then (ignore_err (store_value w key value st)) (\<lambda>_ st1. republish_items w items st1)"

definition republish_round :: "'s world \<Rightarrow> 's protocol \<Rightarrow> 's protocol \<times> unit outcome" where
  "republish_round w st =
     and_then
       (with_storage w (\<lambda>e s. collect_items (w_impl w) (ev_instant e) (sto_keys (w_impl w) s) s) st)
       (\<lambda>items st1. republish_items w items st1)"

definition expiration_round :: "'s world \<Rightarrow> 's protocol \<Rightarrow> 's protocol \<times> unit outcome" where
  "expiration_round w st = with_storage w (\<lambda>e s. sto_cleanup (w_impl w) (ev_instant e) s) st"

text \<open>
  \<^verbatim>\<open>start\<close> spawns the three tasks. The timer of a task fires at once and then at every multiple of its
  interval, and ticks that were missed are made up for.
\<close>

datatype background_task = RefreshTask | RepublishTask | ExpirationTask

fun task_interval :: "background_task \<Rightarrow> duration" where
  "task_interval RefreshTask = REFRESH_INTERVAL"
| "task_interval RepublishTask = REPUBLISH_INTERVAL"
| "task_interval ExpirationTask = EXPIRATION_CHECK_INTERVAL"

definition dht_start :: "background_task list \<times> unit outcome" where
  "dht_start = ([RefreshTask, RepublishTask, ExpirationTask], Ok ())"

definition rounds_due :: "background_task \<Rightarrow> duration \<Rightarrow> nat" where
  "rounds_due task uptime = uptime div task_interval task + 1"

fun background_round ::
  "'s world \<Rightarrow> (nat \<Rightarrow> nat \<Rightarrow> bool) \<Rightarrow> background_task \<Rightarrow> 's protocol \<Rightarrow> 's protocol \<times> unit outcome" where
  "background_round w coin RefreshTask st = refresh_round w coin st"
| "background_round w coin RepublishTask st = republish_round w st"
| "background_round w coin ExpirationTask st = expiration_round w st"

section \<open>Every operation keeps the invariant\<close>

lemma good_store_value_within:
  "protocol_ok l k st \<Longrightarrow> good False (protocol_ok l k) (store_value_within w limit key v st)"
  unfolding store_value_within_def Let_def
  by (cases limit)
    (auto intro!: good_store_value good_Ok good_and_then good_with_storage good_let_tick good_store_on_nodes)

lemma good_dht_store: "protocol_ok l k st \<Longrightarrow> good False (protocol_ok l k) (dht_store w limit key v st)"
proof -
  assume "protocol_ok l k st"
  then have g: "good False (protocol_ok l k) (store_value_within w limit (from_bytes key) v st)"
    by (rule good_store_value_within)
  obtain st1 r where s: "store_value_within w limit (from_bytes key) v st = (st1, r)" by force
  have st1: "protocol_ok l k st1" using goodD [OF g] s by simp
  have "good False (protocol_ok l k)
      (case tick w st1 of (st2, _) \<Rightarrow> and_then (store_on_nodes w (from_bytes key) v (rt_get_all_nodes (p_table st2)) st2)
         (\<lambda>_ st3. (st3, r)))"
    using st1 by (intro good_let_tick good_and_then good_store_on_nodes) (simp_all add: good_def)
  with st1 show ?thesis
    unfolding dht_store_def Let_def s by (cases r) (simp_all add: good_Panic)
qed

lemma good_dht_get: "protocol_ok l k st \<Longrightarrow> good False (protocol_ok l k) (dht_get w key st)"
  using good_find_value [of l k st w "from_bytes key"]
  by (auto simp: dht_get_def good_def split: prod.split outcome.split option.split)

lemma good_dht_join: "protocol_ok l k st \<Longrightarrow> good (0 < k) (protocol_ok l k) (dht_join w sha a st)"
proof -
  have fn: "good (0 < k) (protocol_ok l k) (find_node w t st')" if "protocol_ok l k st'" for t and st' :: "'a protocol"
    using good_find_node [OF that, of w t] find_node_ok(1) [OF that, of w t] by (auto simp: good_def)
  assume "protocol_ok l k st"
  then show ?thesis
    unfolding dht_join_def Let_def by (intro good_and_then good_record_contact good_ping fn good_Ok)
qed

lemma good_refresh_buckets: "protocol_ok l k st \<Longrightarrow> good False (protocol_ok l k) (refresh_buckets w coin is st)"
  by (induction "is" arbitrary: st) (auto simp: Let_def intro!: good_Ok good_and_then good_ignore_err good_find_node)

lemma good_refresh_round: "protocol_ok l k st \<Longrightarrow> good False (protocol_ok l k) (refresh_round w coin st)"
  unfolding refresh_round_def Let_def
  by (intro good_let_tick) (auto intro!: good_ignore_err good_find_node good_refresh_buckets)

lemma good_republish_items: "protocol_ok l k st \<Longrightarrow> good False (protocol_ok l k) (republish_items w items st)"
  by (induction w items st rule: republish_items.induct)
    (auto intro!: good_Ok good_and_then good_ignore_err good_store_value)

lemma good_republish_round: "protocol_ok l k st \<Longrightarrow> good False (protocol_ok l k) (republish_round w st)"
  unfolding republish_round_def by (intro good_and_then good_with_storage good_republish_items) simp_all

lemma good_expiration_round: "protocol_ok l k st \<Longrightarrow> good False (protocol_ok l k) (expiration_round w st)"
  unfolding expiration_round_def by (rule good_with_storage) simp_all

lemma good_background_round:
  "protocol_ok l k st \<Longrightarrow> good False (protocol_ok l k) (background_round w coin task st)"
  by (cases task) (simp_all add: good_refresh_round good_republish_round good_expiration_round)

datatype dht_op =
    DStore deadline "u8 list" "u8 list"
  | DGet "u8 list"
  | DJoin socket_addr
  | DBackground background_task "nat \<Rightarrow> nat \<Rightarrow> bool"
  | DProtocol proto_op

fun dht_apply :: "'s world \<Rightarrow> (u8 list \<Rightarrow> u8 list) \<Rightarrow> dht_op \<Rightarrow> 's protocol \<Rightarrow> 's protocol" where
  "dht_apply w sha (DStore limit key v) st = fst (dht_store w limit key v st)"
| "dht_apply w sha (DGet key) st = fst (dht_get w key st)"
| "dht_apply w sha (DJoin a) st = fst (dht_join w sha a st)"
| "dht_apply w sha (DBackground task coin) st = fst (background_round w coin task st)"
| "dht_apply w sha (DProtocol x) st = proto_apply w x st"

interpretation dht: stable "dht_apply w sha" "protocol_ok l k" for w sha l k
proof
  fix st :: "'a protocol" and x assume ok: "protocol_ok l k st"
  show "protocol_ok l k (dht_apply w sha x st)"
    by (cases x) (simp_all add: goodD [OF good_dht_store] goodD [OF good_dht_get] goodD [OF good_dht_join]
        goodD [OF good_background_round] prot.step_inv ok)
qed

lemma dht_new_ok: "protocol_ok l K (dht_new l a s)"
  by (simp add: dht_new_def protocol_ok_def protocol_new_def table_ok_def rt_new_def rt_inv_def)

lemmas dht_run_ok = dht.run_inv [OF dht_new_ok]

lemma dht_node_ok: "protocol_ok l K (run (dht_apply w sha) ops (dht_new l a s))"
  by (rule dht_run_ok)

section \<open>Stored values\<close>

text \<open>A predicate on the storage that reads and the operations of the other tasks keep.\<close>

definition calm :: "'s world \<Rightarrow> ('s \<Rightarrow> bool) \<Rightarrow> bool" where
  "calm w P \<longleftrightarrow> (\<forall>t s. P s \<longrightarrow> P (run (sto_apply (w_impl w)) (ev_storage (w_env w t)) s)) \<and>
     (\<forall>now k s. P s \<longrightarrow> P (fst (sto_get (w_impl w) now k s)))"

interpretation stored: serve_frame w "\<lambda>st. calm w P \<longrightarrow> P (p_storage st)" "\<lambda>_. False" for w P
  by unfold_locales (auto simp: calm_def tick_def Let_def)

lemma calm_tick: "calm w P \<Longrightarrow> P (p_storage st) \<Longrightarrow> P (p_storage (fst (tick w st)))"
  by (simp add: calm_def tick_def Let_def)

lemma calm_store_on_nodes:
  "calm w P \<Longrightarrow> P (p_storage st) \<Longrightarrow> P (p_storage (fst (store_on_nodes w key v ns st)))"
  using goodD [OF stored.keeps_store_on_nodes [where P = P and w = w and st = st]] by simp

text \<open>
  The memory storage as long as the other tasks leave the key alone, do their work not later than
  \<open>t1\<close> and stay within the clock.
\<close>

definition undisturbed :: "memory_storage world \<Rightarrow> node_id \<Rightarrow> instant \<Rightarrow> duration \<Rightarrow> bool" where
  "undisturbed w key t1 ttl \<longleftrightarrow> w_impl w = memory_impl \<and>
     (\<forall>t. list_all (\<lambda>x. \<not> writes key x \<and> op_time x \<le> t1 \<and> op_time x + ttl < INSTANT_LIMIT)
            (ev_storage (w_env w t)))"

lemma memory_get_state: "fst (sto_get memory_impl now k s) = s"
  by (simp add: memory_impl_def ms_get_def split: option.split outcome.split)

lemma undisturbed_entry: "undisturbed w key t1 ttl \<Longrightarrow> calm w (keeps_entry key e t1 ttl)"
  by (simp add: undisturbed_def calm_def keeps_entry_run memory_get_state)

lemma some_entry:
  assumes "ms_inv s" "ms_default_ttl s = ttl"
  shows "\<exists>e. keeps_entry key e t1 ttl s"
proof (cases "hm_get (ms_storage s) key")
  case None
  with assms have "keeps_entry key \<lparr>entry_value = [], entry_timestamp = 0, entry_ttl = 0\<rparr> t1 ttl s"
    by (simp add: keeps_entry_def)
  then show ?thesis ..
next
  case (Some e)
  with assms have "keeps_entry key e t1 ttl s" by (simp add: keeps_entry_def)
  then show ?thesis ..
qed

lemma keeps_entry_inv: "keeps_entry key e t1 ttl s \<Longrightarrow> ms_inv s \<and> ms_default_ttl s = ttl"
  by (simp add: keeps_entry_def)

lemma undisturbed_inv:
  assumes "undisturbed w key t1 ttl"
  shows "calm w (\<lambda>s. ms_inv s \<and> ms_default_ttl s = ttl)"
proof -
  have "ms_inv (run (sto_apply (w_impl w)) (ev_storage (w_env w t)) s) \<and>
      ms_default_ttl (run (sto_apply (w_impl w)) (ev_storage (w_env w t)) s) = ttl"
    if s: "ms_inv s" "ms_default_ttl s = ttl" for t s
  proof -
    obtain e where "keeps_entry key e t1 ttl s" using some_entry [OF s] by blast
    then have "keeps_entry key e t1 ttl (run (sto_apply (w_impl w)) (ev_storage (w_env w t)) s)"
      using undisturbed_entry [OF assms, of e] by (simp add: calm_def)
    then show ?thesis by (rule keeps_entry_inv)
  qed
  moreover have "w_impl w = memory_impl" using assms by (simp add: undisturbed_def)
  ultimately show ?thesis by (simp add: calm_def memory_get_state)
qed

lemma stored_entry:
  fixes w st key v t1 ttl
  assumes w: "undisturbed w key t1 ttl"
    and s: "ms_inv (p_storage st)" "ms_default_ttl (p_storage st) = ttl"
    and clock: "ev_instant (w_env w (p_tick st)) + ttl < INSTANT_LIMIT"
  defines "r \<equiv> with_storage w (\<lambda>e s. sto_store (w_impl w) (ev_instant e) key v s) st"
  shows "snd r = Ok ()"
    and "keeps_entry key \<lparr>entry_value = v, entry_timestamp = ev_instant (w_env w (p_tick st)), entry_ttl = ttl\<rparr>
      t1 ttl (p_storage (fst r))"
proof -
  let ?s = "p_storage (fst (tick w st))"
  have inv: "ms_inv ?s" "ms_default_ttl ?s = ttl"
    using calm_tick [OF undisturbed_inv [OF w], of st] s by simp_all
  have e: "snd (tick w st) = w_env w (p_tick st)" by (simp add: tick_def Let_def)
  have i: "w_impl w = memory_impl" using w by (simp add: undisturbed_def)
  show "snd r = Ok ()" by (simp add: r_def with_storage_def case_prod_beta i memory_impl_def)
  show "keeps_entry key \<lparr>entry_value = v, entry_timestamp = ev_instant (w_env w (p_tick st)), entry_ttl = ttl\<rparr>
      t1 ttl (p_storage (fst r))"
    using inv clock ms_store_inv [of ?s "ev_instant (w_env w (p_tick st))" key v]
    by (simp add: r_def with_storage_def case_prod_beta i memory_impl_def e keeps_entry_def ms_fits_def)
qed

lemma entry_readable:
  assumes "keeps_entry key e t1 ttl s" "t1 < expiry e" "now \<le> t1"
  shows "ms_get now key s = (s, Ok (entry_value e))"
  using assms by (auto simp: keeps_entry_def ms_get_eq ms_live_def)

section \<open>Properties\<close>

text \<open>
  C1: whatever a node does (storing, reading, joining, answering requests, the rounds of the
  background tasks), whatever the network answers and whatever other tasks do to the shared routing
  table and storage in between, the table never holds the node itself, holds at most 20 contacts per
  bucket and 3200 in all, each in the bucket of its first differing bit, and no call waits for a
  response longer than 30 seconds.
\<close>

theorem node_invariant:
  fixes w :: "'s world" and sha ops l a s
  defines "st \<equiv> run (dht_apply w sha) ops (dht_new l a s)"
  shows "l \<notin> rt_ids (p_table st) \<and> rt_node_count (p_table st) \<le> 3200 \<and>
    list_all (\<lambda>n. \<exists>i b. bucket_index l (nid n) = Some i \<and> hm_get (rt_buckets (p_table st)) i = Some b \<and>
      n \<in> set (kb_nodes b) \<and> length (kb_nodes b) \<le> 20) (rt_get_all_nodes (p_table st)) \<and>
    list_all (\<lambda>(_, limit). limit \<le> from_secs 30) (p_waits st)"
proof -
  have ok: "protocol_ok l 20 st" unfolding st_def using dht_node_ok by (simp add: K_def)
  then have t: "rt_inv (p_table st)" "rt_local (p_table st) = l" "rt_k (p_table st) = 20"
    and waits: "list_all (\<lambda>(_, d). d \<le> RPC_TIMEOUT) (p_waits st)"
    by (simp_all add: protocol_ok_def table_ok_def)
  have "\<exists>i b. bucket_index l (nid n) = Some i \<and> hm_get (rt_buckets (p_table st)) i = Some b \<and>
      n \<in> set (kb_nodes b) \<and> length (kb_nodes b) \<le> 20" if n: "n \<in> set (rt_get_all_nodes (p_table st))" for n
  proof -
    obtain i b where b: "hm_get (rt_buckets (p_table st)) i = Some b" "n \<in> set (kb_nodes b)"
      using n rt_nodes_iff [OF t(1)] by blast
    then have "kb_inv l i 20 b" using t by (auto simp: rt_inv_def)
    with b show ?thesis by (auto simp: kb_inv_def)
  qed
  with rt_local_absent [OF t(1)] rt_node_count_bound [OF t(1)] waits t show ?thesis
    by (simp add: list_all_iff RPC_TIMEOUT_def)
qed

lemma store_on_nodes_Ok:
  assumes "protocol_ok l k st" "0 < k"
  shows "\<exists>st'. store_on_nodes w key v ns st = (st', Ok ())"
  using assms(1)
proof (induction ns arbitrary: st)
  case (Cons n ns)
  have g: "good True (protocol_ok l k) (store_within w n key v st)"
    using good_store_within [OF Cons.prems, of w n key v] assms(2) by simp
  obtain st1 r where r: "store_within w n key v st = (st1, r)" by force
  then have "r = Ok ()" "protocol_ok l k st1"
    using g store_within_no_err [of w n key v st] by (cases r; auto simp: good_def)+
  with Cons r show ?case by (simp add: and_then_def)
qed simp

lemma store_value_within_stores:
  fixes st :: "memory_storage protocol"
  assumes w: "undisturbed w key t1 ttl"
    and s: "ms_inv (p_storage st)" "ms_default_ttl (p_storage st) = ttl"
    and clock: "ev_instant (w_env w (p_tick st)) + ttl < INSTANT_LIMIT"
    and ok: "protocol_ok l k st" "0 < k"
    and "limit \<noteq> CutBeforeStore"
  shows "\<exists>st'. store_value_within w limit key v st = (st', Ok ()) \<and> protocol_ok l k st' \<and>
    keeps_entry key \<lparr>entry_value = v, entry_timestamp = ev_instant (w_env w (p_tick st)), entry_ttl = ttl\<rparr>
      t1 ttl (p_storage st')"
proof -
  let ?P = "keeps_entry key \<lparr>entry_value = v, entry_timestamp = ev_instant (w_env w (p_tick st)), entry_ttl = ttl\<rparr> t1 ttl"
  note entry = stored_entry [OF w s clock, of v]
  obtain st1 where st1: "with_storage w (\<lambda>e s. sto_store (w_impl w) (ev_instant e) key v s) st = (st1, Ok ())"
    using entry(1) by (cases "with_storage w (\<lambda>e s. sto_store (w_impl w) (ev_instant e) key v s) st") simp
  have P1: "?P (p_storage (fst (tick w st1)))" using entry(2) calm_tick [OF undisturbed_entry [OF w]] st1 by simp
  have "protocol_ok l k st1"
    using goodD [OF good_with_storage [OF ok(1), where np = False]] st1 by (metis fst_conv)
  then have ok1: "protocol_ok l k (fst (tick w st1))" by (rule protocol_ok_tick)
  have nodes: "\<exists>st'. store_on_nodes w key v ns (fst (tick w st1)) = (st', Ok ()) \<and> protocol_ok l k st' \<and> ?P (p_storage st')" for ns
    using store_on_nodes_Ok [OF ok1 ok(2), of w key v ns] goodD [OF good_store_on_nodes [OF ok1, of w key v ns]]
      calm_store_on_nodes [OF undisturbed_entry [OF w] P1, of key v ns] by auto
  show ?thesis
    using assms(7) nodes
    by (cases limit) (simp_all add: store_value_within_def store_value_def st1 and_then_def Let_def case_prod_beta)
qed

text \<open>
  C2: a value stored through a node can be read back from it until its time to live is over: for a
  node with a memory storage, after any history, when other tasks leave the key alone meanwhile,
  \<^verbatim>\<open>store\<close> succeeds and \<^verbatim>\<open>get\<close> returns the value, whatever the network answers, whether or not any
  other node is reachable, and even if \<^verbatim>\<open>store\<close> is cut off by its deadline after the local store.
\<close>

theorem store_get_roundtrip:
  fixes w :: "memory_storage world" and sha ops l a s0 limit key v
  defines "st \<equiv> run (dht_apply w sha) ops (dht_new l a s0)"
  defines "st' \<equiv> fst (dht_store w limit key v st)"
  defines "ttl \<equiv> ms_default_ttl (p_storage st)"
  defines "t0 \<equiv> ev_instant (w_env w (p_tick st))"
  assumes "ms_inv (p_storage st)" "undisturbed w (from_bytes key) t1 ttl"
    and "t0 + ttl < INSTANT_LIMIT" "t1 < t0 + ttl" "ev_instant (w_env w (p_tick st')) \<le> t1"
    and "limit \<noteq> CutBeforeStore"
  shows "snd (dht_store w limit key v st) = Ok () \<and> snd (dht_get w key st') = Ok v"
proof -
  let ?k = "from_bytes key"
  let ?P = "keeps_entry ?k \<lparr>entry_value = v, entry_timestamp = t0, entry_ttl = ttl\<rparr> t1 ttl"
  have ok: "protocol_ok l K st" unfolding st_def by (rule dht_node_ok)
  have K0: "0 < K" by (simp add: K_def)
  obtain st1 where st1: "store_value_within w limit ?k v st = (st1, Ok ())" "protocol_ok l K st1" "?P (p_storage st1)"
    using store_value_within_stores [OF assms(6,5) ttl_def [THEN meta_eq_to_obj_eq, symmetric] _ ok K0 assms(10), of v] assms(7)
    unfolding t0_def by blast
  let ?nodes = "rt_get_all_nodes (p_table (fst (tick w st1)))"
  have "?P (p_storage (fst (tick w st1)))" using calm_tick [OF undisturbed_entry [OF assms(6)] st1(3)] .
  then have "?P (p_storage (fst (store_on_nodes w ?k v ?nodes (fst (tick w st1)))))"
    by (rule calm_store_on_nodes [OF undisturbed_entry [OF assms(6)]])
  moreover obtain st2 where st2: "store_on_nodes w ?k v ?nodes (fst (tick w st1)) = (st2, Ok ())"
    using store_on_nodes_Ok [OF protocol_ok_tick [OF st1(2)] K0] by blast
  then have eq: "dht_store w limit key v st = (st2, Ok ())"
    by (simp add: dht_store_def Let_def st1(1) case_prod_beta and_then_def)
  ultimately have P: "?P (p_storage (fst (tick w st')))"
    using calm_tick [OF undisturbed_entry [OF assms(6)]] st2 unfolding st'_def by simp
  have "snd (tick w st') = w_env w (p_tick st')" by (simp add: tick_def Let_def)
  moreover have "ms_get (ev_instant (w_env w (p_tick st'))) ?k (p_storage (fst (tick w st'))) = (p_storage (fst (tick w st')), Ok v)"
    using entry_readable [OF P _ assms(9)] assms(8) by simp
  ultimately have "with_storage w (\<lambda>e s. sto_get (w_impl w) (ev_instant e) ?k s) st' = (fst (tick w st'), Ok v)"
    using assms(6) by (simp add: with_storage_def case_prod_beta undisturbed_def memory_impl_def)
  with eq show ?thesis by (simp add: dht_get_def find_value_def)
qed

theorem store_get_roundtrip_witness:
  "snd (dht_get sample_world [9] (fst (dht_store sample_world InTime [9] [1, 2]
     (run (dht_apply sample_world id) [] (dht_new id_zero (addr node_b) ms_new))))) = Ok [1, 2]"
  using store_get_roundtrip [where w = sample_world and sha = id and ops = "[]" and l = id_zero and a = "addr node_b"
      and ?s0.0 = ms_new and limit = InTime and key = "[9]" and v = "[1, 2]" and ?t1.0 = 0]
  by (simp add: undisturbed_def sample_world_def sample_env_def dht_new_def protocol_new_def ms_new_def ms_inv_def
      DEFAULT_TTL_def from_secs_def INSTANT_LIMIT_def)

lemma calm_contact:
  "calm w P \<Longrightarrow> P (p_storage st) \<Longrightarrow> record_contact w n st = (st', r) \<Longrightarrow> P (p_storage st')"
  using goodD [OF stored.keeps_contact [where P = P and w = w and st = st], of n] by simp

lemma calm_net_send:
  "calm w P \<Longrightarrow> P (p_storage st) \<Longrightarrow> net_send w dest m st = (st', r) \<Longrightarrow> P (p_storage st')"
  using goodD [OF stored.keeps_net_send [where P = P and w = w and st = st], of dest m] by simp

lemma handled_storage:
  assumes "handle_request w req from st = (st', Ok ())" "calm w P" "P (p_storage st)"
  shows "\<exists>st1 st2. dispatch w req from st1 = (st2, Ok ()) \<and> P (p_storage st1) \<and>
    sent_of is_response st1 = sent_of is_response st \<and> sent_of is_response st' = sent_of is_response st2 \<and>
    (\<forall>Q. calm w Q \<longrightarrow> Q (p_storage st2) \<longrightarrow> Q (p_storage st'))"
proof -
  from handled_stages [OF assms(1)] obtain b st1 st2 where
    1: "record_contact w (req_sender req) st = (st1, Ok b)" and 2: "dispatch w req from st1 = (st2, Ok ())" and
    3: "st' = (if b then fst (replicate_to_new_node w (req_sender req) st2) else st2)"
    by blast
  have "sent_of is_response st1 = sent_of is_response st"
    using goodD [OF replies.keeps_contact [OF refl [of "sent_of is_response st"]], of w "req_sender req"] 1 by simp
  moreover have "sent_of is_response st' = sent_of is_response st2"
    using goodD [OF replies.keeps_replicate [OF refl [of "sent_of is_response st2"]]] 3 by simp
  moreover have "Q (p_storage st')" if "calm w Q" "Q (p_storage st2)" for Q
    using goodD [OF stored.keeps_replicate [where P = Q and w = w and st = st2]] that 3 by simp
  ultimately show ?thesis using 2 calm_contact [OF assms(2,3) 1] by blast
qed

lemma handle_store_entry:
  fixes st :: "memory_storage protocol"
  assumes w: "undisturbed w key t1 ttl"
    and s: "ms_inv (p_storage st)" "ms_default_ttl (p_storage st) = ttl"
    and clock: "ev_instant (w_env w (p_tick st)) + ttl < INSTANT_LIMIT"
    and h: "dispatch w (Store i n key v) from st = (st', Ok ())"
  shows "\<exists>sender. sent_of is_response st' = sent_of is_response st @ [(from, Response (StoreResult i sender True))]"
    and "keeps_entry key \<lparr>entry_value = v, entry_timestamp = ev_instant (w_env w (p_tick st)), entry_ttl = ttl\<rparr>
      t1 ttl (p_storage st')"
proof -
  note entry = stored_entry [OF w s clock, of v]
  let ?r = "with_storage w (\<lambda>e s. sto_store (w_impl w) (ev_instant e) key v s) st"
  obtain st1 where st1: "?r = (st1, Ok ())" using entry(1) by (cases ?r) simp
  then have send: "net_send w from (Response (StoreResult i (local_node st1) True)) st1 = (st', Ok ())"
    using h by (simp add: handle_store_def)
  show "\<exists>sender. sent_of is_response st' = sent_of is_response st @ [(from, Response (StoreResult i sender True))]"
    using net_send_reply [OF send] with_storage_eqs [OF st1] by auto
  show "keeps_entry key \<lparr>entry_value = v, entry_timestamp = ev_instant (w_env w (p_tick st)), entry_ttl = ttl\<rparr>
      t1 ttl (p_storage st')"
    using entry(2) st1 by (auto intro: calm_net_send [OF undisturbed_entry [OF w] _ send])
qed

lemma handle_find_value_entry:
  fixes st :: "memory_storage protocol"
  assumes w: "undisturbed w key t1 ttl" and e: "keeps_entry key e t1 ttl (p_storage st)" "t1 < expiry e"
    and now: "ev_instant (w_env w (p_tick st)) \<le> t1"
    and h: "dispatch w (FindValue j n key) from st = (st', Ok ())"
  shows "\<exists>sender. sent_of is_response st' =
    sent_of is_response st @ [(from, Response (ValueFound j sender (Some (entry_value e)) []))]"
proof -
  have "keeps_entry key e t1 ttl (p_storage (fst (tick w st)))" by (rule calm_tick [OF undisturbed_entry [OF w] e(1)])
  from entry_readable [OF this e(2) now]
  have g: "with_storage w (\<lambda>e s. sto_get (w_impl w) (ev_instant e) key s) st = (fst (tick w st), Ok (entry_value e))"
    using w by (simp add: with_storage_def case_prod_beta undisturbed_def memory_impl_def tick_def Let_def)
  then have "net_send w from (Response (ValueFound j (local_node (fst (tick w st))) (Some (entry_value e)) [])) (fst (tick w st)) = (st', Ok ())"
    using h by (simp add: handle_find_value_def)
  from net_send_reply [OF this] show ?thesis by auto
qed

text \<open>
  C3: a node with a memory storage serves what it was asked to store: when it has handled a
  \<^verbatim>\<open>STORE\<close> request it has answered with success, and a \<^verbatim>\<open>FIND_VALUE\<close> request for the key handled within the
  time to live is answered with the value and no nodes, whoever asks, whatever contacts the two
  senders displace and whatever is replicated to them in between.
\<close>

theorem stored_value_is_served:
  fixes w :: "memory_storage world" and sha ops l a s0 i n1 key v from1
  defines "st \<equiv> run (dht_apply w sha) ops (dht_new l a s0)"
  defines "ttl \<equiv> ms_default_ttl (p_storage st)"
  defines "st1 \<equiv> fst (handle_request w (Store i n1 key v) from1 st)"
  assumes "ms_inv (p_storage st)" "undisturbed w key t1 ttl" "t1 + ttl < INSTANT_LIMIT"
    and "\<forall>t. t0 \<le> ev_instant (w_env w t) \<and> ev_instant (w_env w t) \<le> t1" "t1 < t0 + ttl"
    and "snd (handle_request w (Store i n1 key v) from1 st) = Ok ()"
    and "snd (handle_request w (FindValue j n2 key) from2 st1) = Ok ()"
  shows "\<exists>s1 s2. sent_of is_response (fst (handle_request w (FindValue j n2 key) from2 st1)) =
    sent_of is_response st @
      [(from1, Response (StoreResult i s1 True)), (from2, Response (ValueFound j s2 (Some v) []))]"
proof -
  let ?inv = "\<lambda>s. ms_inv s \<and> ms_default_ttl s = ttl"
  have h1: "handle_request w (Store i n1 key v) from1 st = (st1, Ok ())"
    using assms(9) by (simp add: st1_def prod_eq_iff)
  obtain sa sb where sa: "dispatch w (Store i n1 key v) from1 sa = (sb, Ok ())" "?inv (p_storage sa)"
    "sent_of is_response sa = sent_of is_response st" "sent_of is_response st1 = sent_of is_response sb"
    "\<forall>Q. calm w Q \<longrightarrow> Q (p_storage sb) \<longrightarrow> Q (p_storage st1)"
    using handled_storage [OF h1 undisturbed_inv [OF assms(5)]] assms(4) by (auto simp: ttl_def)
  define e where "e = \<lparr>entry_value = v, entry_timestamp = ev_instant (w_env w (p_tick sa)), entry_ttl = ttl\<rparr>"
  have clock: "ev_instant (w_env w (p_tick sa)) + ttl < INSTANT_LIMIT"
    using assms(6,7) by (meson add_le_mono1 le_less_trans)
  have t: "t1 < expiry e" using assms(7,8) by (simp add: e_def) (meson add_le_mono1 less_le_trans)
  note entry = handle_store_entry [OF assms(5) conjunct1 [OF sa(2)] conjunct2 [OF sa(2)] clock sa(1)]
  obtain s1 where s1: "sent_of is_response sb = sent_of is_response sa @ [(from1, Response (StoreResult i s1 True))]"
    using entry(1) by blast
  have calm: "calm w (keeps_entry key e t1 ttl)" by (rule undisturbed_entry [OF assms(5)])
  then have e1: "keeps_entry key e t1 ttl (p_storage st1)" using entry(2) sa(5) unfolding e_def by blast
  obtain st2 where h2: "handle_request w (FindValue j n2 key) from2 st1 = (st2, Ok ())"
    using assms(10) by (cases "handle_request w (FindValue j n2 key) from2 st1") simp
  obtain sc sd where sc: "dispatch w (FindValue j n2 key) from2 sc = (sd, Ok ())" "keeps_entry key e t1 ttl (p_storage sc)"
    "sent_of is_response sc = sent_of is_response st1" "sent_of is_response st2 = sent_of is_response sd"
    using handled_storage [OF h2 calm e1] by blast
  have "ev_instant (w_env w (p_tick sc)) \<le> t1" using assms(7) by blast
  from handle_find_value_entry [OF assms(5) sc(2) t this sc(1)] obtain s2 where
    "sent_of is_response sd = sent_of is_response sc @ [(from2, Response (ValueFound j s2 (Some v) []))]"
    by (auto simp: e_def)
  with s1 sa(3,4) sc(3,4) h2 show ?thesis by simp
qed

theorem stored_value_is_served_witness:
  defines "me \<equiv> new_node id_zero (addr node_b)"
  defines "st \<equiv> run (dht_apply sample_world id) [] (dht_new id_zero (addr node_b) ms_new)"
  shows "\<exists>s1 s2. sent_of is_response (fst (handle_request sample_world (FindValue 2 me (nid node_a)) (addr node_a)
      (fst (handle_request sample_world (Store 1 me (nid node_a) [5]) (addr node_c) st)))) =
    sent_of is_response st @
      [(addr node_c, Response (StoreResult 1 s1 True)), (addr node_a, Response (ValueFound 2 s2 (Some [5]) []))]"
  unfolding st_def
proof (rule stored_value_is_served [where ?t1.0 = 0 and ?t0.0 = 0], goal_cases)
  case 6
  show ?case
    by (simp add: handle_request_def record_contact_def me_def dht_new_def protocol_new_def and_then_def handle_store_def
        with_storage_def net_send_def tick_def sample_world_def sample_env_def memory_impl_def case_prod_beta)
next
  case 7
  show ?case
    by (simp add: handle_request_def record_contact_def me_def dht_new_def protocol_new_def and_then_def handle_store_def
        with_storage_def net_send_def tick_def sample_world_def sample_env_def memory_impl_def case_prod_beta
        handle_find_value_def ms_get_def entry_expiry_def instant_add_def INSTANT_LIMIT_def ms_new_def DEFAULT_TTL_def from_secs_def)
qed (simp_all add: undisturbed_def sample_world_def sample_env_def dht_new_def protocol_new_def ms_new_def ms_inv_def
      DEFAULT_TTL_def from_secs_def INSTANT_LIMIT_def)

section \<open>Republishing\<close>

lemma collect_items_memory:
  assumes "ms_inv s"
  shows "collect_items memory_impl now keys s =
    (s, Ok (List.map_filter (\<lambda>k. map_option (Pair k) (ms_live now s k)) keys))"
  by (induction keys)
    (auto simp: memory_impl_def ms_get_eq [OF assms] and_then_def List.map_filter_simps split: option.split)

lemma map_filter_keys:
  "map fst (List.map_filter (\<lambda>k. map_option (Pair k) (f k)) ks) = filter (\<lambda>k. f k \<noteq> None) ks"
  by (induction ks) (auto simp: List.map_filter_simps split: option.split)

lemma map_filter_mem:
  "(k, v) \<in> set (List.map_filter (\<lambda>k. map_option (Pair k) (f k)) ks) \<longleftrightarrow> k \<in> set ks \<and> f k = Some v"
  by (induction ks) (auto simp: List.map_filter_simps split: option.split)

text \<open>The instants of the environment lie in an interval within one time to live, inside the clock.\<close>

definition clock_within :: "'s world \<Rightarrow> instant \<Rightarrow> instant \<Rightarrow> duration \<Rightarrow> bool" where
  "clock_within w t0 t1 ttl \<longleftrightarrow> t1 < t0 + ttl \<and> t1 + ttl < INSTANT_LIMIT \<and>
     (\<forall>t. t0 \<le> ev_instant (w_env w t) \<and> ev_instant (w_env w t) \<le> t1)"

lemma clock_withinD:
  assumes "clock_within w t0 t1 ttl"
  shows "ev_instant (w_env w t) + ttl < INSTANT_LIMIT" "t1 < ev_instant (w_env w t) + ttl"
    "t0 \<le> ev_instant (w_env w t)" "ev_instant (w_env w t) \<le> t1"
proof -
  have "t0 \<le> ev_instant (w_env w t)" "ev_instant (w_env w t) \<le> t1" "t1 < t0 + ttl" "t1 + ttl < INSTANT_LIMIT"
    using assms unfolding clock_within_def by blast+
  then show "ev_instant (w_env w t) + ttl < INSTANT_LIMIT" "t1 < ev_instant (w_env w t) + ttl"
    "t0 \<le> ev_instant (w_env w t)" "ev_instant (w_env w t) \<le> t1" by linarith+
qed

text \<open>Storing another key keeps an entry.\<close>

lemma store_value_keeps:
  fixes st :: "memory_storage protocol"
  assumes w: "undisturbed w key t1 ttl" and clock: "clock_within w t0 t1 ttl"
    and e: "keeps_entry key e t1 ttl (p_storage st)" and ne: "key' \<noteq> key"
    and ok: "protocol_ok l k st" "0 < k"
  shows "\<exists>st'. store_value w key' v' st = (st', Ok ()) \<and> protocol_ok l k st' \<and> keeps_entry key e t1 ttl (p_storage st')"
proof -
  let ?r = "with_storage w (\<lambda>e s. sto_store (w_impl w) (ev_instant e) key' v' s) st"
  have i: "w_impl w = memory_impl" using w by (simp add: undisturbed_def)
  have "keeps_entry key e t1 ttl (p_storage (fst (tick w st)))" by (rule calm_tick [OF undisturbed_entry [OF w] e])
  moreover have "snd (tick w st) = w_env w (p_tick st)" by (simp add: tick_def Let_def)
  ultimately have P: "keeps_entry key e t1 ttl (p_storage (fst ?r))" and ok_r: "snd ?r = Ok ()"
    using keeps_entry_step [of key e t1 ttl "p_storage (fst (tick w st))" "OpStore (ev_instant (w_env w (p_tick st))) key' v'"]
      ne clock_withinD [OF clock, of "p_tick st"]
    by (simp_all add: with_storage_def case_prod_beta i memory_impl_def)
  obtain st1 where st1: "?r = (st1, Ok ())" using ok_r by (cases ?r) simp
  have "protocol_ok l k st1" using goodD [OF good_with_storage [OF ok(1), where np = False]] st1 by (metis fst_conv)
  then have ok1: "protocol_ok l k (fst (tick w st1))" by (rule protocol_ok_tick)
  have P1: "keeps_entry key e t1 ttl (p_storage (fst (tick w st1)))"
    using calm_tick [OF undisturbed_entry [OF w]] P st1 by simp
  show ?thesis
    using store_on_nodes_Ok [OF ok1 ok(2)] goodD [OF good_store_on_nodes [OF ok1]]
      calm_store_on_nodes [OF undisturbed_entry [OF w] P1]
    by (simp add: store_value_def st1 and_then_def Let_def case_prod_beta) (metis fst_conv)
qed

lemma republish_items_keeps:
  fixes st :: "memory_storage protocol"
  assumes w: "undisturbed w key t1 ttl" and clock: "clock_within w t0 t1 ttl" and "0 < k"
  shows "key \<notin> fst ` set items \<Longrightarrow> keeps_entry key e t1 ttl (p_storage st) \<Longrightarrow> protocol_ok l k st \<Longrightarrow>
    snd (republish_items w items st) = Ok () \<and> keeps_entry key e t1 ttl (p_storage (fst (republish_items w items st)))"
proof (induction items arbitrary: st)
  case (Cons x items)
  obtain key' v' where x: "x = (key', v')" by force
  obtain st' where "store_value w key' v' st = (st', Ok ())" "protocol_ok l k st'" "keeps_entry key e t1 ttl (p_storage st')"
    using store_value_keeps [OF w clock Cons.prems(2) _ Cons.prems(3) assms(3), of key' v'] Cons.prems(1) x by auto
  with Cons x show ?case by (simp add: and_then_def ignore_err_def)
qed simp

lemma republish_items_renews:
  fixes st :: "memory_storage protocol"
  assumes w: "undisturbed w key t1 ttl" and clock: "clock_within w t0 t1 ttl" and k: "0 < k"
  shows "distinct (map fst items) \<Longrightarrow> (key, v) \<in> set items \<Longrightarrow> ms_inv (p_storage st) \<Longrightarrow>
    ms_default_ttl (p_storage st) = ttl \<Longrightarrow> protocol_ok l k st \<Longrightarrow>
    \<exists>t. snd (republish_items w items st) = Ok () \<and>
      keeps_entry key \<lparr>entry_value = v, entry_timestamp = ev_instant (w_env w t), entry_ttl = ttl\<rparr> t1 ttl
        (p_storage (fst (republish_items w items st)))"
proof (induction items arbitrary: st)
  case (Cons x items)
  obtain key' v' where x: "x = (key', v')" by force
  show ?case
  proof (cases "key' = key")
    case True
    then have "key \<notin> fst ` set items" "v' = v" using Cons.prems(1,2) x by (auto intro: rev_image_eqI)
    moreover obtain st' where "store_value w key v st = (st', Ok ())" "protocol_ok l k st'"
      "keeps_entry key \<lparr>entry_value = v, entry_timestamp = ev_instant (w_env w (p_tick st)), entry_ttl = ttl\<rparr> t1 ttl (p_storage st')"
      using store_value_within_stores [OF w Cons.prems(3,4) clock_withinD(1) [OF clock] Cons.prems(5) k, of InTime v]
      by (auto simp: store_value_within_def)
    ultimately show ?thesis
      using republish_items_keeps [OF w clock k] x True by (simp add: and_then_def ignore_err_def) blast
  next
    case False
    obtain e where "keeps_entry key e t1 ttl (p_storage st)" using some_entry Cons.prems(3,4) by blast
    from store_value_keeps [OF w clock this False Cons.prems(5) k, of v'] obtain st' where
      st': "store_value w key' v' st = (st', Ok ())" "protocol_ok l k st'" "keeps_entry key e t1 ttl (p_storage st')"
      by blast
    have "(key, v) \<in> set items" "distinct (map fst items)" using Cons.prems(1,2) x False by auto
    with Cons.IH [of st'] st' keeps_entry_inv [OF st'(3)] x show ?thesis by (simp add: and_then_def ignore_err_def)
  qed
qed simp

text \<open>
  C5: a republishing round renews every value it can read: for a node with a memory storage, when
  other tasks leave the key alone, a key that is readable when the round starts is readable with the
  same value for a full time to live from the round on.
\<close>

theorem republish_renews:
  fixes w :: "memory_storage world" and sha ops l a s0
  defines "st \<equiv> run (dht_apply w sha) ops (dht_new l a s0)"
  defines "ttl \<equiv> ms_default_ttl (p_storage st)"
  assumes "ms_inv (p_storage st)" "undisturbed w key t1 ttl" "clock_within w t0 t1 ttl"
    and "snd (with_storage w (\<lambda>e s. sto_get (w_impl w) (ev_instant e) key s) st) = Ok v"
    and "now < t0 + ttl"
  shows "snd (republish_round w st) = Ok () \<and>
    snd (ms_get now key (p_storage (fst (republish_round w st)))) = Ok v"
proof -
  have i: "w_impl w = memory_impl" using assms(4) by (simp add: undisturbed_def)
  let ?st = "fst (tick w st)" and ?t = "ev_instant (w_env w (p_tick st))"
  let ?items = "List.map_filter (\<lambda>k. map_option (Pair k) (ms_live ?t (p_storage ?st) k)) (ms_get_all_keys (p_storage ?st))"
  have e: "snd (tick w st) = w_env w (p_tick st)" by (simp add: tick_def Let_def)
  have s: "ms_inv (p_storage ?st)" "ms_default_ttl (p_storage ?st) = ttl"
    using calm_tick [OF undisturbed_inv [OF assms(4)], of st] assms(3) by (simp_all add: ttl_def)
  have r: "republish_round w st = republish_items w ?items (?st\<lparr>p_storage := p_storage ?st\<rparr>)"
    using collect_items_memory [OF s(1)] e
    by (simp add: republish_round_def with_storage_def case_prod_beta i and_then_def)
       (simp add: memory_impl_def)
  have wf: "hm_wf (ms_storage (p_storage ?st))" using s(1) by (simp add: ms_inv_def)
  have live: "ms_live ?t (p_storage ?st) key = Some v"
    using assms(6) e s(1) by (auto simp: with_storage_def case_prod_beta i memory_impl_def ms_get_eq split: option.splits)
  then have "key \<in> set (ms_get_all_keys (p_storage ?st))"
    using wf by (auto simp: ms_get_all_keys_def hm.key_iff ms_live_def split: option.splits)
  with live have mem: "(key, v) \<in> set ?items" by (simp add: map_filter_mem)
  have "distinct (ms_get_all_keys (p_storage ?st))" using wf by (simp add: ms_get_all_keys_def hm_wf_def hm_keys_def)
  then have dist: "distinct (map fst ?items)" by (simp add: map_filter_keys)
  have "protocol_ok l K ?st" unfolding st_def by (rule protocol_ok_tick [OF dht_node_ok])
  from republish_items_renews [OF assms(4,5) _ dist mem s this] obtain t where
    t: "snd (republish_items w ?items ?st) = Ok ()"
      "keeps_entry key \<lparr>entry_value = v, entry_timestamp = ev_instant (w_env w t), entry_ttl = ttl\<rparr> t1 ttl
        (p_storage (fst (republish_items w ?items ?st)))"
    by (auto simp: K_def)
  have "now < ev_instant (w_env w t) + ttl" using clock_withinD(3) [OF assms(5), of t] assms(7) by linarith
  with t clock_withinD(2) [OF assms(5), of t] show ?thesis
    unfolding r by (auto simp: keeps_entry_def ms_get_eq ms_live_def)
qed

text \<open>A round one nanosecond before the value expires, and a read long after that expiry.\<close>

definition late_world :: "memory_storage world" where
  "late_world = sample_world\<lparr>w_env := (\<lambda>_. (sample_env Elapsed)\<lparr>ev_instant := 86399999999999\<rparr>)\<rparr>"

theorem republish_renews_witness:
  defines "st \<equiv> run (dht_apply late_world id) []
    (dht_new id_zero (addr node_b) (fst (ms_store 0 (nid node_a) [5] ms_new)))"
  shows "snd (ms_get 172799999999998 (nid node_a) (p_storage (fst (republish_round late_world st)))) = Ok [5]"
  unfolding st_def
proof (rule conjunct2 [OF republish_renews [where ?t1.0 = 86399999999999 and ?t0.0 = 86399999999999]], goal_cases)
  case 4
  show ?case
    by (simp add: dht_new_def protocol_new_def with_storage_def tick_def late_world_def sample_world_def sample_env_def
        memory_impl_def ms_get_def entry_expiry_def instant_add_def INSTANT_LIMIT_def ms_new_def DEFAULT_TTL_def from_secs_def)
qed (auto simp: undisturbed_def clock_within_def late_world_def sample_world_def sample_env_def dht_new_def protocol_new_def
      ms_new_def ms_inv_def DEFAULT_TTL_def from_secs_def INSTANT_LIMIT_def hm.invar_insert hm.get_insert)

section \<open>Values found in the network\<close>

lemma calm_find_value_tasks:
  "calm w P \<Longrightarrow> P (p_storage st) \<Longrightarrow> P (p_storage (fst (find_value_tasks w key ns st)))"
  using stored.keeps_find_value_tasks [where P = P and w = w and st = st and key = key] by simp

lemma find_value_loop_caches:
  fixes st :: "memory_storage protocol"
  assumes w: "undisturbed w key t1 ttl" and clock: "clock_within w t0 t1 ttl"
  shows "ms_inv (p_storage st) \<Longrightarrow> ms_default_ttl (p_storage st) = ttl \<Longrightarrow>
    find_value_loop w key m V cl st = (st', Ok (Some v)) \<Longrightarrow>
    \<exists>t. keeps_entry key \<lparr>entry_value = v, entry_timestamp = ev_instant (w_env w t), entry_ttl = ttl\<rparr> t1 ttl (p_storage st')"
proof (induction m arbitrary: V cl st)
  case (Suc m)
  define q where "q = take ALPHA (filter (\<lambda>n. nid n \<notin> V \<and> nid n \<noteq> p_id st) cl)"
  obtain st1 rs where t: "find_value_tasks w key q st = (st1, rs)" by force
  have s1: "ms_inv (p_storage st1)" "ms_default_ttl (p_storage st1) = ttl"
    using calm_find_value_tasks [OF undisturbed_inv [OF w], of st key q] Suc.prems(1,2) t by simp_all
  have ne: "q \<noteq> []"
  proof
    assume "q = []"
    with Suc.prems(3) show False by (simp add: q_def [symmetric])
  qed
  show ?case
  proof (cases "collect_results rs (V \<union> ids q) []")
    case (Inl u)
    let ?r = "with_storage w (\<lambda>e s. sto_store (w_impl w) (ev_instant e) key u s) st1"
    note entry = stored_entry [OF w s1 clock_withinD(1) [OF clock], of u]
    obtain st2 where r: "?r = (st2, Ok ())" using entry(1) by (cases ?r) simp
    then have "st' = st2" "v = u"
      using Suc.prems(3) t Inl ne by (auto simp: q_def [symmetric] and_then_def ignore_err_def)
    then show ?thesis using entry(2) r by auto
  next
    case (Inr ns)
    then show ?thesis using Suc.prems(3) Suc.IH [OF s1] t ne by (auto simp: q_def [symmetric] split: if_splits)
  qed
qed simp

text \<open>
  C4: a value found in the network is cached: for a node with a memory storage whose other tasks
  leave the key alone, when a lookup returns a value that was not readable locally, the value is
  readable locally from then on for its time to live, without the network.
\<close>

theorem found_value_is_cached:
  fixes w :: "memory_storage world" and sha ops l a s0
  defines "st \<equiv> run (dht_apply w sha) ops (dht_new l a s0)"
  defines "ttl \<equiv> ms_default_ttl (p_storage st)"
  assumes "ms_inv (p_storage st)" "undisturbed w key t1 ttl" "clock_within w t0 t1 ttl"
    and "snd (with_storage w (\<lambda>e s. sto_get (w_impl w) (ev_instant e) key s) st) = Err ValueNotFound"
    and "snd (find_value w key st) = Ok (Some v)" and "now < t0 + ttl"
  shows "snd (ms_get now key (p_storage (fst (find_value w key st)))) = Ok v"
proof -
  let ?r = "with_storage w (\<lambda>e s. sto_get (w_impl w) (ev_instant e) key s) st"
  obtain st1 where r: "?r = (st1, Err ValueNotFound)" using assms(6) by (cases ?r) simp
  have calm: "calm w (\<lambda>s. ms_inv s \<and> ms_default_ttl s = ttl)" by (rule undisturbed_inv [OF assms(4)])
  have "ms_inv (p_storage st1) \<and> ms_default_ttl (p_storage st1) = ttl"
    using goodD [OF stored.keeps_get [where w = w and st = st and P = "\<lambda>s. ms_inv s \<and> ms_default_ttl s = ttl"], of key]
      calm assms(3) r by (simp add: ttl_def)
  then have s: "ms_inv (p_storage (fst (tick w st1)))" "ms_default_ttl (p_storage (fst (tick w st1))) = ttl"
    using calm_tick [OF calm, of st1] by simp_all
  obtain st' where f: "find_value w key st = (st', Ok (Some v))"
    using assms(7) by (cases "find_value w key st") simp
  then obtain V cl where "find_value_loop w key MAX_ITERATIONS V cl (fst (tick w st1)) = (st', Ok (Some v))"
    by (auto simp: find_value_def r Let_def case_prod_beta split: if_splits)
  from find_value_loop_caches [OF assms(4,5) s this] obtain t where
    e: "keeps_entry key \<lparr>entry_value = v, entry_timestamp = ev_instant (w_env w t), entry_ttl = ttl\<rparr> t1 ttl (p_storage st')"
    by blast
  have "now < ev_instant (w_env w t) + ttl" using clock_withinD(3) [OF assms(5), of t] assms(8) by linarith
  with e clock_withinD(2) [OF assms(5), of t] show ?thesis
    by (auto simp: f keeps_entry_def ms_get_eq ms_live_def)
qed

definition answering_world :: "memory_storage world" where
  "answering_world = \<lparr>w_impl = memory_impl,
     w_env = (\<lambda>_. sample_env (Responded (ValueFound 7 (new_node id_zero (addr node_b)) (Some [5]) [])))\<rparr>"

lemma answering_env [simp]:
  "w_impl answering_world = memory_impl"
  "w_env answering_world t = sample_env (Responded (ValueFound 7 (new_node id_zero (addr node_b)) (Some [5]) []))"
  by (simp_all add: answering_world_def)

theorem found_value_is_cached_witness:
  defines "st \<equiv> run (dht_apply answering_world id) [DProtocol (PContact node_a)] (dht_new id_zero (addr node_b) ms_new)"
  shows "snd (ms_get 0 (nid node_b) (p_storage (fst (find_value answering_world (nid node_b) st)))) = Ok [5]"
proof -
  let ?t = "rt_put 0 \<lparr>kb_k = 20, kb_local = id_zero, kb_prefix_len = 0,
      kb_nodes = [update_last_seen 0 node_a], kb_cache = []\<rparr> (rt_with_k id_zero 20)"
  have new: "rt_new id_zero = rt_with_k id_zero 20" by (simp add: rt_new_def rt_with_k_def K_def)
  have t: "p_table st = ?t" "p_storage st = ms_new" "p_id st = id_zero"
    by (simp_all add: st_def record_contact_def offer_contact_def dht_new_def protocol_new_def with_table_def tick_def
        sample_env_def and_then_def rt_update_nosplit kb_update_def kb_new_def case_prod_beta new)
  have c: "rt_get_closest ?t (nid node_b) K = [update_last_seen 0 node_a]"
    by (simp add: rt_get_closest_def hm_values_def hm_insert_def sort_by_distance_def K_def)
  have loop: "snd (find_value_loop answering_world key (Suc m) {id_zero} [update_last_seen 0 node_a] st2) = Ok (Some [5])"
    if "p_id st2 = id_zero" for key m st2
    using that
    by (simp add: ALPHA_def with_storage_def tick_def sample_env_def memory_impl_def find_value_rpc_def net_send_def
        and_then_def ignore_err_def record_contact_def case_prod_beta Let_def)
  have "snd (find_value answering_world (nid node_b) st) = Ok (Some [5])"
    using loop [where m = 9]
    by (simp add: find_value_def with_storage_def tick_def t c sample_env_def memory_impl_def ms_get_def ms_new_def
        MAX_ITERATIONS_def case_prod_beta Let_def)
  moreover have "snd (with_storage answering_world
      (\<lambda>e s. sto_get (w_impl answering_world) (ev_instant e) (nid node_b) s) st) = Err ValueNotFound"
    by (simp add: with_storage_def tick_def t sample_env_def memory_impl_def ms_get_def ms_new_def)
  moreover have "clock_within answering_world 0 0 DEFAULT_TTL" "undisturbed answering_world (nid node_b) 0 DEFAULT_TTL"
    by (simp_all add: clock_within_def undisturbed_def sample_env_def DEFAULT_TTL_def from_secs_def INSTANT_LIMIT_def)
  moreover have "ms_inv ms_new" "ms_default_ttl ms_new = DEFAULT_TTL" "0 < DEFAULT_TTL"
    by (simp_all add: ms_inv_def ms_new_def DEFAULT_TTL_def from_secs_def)
  ultimately show ?thesis
    using found_value_is_cached [where w = answering_world and sha = id and ops = "[DProtocol (PContact node_a)]"
        and l = id_zero and a = "addr node_b" and ?s0.0 = ms_new and key = "nid node_b" and v = "[5]"
        and now = 0 and ?t0.0 = 0 and ?t1.0 = 0]
    unfolding st_def [symmetric] t(2) by simp
qed

end
