(* ===== verification/Tcp_Server.thy ===== *)
theory Tcp_Server
  imports Tcp
begin

text \<open>
  The tasks that \<^verbatim>\<open>TcpNetwork::new\<close> spawns (\<^verbatim>\<open>src/src/network/tcp.rs\<close>), interleaved: the accept loop adds
  connections, each connection task alternates between reading a frame and, once it has the lock it
  needs, handling it, and the callers of the transport register for responses, time out, give up,
  send, and install the handler. A schedule is a list of events.
\<close>

section \<open>Model\<close>

text \<open>A connection task is about to read, holds a frame it has read, or has ended.\<close>

datatype tcp_conn = Reading tcp_stream | Holding tcp_stream "u8 list" | Closed

text \<open>The handler calls are listed with the number of the connection whose task spawned them.\<close>

record 'h tcp_server =
  srv_net :: "'h tcp_network"
  srv_conns :: "tcp_conn list"
  srv_calls :: "(nat \<times> 'h \<times> request_message \<times> socket_addr) list"

definition srv_new :: "'h tcp_server" where
  "srv_new = \<lparr>srv_net = tcp_new, srv_conns = [], srv_calls = []\<rparr>"

text \<open>One turn of the accept loop: a failed \<^verbatim>\<open>accept\<close> is logged and the loop goes on.\<close>

fun tcp_accept :: "io_error + tcp_stream \<Rightarrow> 'h tcp_server \<Rightarrow> 'h tcp_server" where
  "tcp_accept (Inr stream) srv = srv\<lparr>srv_conns := srv_conns srv @ [Reading stream]\<rparr>"
| "tcp_accept (Inl e) srv = srv"

text \<open>
  A step of the loop of \<^verbatim>\<open>handle_connection\<close> for the \<open>n\<close>-th connection. An error ends its task as a
  closed stream does.
\<close>

definition tcp_connection_turn ::
  "(u8 list \<Rightarrow> string + kademlia_message) \<Rightarrow> nat \<Rightarrow> 'h tcp_server \<Rightarrow> 'h tcp_server" where
  "tcp_connection_turn deserialize n srv =
     (if n < length (srv_conns srv) then
        (case srv_conns srv ! n of
           Closed \<Rightarrow> srv
         | Reading stream \<Rightarrow>
             (case tcp_read_frame stream of
                (stream', Ok (Some frame)) \<Rightarrow> srv\<lparr>srv_conns := (srv_conns srv)[n := Holding stream' frame]\<rparr>
              | _ \<Rightarrow> srv\<lparr>srv_conns := (srv_conns srv)[n := Closed]\<rparr>)
         | Holding stream frame \<Rightarrow>
             let (net, spawned) = tcp_handle_frame deserialize frame (srv_net srv)
             in \<lparr>srv_net = net, srv_conns = (srv_conns srv)[n := Reading stream],
                 srv_calls = srv_calls srv @ (case spawned of Some call \<Rightarrow> [(n, call)] | None \<Rightarrow> [])\<rparr>)
      else srv)"

text \<open>
  The steps of \<^verbatim>\<open>wait_response\<close>: a call registers its channel, its timer fires, it clears its entry, or
  it is dropped.
\<close>

definition tcp_pending_event :: "pend_event \<Rightarrow> 'h tcp_network \<Rightarrow> 'h tcp_network" where
  "tcp_pending_event ev net = net\<lparr>tcp_pending := pend_apply ev (tcp_pending net)\<rparr>"

datatype 'h tcp_event =
    TAccept tcp_stream
  | TAcceptError io_error
  | TTurn nat
  | TWait message_id
  | TExpire nat
  | TTimeout nat
  | TCancel nat
  | TSend socket_addr kademlia_message
  | TSetHandler 'h

fun tcp_serve ::
  "(u8 list \<Rightarrow> string + kademlia_message) \<Rightarrow> (kademlia_message \<Rightarrow> string + u8 list) \<Rightarrow>
   'h tcp_event \<Rightarrow> 'h tcp_server \<Rightarrow> 'h tcp_server" where
  "tcp_serve de ser (TAccept stream) srv = tcp_accept (Inr stream) srv"
| "tcp_serve de ser (TAcceptError e) srv = tcp_accept (Inl e) srv"
| "tcp_serve de ser (TTurn n) srv = tcp_connection_turn de n srv"
| "tcp_serve de ser (TWait i) srv = srv\<lparr>srv_net := tcp_pending_event (EvRegister i) (srv_net srv)\<rparr>"
| "tcp_serve de ser (TExpire n) srv = srv\<lparr>srv_net := tcp_pending_event (EvExpire n) (srv_net srv)\<rparr>"
| "tcp_serve de ser (TTimeout n) srv = srv\<lparr>srv_net := tcp_pending_event (EvTimeout n) (srv_net srv)\<rparr>"
| "tcp_serve de ser (TCancel n) srv = srv\<lparr>srv_net := tcp_pending_event (EvCancel n) (srv_net srv)\<rparr>"
| "tcp_serve de ser (TSend dest m) srv = srv\<lparr>srv_net := fst (tcp_send ser dest m (srv_net srv))\<rparr>"
| "tcp_serve de ser (TSetHandler h) srv = srv\<lparr>srv_net := fst (tcp_set_request_handler h (srv_net srv))\<rparr>"

section \<open>Specification\<close>

text \<open>The frames of a stream, up to its end or the first frame that cannot be read.\<close>

function stream_frames :: "tcp_stream \<Rightarrow> u8 list list" where
  "stream_frames s = (case tcp_read_frame s of (s', Ok (Some f)) \<Rightarrow> f # stream_frames s' | _ \<Rightarrow> [])"
  by pat_completeness auto
termination
  by (relation "measure (\<lambda>s. length (ts_bytes s))") (auto dest: tcp_read_frame_shrinks [OF sym])

declare stream_frames.simps [simp del]

fun frames_left :: "tcp_conn \<Rightarrow> u8 list list" where
  "frames_left (Reading s) = stream_frames s"
| "frames_left (Holding s f) = f # stream_frames s"
| "frames_left Closed = []"

fun accepted :: "'h tcp_event list \<Rightarrow> tcp_stream list" where
  "accepted [] = []"
| "accepted (TAccept s # evs) = s # accepted evs"
| "accepted (_ # evs) = accepted evs"

text \<open>What the callers of the transport do to the table of pending responses.\<close>

fun caller_events :: "'h tcp_event list \<Rightarrow> pend_event list" where
  "caller_events [] = []"
| "caller_events (TWait i # evs) = EvRegister i # caller_events evs"
| "caller_events (TExpire n # evs) = EvExpire n # caller_events evs"
| "caller_events (TTimeout n # evs) = EvTimeout n # caller_events evs"
| "caller_events (TCancel n # evs) = EvCancel n # caller_events evs"
| "caller_events (_ # evs) = caller_events evs"

fun sets_handler :: "'h tcp_event \<Rightarrow> bool" where
  "sets_handler (TSetHandler _) = True"
| "sets_handler _ = False"

definition tagged :: "'t \<Rightarrow> ('t \<times> 'a) list \<Rightarrow> 'a list" where
  "tagged k xs = map snd (filter (\<lambda>(j, _). j = k) xs)"

lemma tagged_simps [simp]:
  "tagged k [] = []" "tagged k (xs @ ys) = tagged k xs @ tagged k ys"
  "tagged k ((j, x) # xs) = (if j = k then x # tagged k xs else tagged k xs)"
  by (simp_all add: tagged_def)

abbreviation call_of :: "'h \<Rightarrow> request_message \<Rightarrow> 'h \<times> request_message \<times> socket_addr" where
  "call_of h r \<equiv> (h, r, addr (req_sender r))"

text \<open>
  \<open>ss\<close> are the accepted streams, \<open>ces\<close> the events of the callers; \<open>ds\<close> is the order in which the
  events of the callers and the responses of the connections reached the table of pending
  responses, \<open>fs n\<close> the frames of connection \<open>n\<close> that were handled.
\<close>

definition srv_spec ::
  "(u8 list \<Rightarrow> string + kademlia_message) \<Rightarrow> 'h \<Rightarrow> tcp_stream list \<Rightarrow> pend_event list \<Rightarrow> 'h tcp_server \<Rightarrow>
   (nat option \<times> pend_event) list \<Rightarrow> (nat \<Rightarrow> u8 list list) \<Rightarrow> bool" where
  "srv_spec de h ss ces srv ds fs \<longleftrightarrow>
     length (srv_conns srv) = length ss \<and> tcp_handler (srv_net srv) = Some h \<and>
     tcp_pending (srv_net srv) = run pend_apply (map snd ds) pend_new \<and> tagged None ds = ces \<and>
     (\<forall>n. tagged (Some n) ds = map EvDeliver (frame_responses de (fs n)) \<and>
          tagged n (srv_calls srv) = map (call_of h) (frame_requests de (fs n)) \<and>
          (if n < length ss then stream_frames (ss ! n) = fs n @ frames_left (srv_conns srv ! n) else fs n = []))"

lemma srv_specI:
  assumes "length (srv_conns srv) = length ss" "tcp_handler (srv_net srv) = Some h"
    and "tcp_pending (srv_net srv) = run pend_apply (map snd ds) pend_new" "tagged None ds = ces"
    and "\<And>n. tagged (Some n) ds = map EvDeliver (frame_responses de (fs n))"
    and "\<And>n. tagged n (srv_calls srv) = map (call_of h) (frame_requests de (fs n))"
    and "\<And>n. if n < length ss then stream_frames (ss ! n) = fs n @ frames_left (srv_conns srv ! n) else fs n = []"
  shows "srv_spec de h ss ces srv ds fs"
  unfolding srv_spec_def using assms by blast

lemma srv_specD:
  assumes "srv_spec de h ss ces srv ds fs"
  shows "length (srv_conns srv) = length ss" "tcp_handler (srv_net srv) = Some h"
    and "tcp_pending (srv_net srv) = run pend_apply (map snd ds) pend_new" "tagged None ds = ces"
    and "tagged (Some n) ds = map EvDeliver (frame_responses de (fs n))"
    and "tagged n (srv_calls srv) = map (call_of h) (frame_requests de (fs n))"
    and "if n < length ss then stream_frames (ss ! n) = fs n @ frames_left (srv_conns srv ! n) else fs n = []"
  using assms unfolding srv_spec_def by blast+

lemma frame_lists [simp]:
  "frame_responses de [] = []" "frame_requests de [] = []"
  "frame_responses de (fs @ [f]) = frame_responses de fs @ frame_responses de [f]"
  "frame_requests de (fs @ [f]) = frame_requests de fs @ frame_requests de [f]"
  by (simp_all add: frame_responses_def frame_requests_def List.map_filter_def)

section \<open>Every step keeps to the specification\<close>

lemma spec_accept:
  assumes spec: "srv_spec de h ss ces srv ds fs"
  shows "srv_spec de h (ss @ [s]) ces (tcp_accept (Inr s) srv) ds fs"
proof (rule srv_specI)
  note d = srv_specD [OF spec]
  fix n
  show "if n < length (ss @ [s]) then stream_frames ((ss @ [s]) ! n) = fs n @ frames_left (srv_conns (tcp_accept (Inr s) srv) ! n)
      else fs n = []"
    using d(1) d(7) [of n] by (auto simp: nth_append less_Suc_eq split: if_splits)
qed (use srv_specD [OF spec] in simp_all)

lemma spec_caller:
  assumes spec: "srv_spec de h ss ces srv ds fs"
  shows "srv_spec de h ss (ces @ [ev]) (srv\<lparr>srv_net := tcp_pending_event ev (srv_net srv)\<rparr>) (ds @ [(None, ev)]) fs"
  by (rule srv_specI) (use srv_specD [OF spec] in \<open>simp_all add: tcp_pending_event_def\<close>)

lemma spec_send:
  assumes spec: "srv_spec de h ss ces srv ds fs"
  shows "srv_spec de h ss ces (srv\<lparr>srv_net := fst (tcp_send ser dest m (srv_net srv))\<rparr>) ds fs"
  by (rule srv_specI) (use srv_specD [OF spec] in \<open>auto simp: tcp_send_def split: sum.split\<close>)

lemma spec_read:
  assumes spec: "srv_spec de h ss ces srv ds fs" and n: "n < length ss" "srv_conns srv ! n = Reading s"
  shows "srv_spec de h ss ces (tcp_connection_turn de n srv) ds fs"
proof -
  note d = srv_specD [OF spec]
  obtain s' r where r: "tcp_read_frame s = (s', r)" by force
  define c where "c = (case r of Ok (Some f) \<Rightarrow> Holding s' f | _ \<Rightarrow> Closed)"
  have c: "frames_left c = stream_frames s"
    by (cases r) (auto simp: c_def stream_frames.simps [of s] r split: option.split)
  have turn: "tcp_connection_turn de n srv = srv\<lparr>srv_conns := (srv_conns srv)[n := c]\<rparr>"
    using n d(1) r by (cases r) (auto simp: tcp_connection_turn_def c_def split: option.split)
  show ?thesis
  proof (rule srv_specI)
    fix m
    show "if m < length ss then stream_frames (ss ! m) = fs m @ frames_left (srv_conns (tcp_connection_turn de n srv) ! m)
        else fs m = []"
      using d(7) [of m] d(1) n c by (cases "m = n") (simp_all add: turn)
  qed (use d in \<open>simp_all add: turn\<close>)
qed

lemma spec_handle:
  assumes spec: "srv_spec de h ss ces srv ds fs" and n: "n < length ss" "srv_conns srv ! n = Holding s f"
  shows "\<exists>ds' fs'. srv_spec de h ss ces (tcp_connection_turn de n srv) ds' fs'"
proof -
  note d = srv_specD [OF spec]
  let ?srv = "tcp_connection_turn de n srv"
  let ?ds = "ds @ (case de f of Inr (Response r) \<Rightarrow> [(Some n, EvDeliver r)] | _ \<Rightarrow> [])"
  let ?fs = "fs(n := fs n @ [f])"
  have turn: "srv_conns ?srv = (srv_conns srv)[n := Reading s]"
    "srv_calls ?srv = srv_calls srv @ (case de f of Inr (Request r) \<Rightarrow> [(n, call_of h r)] | _ \<Rightarrow> [])"
    "tcp_handler (srv_net ?srv) = Some h"
    "tcp_pending (srv_net ?srv) = (case de f of Inr (Response r) \<Rightarrow> pend_deliver r (tcp_pending (srv_net srv))
       | _ \<Rightarrow> tcp_pending (srv_net srv))"
    using n d(1,2)
    by (auto simp: tcp_connection_turn_def tcp_handle_frame_def split: sum.split kademlia_message.split)
  have "srv_spec de h ss ces ?srv ?ds ?fs"
  proof (rule srv_specI)
    show "tcp_pending (srv_net ?srv) = run pend_apply (map snd ?ds) pend_new"
      using d(3) by (auto simp: turn split: sum.split kademlia_message.split)
    show "tagged None ?ds = ces" using d(4) by (auto split: sum.split kademlia_message.split)
    fix m
    show "tagged (Some m) ?ds = map EvDeliver (frame_responses de (?fs m))"
      using d(5) [of m]
      by (auto simp: frame_responses_def List.map_filter_def split: sum.split kademlia_message.split)
    show "tagged m (srv_calls ?srv) = map (call_of h) (frame_requests de (?fs m))"
      using d(6) [of m] turn(2)
      by (auto simp: frame_requests_def List.map_filter_def split: sum.split kademlia_message.split)
    show "if m < length ss then stream_frames (ss ! m) = ?fs m @ frames_left (srv_conns ?srv ! m) else ?fs m = []"
      using d(7) [of m] d(1) n by (cases "m = n") (simp_all add: turn(1))
  qed (use d(1) turn in simp_all)
  then show ?thesis by blast
qed

lemma spec_turn:
  assumes spec: "srv_spec de h ss ces srv ds fs"
  shows "\<exists>ds' fs'. srv_spec de h ss ces (tcp_connection_turn de n srv) ds' fs'"
proof (cases "n < length ss")
  case True
  then show ?thesis
    using spec_read [OF spec True] spec_handle [OF spec True] spec srv_specD(1) [OF spec]
    by (cases "srv_conns srv ! n") (auto simp: tcp_connection_turn_def)
next
  case False
  then have "tcp_connection_turn de n srv = srv" using srv_specD(1) [OF spec] by (simp add: tcp_connection_turn_def)
  with spec show ?thesis by auto
qed

lemma spec_run:
  "srv_spec de h ss ces srv ds fs \<Longrightarrow> list_all (\<lambda>x. \<not> sets_handler x) evs \<Longrightarrow>
   \<exists>ds' fs'. srv_spec de h (ss @ accepted evs) (ces @ caller_events evs) (run (tcp_serve de ser) evs srv) ds' fs'"
proof (induction evs arbitrary: ss ces srv ds fs)
  case (Cons x evs)
  have "list_all (\<lambda>x. \<not> sets_handler x) evs" using Cons.prems(2) by simp
  note IH = Cons.IH [OF _ this]
  show ?case
  proof (cases x)
    case (TAccept s)
    with IH [OF spec_accept [OF Cons.prems(1), of s]] show ?thesis by simp
  next
    case (TTurn n)
    from spec_turn [OF Cons.prems(1), of n] obtain ds' fs' where
      "srv_spec de h ss ces (tcp_connection_turn de n srv) ds' fs'" by blast
    from IH [OF this] TTurn show ?thesis by simp
  next
    case (TWait i)
    with IH [OF spec_caller [OF Cons.prems(1), of "EvRegister i"]] show ?thesis by simp
  next
    case (TExpire n)
    with IH [OF spec_caller [OF Cons.prems(1), of "EvExpire n"]] show ?thesis by simp
  next
    case (TTimeout n)
    with IH [OF spec_caller [OF Cons.prems(1), of "EvTimeout n"]] show ?thesis by simp
  next
    case (TCancel n)
    with IH [OF spec_caller [OF Cons.prems(1), of "EvCancel n"]] show ?thesis by simp
  next
    case (TSend dest m)
    with IH [OF spec_send [OF Cons.prems(1), of ser dest m]] show ?thesis by simp
  qed (use IH [OF Cons.prems(1)] Cons.prems(2) in simp_all)
qed auto

section \<open>Properties\<close>

text \<open>
  C29: under any interleaving of the accept loop, the connection tasks and the callers of the
  transport, once a handler is installed: the frames of every accepted stream are those already
  handled followed by those its task has still to read or handle (none once it has ended); for the
  handled ones, in their order and without loss or repetition, the handler was called with each
  request and the table of pending responses received each response; that table is the one that
  results from these responses and the callers' own events in some order.
\<close>

theorem tcp_interleaving:
  fixes h :: 'h and evs de ser
  defines "srv \<equiv> run (tcp_serve de ser) (TSetHandler h # evs) srv_new"
  assumes "list_all (\<lambda>x. \<not> sets_handler x) evs"
  shows "\<exists>ds fs. tcp_pending (srv_net srv) = run pend_apply (map snd ds) pend_new \<and>
    tagged None ds = caller_events evs \<and> length (srv_conns srv) = length (accepted evs) \<and>
    (\<forall>n. n < length (accepted evs) \<longrightarrow>
      stream_frames (accepted evs ! n) = fs n @ frames_left (srv_conns srv ! n) \<and>
      tagged n (srv_calls srv) = map (\<lambda>r. (h, r, addr (req_sender r))) (frame_requests de (fs n)) \<and>
      tagged (Some n) ds = map EvDeliver (frame_responses de (fs n)))"
proof -
  let ?start = "tcp_serve de ser (TSetHandler h) srv_new"
  have "srv_spec de h [] [] ?start [] (\<lambda>_. [])"
    by (simp add: srv_spec_def srv_new_def tcp_new_def tcp_set_request_handler_def)
  from spec_run [OF this assms(2), of ser] obtain ds fs where
    "srv_spec de h (accepted evs) (caller_events evs) srv ds fs" by (auto simp: srv_def)
  note d = srv_specD [OF this]
  show ?thesis
  proof (intro exI [of _ ds] exI [of _ fs] conjI allI impI)
    fix n assume n: "n < length (accepted evs)"
    then show "stream_frames (accepted evs ! n) = fs n @ frames_left (srv_conns srv ! n)"
      using d(7) [of n] by simp
  qed (use d in simp_all)
qed

text \<open>A stream with one request, read and handled while a caller registers.\<close>

definition sample_stream :: tcp_stream where
  "sample_stream = \<lparr>ts_bytes = fst (tcp_write_frame None None [1]), ts_end = UnexpectedEof\<rparr>"

definition sample_de :: "u8 list \<Rightarrow> string + kademlia_message" where
  "sample_de f = (if f = [1] then Inr (Request (Ping 5 node_a)) else Inl ''bad'')"

definition sample_schedule :: "bool tcp_event list" where
  "sample_schedule = [TAccept sample_stream, TTurn 0, TWait 9, TTurn 0, TTurn 0]"

lemma sample_read:
  "tcp_read_frame sample_stream = (\<lparr>ts_bytes = [], ts_end = UnexpectedEof\<rparr>, Ok (Some [1]))"
  "tcp_read_frame \<lparr>ts_bytes = [], ts_end = UnexpectedEof\<rparr> = (\<lparr>ts_bytes = [], ts_end = UnexpectedEof\<rparr>, Ok None)"
  by (simp add: tcp_read_frame_iff sample_stream_def frame_bytes_eq MAX_FRAME_SIZE_def)
    (simp add: tcp_read_frame_def read_exact_def)

lemma sample_run:
  "srv_conns (run (tcp_serve sample_de (\<lambda>_. Inr [])) (TSetHandler True # sample_schedule) srv_new) = [Closed]"
  by (simp add: sample_schedule_def srv_new_def tcp_new_def tcp_set_request_handler_def tcp_connection_turn_def
      sample_read tcp_handle_frame_def sample_de_def tcp_pending_event_def)

lemma sample_frames: "stream_frames sample_stream = [[1]]"
  by (subst stream_frames.simps, subst stream_frames.simps) (simp only: sample_read prod.case outcome.case option.case)

theorem tcp_interleaving_witness:
  "tagged 0 (srv_calls (run (tcp_serve sample_de (\<lambda>_. Inr [])) (TSetHandler True # sample_schedule) srv_new)) =
     [(True, Ping 5 node_a, addr node_a)]"
proof -
  let ?srv = "run (tcp_serve sample_de (\<lambda>_. Inr [])) (TSetHandler True # sample_schedule) srv_new"
  have ok: "list_all (\<lambda>x. \<not> sets_handler x) sample_schedule"
    and n: "0 < length (accepted sample_schedule)" "accepted sample_schedule ! 0 = sample_stream"
    by (simp_all add: sample_schedule_def)
  from tcp_interleaving [OF ok, where h = True and de = sample_de and ser = "\<lambda>_. Inr []"] obtain fs where
    "\<forall>n. n < length (accepted sample_schedule) \<longrightarrow>
      stream_frames (accepted sample_schedule ! n) = fs n @ frames_left (srv_conns ?srv ! n) \<and>
      tagged n (srv_calls ?srv) = map (\<lambda>r. (True, r, addr (req_sender r))) (frame_requests sample_de (fs n))"
    by blast
  from this [rule_format, OF n(1)] have "fs 0 = [[1]]"
    "tagged 0 (srv_calls ?srv) = map (\<lambda>r. (True, r, addr (req_sender r))) (frame_requests sample_de (fs 0))"
    unfolding n(2) sample_frames sample_run by simp_all
  then show ?thesis by (simp add: frame_requests_def List.map_filter_def sample_de_def)
qed

end
