(* ===== verification/Mock.thy ===== *)
theory Mock
  imports Transport
begin

text \<open>
  \<^verbatim>\<open>src/src/network/mock.rs\<close>: the in-memory transport. The process-wide registry maps an address to
  a weak reference. Transports are numbered; the ones that still have an owner are in the map of
  live transports, so upgrading a weak reference is a lookup there. \<^verbatim>\<open>try_lock\<close> in the destructor
  may find the registry locked by another task, which is an argument of the destructor.
\<close>

section \<open>Data\<close>

record 'h mock_inner =
  mi_addr :: socket_addr
  mi_pending :: pending_table
  mi_handler :: "'h option"

record 'h mock_world =
  mw_registry :: "(socket_addr \<times> nat) list"
  mw_live :: "(nat \<times> 'h mock_inner) list"
  mw_next :: nat

definition mw_init :: "'h mock_world" where
  "mw_init = \<lparr>mw_registry = [], mw_live = [], mw_next = 0\<rparr>"

section \<open>Operations\<close>

definition deliver_response :: "response_message \<Rightarrow> 'h mock_inner \<Rightarrow> 'h mock_inner" where
  "deliver_response response inner = inner\<lparr>mi_pending := pend_deliver response (mi_pending inner)\<rparr>"

definition forward_request ::
  "request_message \<Rightarrow> socket_addr \<Rightarrow> 'h mock_inner \<Rightarrow> ('h \<times> request_message \<times> socket_addr) option" where
  "forward_request request from inner =
     (case mi_handler inner of Some handler \<Rightarrow> Some (handler, request, from) | None \<Rightarrow> None)"

text \<open>The last owner of transport \<open>n\<close> goes away: the destructor removes its address.\<close>

definition mock_drop :: "bool \<Rightarrow> nat \<Rightarrow> 'h mock_world \<Rightarrow> 'h mock_world" where
  "mock_drop lock_free n w =
     (case hm_get (mw_live w) n of
        None \<Rightarrow> w
      | Some inner \<Rightarrow>
          let w' = w\<lparr>mw_live := hm_remove n (mw_live w)\<rparr>
          in if lock_free then w'\<lparr>mw_registry := hm_remove (mi_addr inner) (mw_registry w')\<rparr> else w')"

text \<open>
  \<^verbatim>\<open>new\<close> builds the transport before it looks at the registry; on the error return the guard of the
  registry is released first and then the unused transport is destroyed.
\<close>

definition mock_new :: "bool \<Rightarrow> socket_addr \<Rightarrow> 'h mock_world \<Rightarrow> 'h mock_world \<times> nat outcome" where
  "mock_new lock_free a w =
     (let n = mw_next w;
          inner = \<lparr>mi_addr = a, mi_pending = pend_new, mi_handler = None\<rparr>;
          w1 = w\<lparr>mw_live := hm_insert n inner (mw_live w), mw_next := n + 1\<rparr>;
          taken = (case hm_get (mw_registry w1) a of
                     Some existing \<Rightarrow> hm_get (mw_live w1) existing \<noteq> None
                   | None \<Rightarrow> False)
      in if taken then
           (mock_drop lock_free n w1,
            Err (Network (''Address '' @ addr_to_string a @ '' already registered'')))
         else (w1\<lparr>mw_registry := hm_insert a n (mw_registry w1)\<rparr>, Ok n))"

definition mock_lookup :: "socket_addr \<Rightarrow> 'h mock_world \<Rightarrow> 'h mock_world \<times> nat option" where
  "mock_lookup a w =
     (case hm_get (mw_registry w) a of
        None \<Rightarrow> (w, None)
      | Some existing \<Rightarrow>
          if hm_get (mw_live w) existing \<noteq> None then (w, Some existing)
          else (w\<lparr>mw_registry := hm_remove a (mw_registry w)\<rparr>, None))"

text \<open>\<^verbatim>\<open>send\<close> of the transport with address \<open>self_addr\<close>, and the handler call it spawns, if any.\<close>

definition mock_send ::
  "socket_addr \<Rightarrow> socket_addr \<Rightarrow> kademlia_message \<Rightarrow> 'h mock_world \<Rightarrow>
   'h mock_world \<times> ('h \<times> request_message \<times> socket_addr) option \<times> unit outcome" where
  "mock_send self_addr dest message w =
     (case mock_lookup dest w of
        (w', None) \<Rightarrow>
          (w', None, Err (Network (''No in-memory transport registered for '' @ addr_to_string dest)))
      | (w', Some n) \<Rightarrow>
          (case hm_get (mw_live w') n of
             None \<Rightarrow> (w', None, Ok ())
           | Some remote \<Rightarrow>
               (case message of
                  Response response \<Rightarrow>
                    (w'\<lparr>mw_live := hm_insert n (deliver_response response remote) (mw_live w')\<rparr>, None, Ok ())
                | Request request \<Rightarrow> (w', forward_request request self_addr remote, Ok ()))))"

definition mock_set_request_handler :: "nat \<Rightarrow> 'h \<Rightarrow> 'h mock_world \<Rightarrow> 'h mock_world" where
  "mock_set_request_handler n handler w =
     (case hm_get (mw_live w) n of
        None \<Rightarrow> w
      | Some inner \<Rightarrow> w\<lparr>mw_live := hm_insert n (inner\<lparr>mi_handler := Some handler\<rparr>) (mw_live w)\<rparr>)"

text \<open>The steps of \<^verbatim>\<open>wait_response\<close> of transport \<open>n\<close> on its table.\<close>

definition mock_pending_event :: "nat \<Rightarrow> pend_event \<Rightarrow> 'h mock_world \<Rightarrow> 'h mock_world" where
  "mock_pending_event n ev w =
     (case hm_get (mw_live w) n of
        None \<Rightarrow> w
      | Some inner \<Rightarrow>
          w\<lparr>mw_live := hm_insert n (inner\<lparr>mi_pending := pend_apply ev (mi_pending inner)\<rparr>) (mw_live w)\<rparr>)"

datatype 'h mock_op =
    MockNew bool socket_addr
  | MockDrop bool nat
  | MockSend socket_addr socket_addr kademlia_message
  | MockSetHandler nat 'h
  | MockPending nat pend_event

fun mock_apply :: "'h mock_op \<Rightarrow> 'h mock_world \<Rightarrow> 'h mock_world" where
  "mock_apply (MockNew lock_free a) w = fst (mock_new lock_free a w)"
| "mock_apply (MockDrop lock_free n) w = mock_drop lock_free n w"
| "mock_apply (MockSend self_addr dest message) w = fst (mock_send self_addr dest message w)"
| "mock_apply (MockSetHandler n h) w = mock_set_request_handler n h w"
| "mock_apply (MockPending n ev) w = mock_pending_event n ev w"

section \<open>Invariant\<close>

text \<open>
  Numbers below \<open>mw_next\<close> only, and a registered transport that is alive has the address it is
  registered under.
\<close>

definition mw_inv :: "'h mock_world \<Rightarrow> bool" where
  "mw_inv w \<longleftrightarrow>
     (\<forall>n i. hm_get (mw_live w) n = Some i \<longrightarrow> n < mw_next w \<and> pend_inv (mi_pending i)) \<and>
     (\<forall>a n. hm_get (mw_registry w) a = Some n \<longrightarrow> n < mw_next w) \<and>
     (\<forall>a n i. hm_get (mw_registry w) a = Some n \<longrightarrow> hm_get (mw_live w) n = Some i \<longrightarrow> mi_addr i = a)"

lemma mw_inv_init [simp]: "mw_inv mw_init"
  by (simp add: mw_inv_def mw_init_def)

lemma mw_inv_drop: "mw_inv w \<Longrightarrow> mw_inv (mock_drop lock_free n w)"
  by (auto simp: mw_inv_def mock_drop_def Let_def hm.get_remove split: option.splits if_splits)

text \<open>Replacing a live transport by one with the same address.\<close>

lemma mw_inv_replace:
  assumes "mw_inv w" "hm_get (mw_live w) n = Some i" "mi_addr j = mi_addr i" "pend_inv (mi_pending j)"
  shows "mw_inv (w\<lparr>mw_live := hm_insert n j (mw_live w)\<rparr>)"
  using assms by (auto simp: mw_inv_def hm.get_insert)

lemma mw_inv_alloc:
  assumes "mw_inv w"
  shows "mw_inv (w\<lparr>mw_live := hm_insert (mw_next w) \<lparr>mi_addr = a, mi_pending = pend_new, mi_handler = None\<rparr> (mw_live w),
    mw_next := mw_next w + 1\<rparr>)"
  using assms by (force simp: mw_inv_def hm.get_insert less_Suc_eq)

lemma mw_inv_new: "mw_inv w \<Longrightarrow> mw_inv (fst (mock_new lock_free a w))"
  using mw_inv_alloc [of w a]
  by (auto simp: mock_new_def Let_def mw_inv_drop)
    (auto simp: mw_inv_def hm.get_insert split: if_splits)

lemma mock_lookup_Some:
  "mock_lookup a w = (w', Some n) \<Longrightarrow> w' = w \<and> hm_get (mw_registry w) a = Some n \<and> hm_get (mw_live w) n \<noteq> None"
  by (auto simp: mock_lookup_def split: option.splits if_splits)

lemma mw_inv_lookup: "mw_inv w \<Longrightarrow> mw_inv (fst (mock_lookup a w))"
  by (auto simp: mw_inv_def mock_lookup_def hm.get_remove split: option.splits)

lemma mw_inv_send: "mw_inv w \<Longrightarrow> mw_inv (fst (mock_send s d m w))"
proof (cases "mock_lookup d w")
  case (Pair w' r)
  assume inv: "mw_inv w"
  then have w': "mw_inv w'" using mw_inv_lookup [of w d] Pair by simp
  show ?thesis
  proof (cases "\<exists>n remote resp. r = Some n \<and> hm_get (mw_live w') n = Some remote \<and> m = Response resp")
    case True
    then obtain n remote resp where *: "r = Some n" "hm_get (mw_live w') n = Some remote" "m = Response resp"
      by blast
    then have "mw_inv (w'\<lparr>mw_live := hm_insert n (deliver_response resp remote) (mw_live w')\<rparr>)"
      using w' by (intro mw_inv_replace) (auto simp: deliver_response_def mw_inv_def pend_inv_deliver)
    with * Pair show ?thesis by (simp add: mock_send_def)
  next
    case False
    then have "fst (mock_send s d m w) = w'"
      using Pair by (auto simp: mock_send_def split: option.split kademlia_message.split)
    with w' show ?thesis by simp
  qed
qed

lemma mw_inv_pending: "mw_inv w \<Longrightarrow> hm_get (mw_live w) n = Some i \<Longrightarrow> pend_inv (mi_pending i)"
  unfolding mw_inv_def by blast

interpretation mock: stable mock_apply mw_inv
proof
  fix w :: "'a mock_world" and x assume inv: "mw_inv w"
  show "mw_inv (mock_apply x w)"
  proof (cases x)
    case (MockSetHandler n h)
    then show ?thesis
      using inv mw_inv_replace [OF inv, of n] mw_inv_pending [OF inv, of n]
      by (cases "hm_get (mw_live w) n") (simp_all add: mock_set_request_handler_def)
  next
    case (MockPending n ev)
    then show ?thesis
      using inv mw_inv_replace [OF inv, of n] mw_inv_pending [OF inv, of n]
      by (cases "hm_get (mw_live w) n") (simp_all add: mock_pending_event_def pend.step_inv)
  qed (use inv in \<open>simp_all add: mw_inv_new mw_inv_drop mw_inv_send\<close>)
qed

lemmas mw_run_inv = mock.run_inv [OF mw_inv_init]

section \<open>Properties\<close>

text \<open>
  C30: after any sequence of creations, destructions, messages and waits, a transport found in the
  registry under an address is alive and has that address.
\<close>

theorem lookup_finds_owner:
  fixes ops :: "'h mock_op list"
  defines "w \<equiv> run mock_apply ops mw_init"
  assumes "snd (mock_lookup a w) = Some n"
  shows "\<exists>inner. hm_get (mw_live w) n = Some inner \<and> mi_addr inner = a"
proof -
  have "hm_get (mw_registry w) a = Some n \<and> hm_get (mw_live w) n \<noteq> None"
    using mock_lookup_Some [of a w "fst (mock_lookup a w)" n] assms(2) by (simp add: prod_eq_iff)
  then show ?thesis using mw_run_inv [of ops] unfolding w_def mw_inv_def by blast
qed

definition addr_sample :: socket_addr where
  "addr_sample = SocketAddrV4 0x7F000001 4000"

theorem lookup_finds_owner_witness:
  "\<exists>inner. hm_get (mw_live (run mock_apply [MockNew True addr_sample] (mw_init :: unit mock_world))) 0 = Some inner \<and>
     mi_addr inner = addr_sample"
  using lookup_finds_owner [where ops = "[MockNew True addr_sample :: unit mock_op]" and a = addr_sample and n = 0]
  by (simp add: mock_new_def mw_init_def mock_lookup_def)

text \<open>
  C38: creating a second transport on the address of a live one fails, as it should, but unless the
  registry happens to be locked at that moment it also unregisters the live one: the destructor of
  the rejected transport removes the address whenever its \<^verbatim>\<open>try_lock\<close> succeeds. The first transport is
  then alive, is no longer found, and every send to its address fails; when \<^verbatim>\<open>try_lock\<close> fails it stays
  registered.
\<close>

theorem rejected_duplicate_unregisters:
  assumes "mw_inv w" "hm_get (mw_registry w) a = Some n" "hm_get (mw_live w) n = Some inner"
  shows "\<exists>w' e. mock_new lock_free a w = (w', Err e) \<and> hm_get (mw_live w') n = Some inner \<and>
    snd (mock_lookup a w') = (if lock_free then None else Some n) \<and>
    ((\<exists>x. snd (snd (mock_send self_addr a message w')) = Err x) \<longleftrightarrow> lock_free)"
proof -
  have n: "n < mw_next w" using assms(1,2) unfolding mw_inv_def by blast
  then show ?thesis
    using assms(2,3)
    by (cases lock_free)
      (auto simp: mock_new_def mock_drop_def mock_send_def mock_lookup_def Let_def hm.get_insert hm.get_remove
        split: kademlia_message.split)
qed

theorem rejected_duplicate_unregisters_witness:
  "\<exists>w' e x. mock_new True addr_sample (run mock_apply [MockNew True addr_sample] (mw_init :: unit mock_world)) = (w', Err e) \<and>
     snd (mock_lookup addr_sample w') = None \<and>
     snd (snd (mock_send addr_sample addr_sample (Request (Ping 5 node_a)) w')) = Err x"
proof -
  let ?w = "run mock_apply [MockNew True addr_sample] (mw_init :: unit mock_world)"
  let ?i = "\<lparr>mi_addr = addr_sample, mi_pending = pend_new, mi_handler = None\<rparr>"
  have w: "mw_inv ?w" "hm_get (mw_registry ?w) addr_sample = Some 0" "hm_get (mw_live ?w) 0 = Some ?i"
    by (rule mw_run_inv) (simp_all add: mock_new_def mw_init_def)
  show ?thesis
    using rejected_duplicate_unregisters [OF w, of True addr_sample "Request (Ping 5 node_a)"] by force
qed

end
