(* ===== verification/Spec2Isabelle.thy ===== *)
theory Spec2Isabelle
  imports Dht_Node Tcp_Server Mock
begin

text \<open>
  \<^bold>\<open>A model of kademlia-rs, a distributed hash table.\<close>

  \<^bold>\<open>The program.\<close> A node of the hash table has a 160-bit identifier. It keeps contacts to other nodes in
  a routing table of buckets, ordered by the exclusive-or distance to itself, and values in a storage
  whose entries expire. A protocol handler answers four kinds of request (ping, store, find node,
  find value) and issues them: iterative lookups ask ever closer nodes, and a value is stored on the
  nodes closest to its key. Messages travel over UDP datagrams, TCP frames or, for tests, memory. The
  complete node joins a network through a known address, offers store and get, and runs three
  background tasks: refresh the buckets, republish the values, drop the expired ones.

  \<^bold>\<open>The theories\<close>, with the file of \<^verbatim>\<open>src/src/\<close> each models:

  \<^item> \<open>Kad_Prelude\<close>: results (\<open>Ok\<close>, \<open>Err\<close>, \<open>Panic\<close>), the error type (\<^verbatim>\<open>error.rs\<close>), hash maps as association
    lists with a locale of their laws, durations, instants, and the locale \<open>stable\<close>: a step function
    keeps an invariant, hence so does every sequence of steps; \<open>refines\<close> is its analogue for an
    abstraction function.
  \<^item> \<open>Node_Id\<close>, \<open>Xor_Metric\<close> (\<^verbatim>\<open>node_id.rs\<close>): identifiers as 20 bytes, distance, order, bucket index,
    random identifiers of a bucket. The byte-wise loops are shown equal to arithmetic on numbers.
  \<^item> \<open>Net_Addr\<close>: socket addresses and their printed form, as far as the crate uses them.
  \<^item> \<open>F64\<close>, \<open>Contact\<close> (\<^verbatim>\<open>node.rs\<close>): contacts with response statistics; floating-point values are
    rationals rounded to 53 bits where the code rounds.
  \<^item> \<open>K_Bucket\<close>, \<open>Routing_Table\<close> (\<^verbatim>\<open>routing/k_bucket.rs\<close>, \<^verbatim>\<open>routing/routing_table.rs\<close>): buckets with their
    replacement cache, and the table.
  \<^item> \<open>Storage\<close> (\<^verbatim>\<open>storage.rs\<close>): the trait as a dictionary of operations, its two implementations and the
    contract \<open>kv_storage\<close>, interpreted for both.
  \<^item> \<open>Message\<close> (\<^verbatim>\<open>protocol/message.rs\<close>): requests, responses and their selectors.
  \<^item> \<open>Transport\<close>, \<open>Udp\<close>, \<open>Tcp\<close>, \<open>Tcp_Server\<close>, \<open>Mock\<close> (\<^verbatim>\<open>network/udp.rs\<close>, \<^verbatim>\<open>tcp.rs\<close>, \<^verbatim>\<open>mock.rs\<close>): the table of pending
    responses that all transports share, as a step function over interleaved events; the rate limiter
    and retries of UDP; the framing and the connection loop of TCP; the registry of the in-memory
    transport. \<open>Tcp_Server\<close> interleaves the tasks of the TCP transport event by event; reading a frame and
    handling it are separate events, as are the end of a caller's timer and the removal of its entry.
  \<^item> \<open>Protocol\<close>, \<open>Protocol_Facts\<close> (\<^verbatim>\<open>protocol/operation.rs\<close>): every call, handler and lookup, and what they
    guarantee. The locale \<open>frame\<close> and its extensions say what a call leaves alone; they are interpreted
    for the messages sent, for the waits, for the steps of the environment and for the contents of the
    storage.
  \<^item> \<open>Dht_Node\<close> (\<^verbatim>\<open>network/node.rs\<close>): the complete node, its background tasks, and the properties of the
    composition.

  \<^bold>\<open>Effects.\<close> State is passed explicitly. Panics are values, so that a theorem can say that there is none.
  A clock reading, a random number and the result of sending or waiting are arguments; in \<open>Protocol\<close>
  they come from an environment, a numbered sequence of steps with one step for each point where the
  code takes a lock or waits. A step also carries the operations other tasks perform on the shared
  table and storage before the call goes on, so a theorem about all environments covers all
  interleavings of locked sections. Requests that one lookup issues in parallel are taken in their
  order; the tasks of a value lookup that are still running when a value is found are run to their
  end. A deadline around a call drops it while it waits for the network: for its response or for a
  ping it ends with.

  \<^bold>\<open>Loops.\<close> Every loop is a terminating function. The node lookup has no bound in the code; it ends because
  a round that goes on has seen a new identifier and there are finitely many (\<open>lookup_measure\<close>). The
  value lookup has the ten rounds of the source as its structural argument. The receiving loops of the
  transports run over the finite list of what arrives; the timers of the background tasks run forever
  and are modelled by their rounds, which may occur in any sequence with the other operations.

  \<^bold>\<open>What is shown.\<close> For identifiers: the metric laws, bucket index as length of the common prefix and order of
  magnitude of the distance. For the table: the structural invariant in every reachable state, the
  outcome of an update on every branch, that splitting never happens, that the closest contacts are
  the closest ones. For the storage: that the memory storage refines a map from keys to
  values with expiry times, that the dual storage refines such a map in which a late read renews an
  entry, and the agreement of its two copies. For the transports: responses reach their callers, the
  rate limit, the framing round trip, and that under any interleaving of its tasks the TCP transport
  hands every request to the handler and every response to the table of pending responses. For the
  protocol: the node-wide invariant, termination and result of lookups, one reply per request, how long
  a request waits, sound values, stores reaching the closest contacts. For the node: a stored value is read back until it
  expires, is served to whoever asks for it, and is renewed by republishing; a value found in the
  network is cached. Several theorems
  state behaviour that the comments of the code do not promise or contradict, among them the lost
  statistics, the contact that survives its removal, the entry that makes every cleanup panic, the
  response that arrives too early and the lookup that drops the wrong node.

  \<^bold>\<open>Parameters.\<close> SHA-256, the hex and bincode crates, the random generator and the operating system's sockets are
  arguments of the definitions that use them.

  \<^bold>\<open>Not modelled.\<close> Log output and its set-up (\<^verbatim>\<open>lib.rs\<close>), module declarations, the example program, the tests
  and scripts, the scheduling of tokio beyond the interleaving of locked sections, and the
  operations of concurrent calls on the map of pending requests of the protocol, which no code reads.
\<close>

end
